(* ===== verification/Prelude.thy ===== *)
theory Prelude
  imports Main "HOL-Library.Word"
begin

text \<open>
  Shared vocabulary of the development: bytes and machine integers, the outcome type of
  fallible Rust code (a value, an error the code returns, or a panic), the bounds of the
  integer types, little-endian encodings, and generic lemmas on lists that several
  components use.
\<close>

unbundle bit_operations_syntax

section \<open>Lemma collections\<close>

named_theorems wire_simps \<open>equations for reading and writing bytes\<close>

section \<open>Bytes, integers, outcomes\<close>

type_synonym byte = "8 word"
type_synonym bytes = "byte list"
type_synonym u16 = "16 word"
type_synonym u32 = "32 word"
type_synonym u64 = "64 word"
type_synonym usize = "64 word"

text \<open>Why a thread unwinds, for the panics the source can reach.\<close>

datatype panic =
    Capacity_Overflow       \<comment> \<open>\<open>Vec::with_capacity\<close> beyond \<open>isize::MAX\<close> bytes\<close>
  | Instant_Overflow        \<comment> \<open>\<open>Instant + Duration\<close> not representable\<close>
  | Arith_Overflow          \<comment> \<open>integer overflow in a build with overflow checks\<close>
  | Index_Out_Of_Bounds     \<comment> \<open>slice or vector index\<close>
  | Assertion_Failed        \<comment> \<open>\<open>assert!\<close>\<close>
  | Unwrap_Err              \<comment> \<open>\<open>Result::unwrap\<close> on \<open>Err\<close>\<close>
  | Unwrap_None             \<comment> \<open>\<open>Option::unwrap\<close> on \<open>None\<close>\<close>

datatype ('a, 'e) outcome = Ok 'a | Err 'e | Panic panic

text \<open>The \<open>?\<close> operator: continue on a value, pass errors and panics on.\<close>

fun and_then :: "('a, 'e) outcome \<Rightarrow> ('a \<Rightarrow> ('b, 'e) outcome) \<Rightarrow> ('b, 'e) outcome" where
  "and_then (Ok x) f = f x"
| "and_then (Err e) f = Err e"
| "and_then (Panic p) f = Panic p"

fun is_ok :: "('a, 'e) outcome \<Rightarrow> bool" where
  "is_ok (Ok _) = True"
| "is_ok _ = False"

lemma and_then_Ok_iff:
  "and_then m f = Ok y \<longleftrightarrow> (\<exists>x. m = Ok x \<and> f x = Ok y)"
  by (cases m) auto

lemma and_then_Err_iff:
  "and_then m f = Err e \<longleftrightarrow> m = Err e \<or> (\<exists>x. m = Ok x \<and> f x = Err e)"
  by (cases m) auto

lemma and_then_Panic_iff:
  "and_then m f = Panic p \<longleftrightarrow> m = Panic p \<or> (\<exists>x. m = Ok x \<and> f x = Panic p)"
  by (cases m) auto

lemma and_then_cong [fundef_cong]:
  "m = m' \<Longrightarrow> (\<And>x. m' = Ok x \<Longrightarrow> f x = g x) \<Longrightarrow> and_then m f = and_then m' g"
  by (cases m') auto

text \<open>
  \<open>i64\<close> and \<open>u64\<close> values are kept as \<open>int\<close> and \<open>nat\<close> where the code never lets
  them wrap; these are their ranges, and \<open>as_i64\<close> is the cast \<open>u64 as i64\<close>.
\<close>

definition in_i64 :: "int \<Rightarrow> bool" where
  "in_i64 n \<longleftrightarrow> - (2 ^ 63) \<le> n \<and> n < 2 ^ 63"

definition isize_max :: nat where
  "isize_max = 2 ^ 63 - 1"

definition as_i64 :: "nat \<Rightarrow> int" where
  "as_i64 n = sint (word_of_nat n :: u64)"

lemma in_i64_of_nat: "n < 2 ^ 63 \<Longrightarrow> in_i64 (int n)"
  by (simp add: in_i64_def)

lemma as_i64_small: "n < 2 ^ 63 \<Longrightarrow> as_i64 n = int n"
  by (simp add: as_i64_def sint_uint signed_take_bit_int_eq_self unsigned_of_nat take_bit_nat_eq_self)

text \<open>
  Arithmetic on \<open>usize\<close>: with overflow checks (a debug build) an overflow panics, without
  (a release build) it wraps. Atomic counters always wrap.
\<close>

definition usize_add :: "bool \<Rightarrow> usize \<Rightarrow> usize \<Rightarrow> (usize, 'e) outcome" where
  "usize_add checks a b =
     (if checks \<and> 2 ^ 64 \<le> unat a + unat b then Panic Arith_Overflow else Ok (a + b))"

definition usize_sub :: "bool \<Rightarrow> usize \<Rightarrow> usize \<Rightarrow> (usize, 'e) outcome" where
  "usize_sub checks a b = (if checks \<and> a < b then Panic Arith_Overflow else Ok (a - b))"

lemma usize_add_exact: "unat a + unat b < 2 ^ 64 \<Longrightarrow> usize_add c a b = Ok (a + b)"
  by (simp add: usize_add_def)

lemma usize_sub_exact: "b \<le> a \<Longrightarrow> usize_sub c a b = Ok (a - b)"
  by (simp add: usize_sub_def not_less)

lemma unat_of_nat_64 [simp]: "n < 2 ^ 64 \<Longrightarrow> unat (word_of_nat n :: usize) = n"
  by (simp add: unsigned_of_nat take_bit_nat_eq_self)

lemma unat_less_64: "unat w < 2 ^ 64" for w :: usize
  using unsigned_less [of w] by simp

lemma unat_sub_nat: "n \<le> unat w \<Longrightarrow> unat (w - word_of_nat n) = unat w - n" for w :: usize
proof -
  assume "n \<le> unat w"
  then have "unat (word_of_nat n :: usize) = n"
    using unat_less_64 [of w] by (intro unat_of_nat_64) simp
  with \<open>n \<le> unat w\<close> show ?thesis
    by (subst unat_sub) (simp_all add: word_le_nat_alt)
qed

lemma unat_add_nat: "unat w + n < 2 ^ 64 \<Longrightarrow> unat (w + word_of_nat n) = unat w + n" for w :: usize
  by (subst unat_add_lem [THEN iffD1]) auto

text \<open>ASCII string literals of the source (\<open>"OK"\<close>, \<open>b"PONG"\<close>) as bytes.\<close>

definition ascii :: "string \<Rightarrow> bytes" where
  "ascii s = map (\<lambda>c. word_of_nat (of_char c)) s"

lemma ascii_Nil [simp]: "ascii [] = []"
  by (simp add: ascii_def)

lemma ascii_Cons [simp]: "ascii (c # s) = word_of_nat (of_char c) # ascii s"
  by (simp add: ascii_def)

abbreviation crlf :: bytes where
  "crlf \<equiv> [13, 10]"

text \<open>\<open>[T]::join(sep)\<close> on strings.\<close>

fun join :: "bytes \<Rightarrow> bytes list \<Rightarrow> bytes" where
  "join sep [] = []"
| "join sep [x] = x"
| "join sep (x # y # xs) = x @ sep @ join sep (y # xs)"

section \<open>Little-endian integers\<close>

text \<open>The \<open>w\<close> bytes of a number, least significant first, and the number of such bytes.\<close>

fun le_bytes :: "nat \<Rightarrow> nat \<Rightarrow> bytes" where
  "le_bytes 0 n = []"
| "le_bytes (Suc w) n = word_of_nat (n mod 256) # le_bytes w (n div 256)"

fun le_value :: "bytes \<Rightarrow> nat" where
  "le_value [] = 0"
| "le_value (b # bs) = unat b + 256 * le_value bs"

lemma length_le_bytes [simp]: "length (le_bytes w n) = w"
  by (induction w arbitrary: n) auto

lemma le_bytes_numeral:
  "le_bytes (numeral w) n = word_of_nat (n mod 256) # le_bytes (pred_numeral w) (n div 256)"
  by (simp only: numeral_eq_Suc [of w] le_bytes.simps)

lemma unat_byte_of_mod: "unat (word_of_nat (n mod 256) :: byte) = n mod 256"
  by (simp add: unsigned_of_nat take_bit_eq_mod)

lemma le_value_le_bytes [wire_simps]: "le_value (le_bytes w n) = n mod 256 ^ w"
proof (induction w arbitrary: n)
  case 0
  then show ?case by simp
next
  case (Suc w)
  then show ?case
    by (simp add: unat_byte_of_mod mod_mult2_eq [of n 256 "256 ^ w"])
qed

lemma le_bytes_le_value [wire_simps]: "le_bytes (length bs) (le_value bs) = bs"
proof (induction bs)
  case Nil
  then show ?case by simp
next
  case (Cons b bs)
  have "unat b < 256"
    using unsigned_less [of b] by simp
  then have "word_of_nat ((unat b + 256 * le_value bs) mod 256) = b"
    and "(unat b + 256 * le_value bs) div 256 = le_value bs"
    by simp_all
  with Cons show ?case by simp
qed

lemma le_value_less: "le_value bs < 256 ^ length bs"
proof -
  have "le_value (le_bytes (length bs) (le_value bs)) < 256 ^ length bs"
    by (simp only: le_value_le_bytes) simp
  then show ?thesis by (simp add: wire_simps)
qed

lemma le_bytes_inj: "le_bytes w m = le_bytes w n \<Longrightarrow> m < 256 ^ w \<Longrightarrow> n < 256 ^ w \<Longrightarrow> m = n"
  by (metis le_value_le_bytes mod_less)

section \<open>Exclusive or on words\<close>

lemma xor_right_cancel: "a XOR c = b XOR c \<longleftrightarrow> a = b" for a b c :: "'a::len word"
  by (metis xor.assoc xor.right_neutral xor_self_eq)

lemma xor_eq_0_iff: "a XOR b = 0 \<longleftrightarrow> a = b" for a b :: "'a::len word"
  using xor_right_cancel [of a b b] by simp

section \<open>Generic lemmas on options and lists\<close>

lemma option_eqI: "(\<And>v. a = Some v \<longleftrightarrow> b = Some v) \<Longrightarrow> a = b"
  by (cases a; cases b) auto

lemma take_length_append [simp]: "length xs = n \<Longrightarrow> take n (xs @ ys) = xs"
  by simp

lemma drop_length_append [simp]: "length xs = n \<Longrightarrow> drop n (xs @ ys) = ys"
  by simp

lemma distinct_map_fst_eqD:
  "distinct (map fst xs) \<Longrightarrow> (k, v) \<in> set xs \<Longrightarrow> (k, v') \<in> set xs \<Longrightarrow> v = v'"
  by (metis map_of_is_SomeI option.inject)

end
