(* ===== verification/Common.thy ===== *)
theory Common
  imports Prelude
begin

text \<open>
  The module \<open>common\<close>: the constants of \<open>constants.rs\<close>, the shard identifier of
  \<open>shard_id.rs\<close>, keys and values of \<open>types.rs\<close>, and the clock conversions of \<open>time.rs\<close>.
  An \<open>Instant\<close> of the monotonic clock and a \<open>SystemTime\<close> are counted in nanoseconds; the
  clock readings a function makes are its arguments.
\<close>

section \<open>Constants\<close>

definition SHARD_COUNT :: nat where "SHARD_COUNT = 64"
definition SNAPSHOT_INTERVAL_SECS :: nat where "SNAPSHOT_INTERVAL_SECS = 60"
definition TTL_CHECK_INTERVAL_MS :: nat where "TTL_CHECK_INTERVAL_MS = 100"
definition TTL_KEYS_PER_CHECK :: nat where "TTL_KEYS_PER_CHECK = 20"
definition MAX_KEY_SIZE :: nat where "MAX_KEY_SIZE = 512"
definition MAX_VALUE_SIZE :: nat where "MAX_VALUE_SIZE = 512 * 1024 * 1024"
definition MAX_KEYS_PER_SHARD :: nat where "MAX_KEYS_PER_SHARD = 100000000"
definition MAX_MEMORY_PER_SHARD :: nat where "MAX_MEMORY_PER_SHARD = 20 * 1024 * 1024 * 1024"
definition SNAPSHOT_CHANNEL_CAPACITY :: nat where "SNAPSHOT_CHANNEL_CAPACITY = 1"

section \<open>Shard identifiers\<close>

datatype shard_id = ShardId (shard_index: u16)

text \<open>\<open>ShardId::new\<close> asserts the range; the tuple constructor does not.\<close>

definition ShardId_new :: "u16 \<Rightarrow> (shard_id, unit) outcome" where
  "ShardId_new i = (if i < word_of_nat SHARD_COUNT then Ok (ShardId i) else Panic Assertion_Failed)"

definition as_usize :: "shard_id \<Rightarrow> nat" where
  "as_usize sid = unat (shard_index sid)"

lemma as_usize_inj: "as_usize a = as_usize b \<longleftrightarrow> a = b"
  by (cases a; cases b) (simp add: as_usize_def word_unat_eq_iff)

lemma ShardId_new_Ok_iff: "ShardId_new i = Ok s \<longleftrightarrow> s = ShardId i \<and> as_usize (ShardId i) < SHARD_COUNT"
  by (auto simp: ShardId_new_def as_usize_def SHARD_COUNT_def word_less_nat_alt)

section \<open>Keys and values\<close>

type_synonym key = bytes

datatype val = String (as_bytes: bytes)

definition value_size_bytes :: "val \<Rightarrow> nat" where
  "value_size_bytes v = (case v of String bs \<Rightarrow> length bs)"

lemma value_size_bytes_String [simp]: "value_size_bytes (String bs) = length bs"
  by (simp add: value_size_bytes_def)

section \<open>Instants, durations and timestamps\<close>

type_synonym instant = nat       \<comment> \<open>nanoseconds of the monotonic clock\<close>
type_synonym duration = nat      \<comment> \<open>nanoseconds\<close>
type_synonym system_time = nat   \<comment> \<open>nanoseconds after \<open>UNIX_EPOCH\<close>\<close>

definition nanos :: nat where "nanos = 1000000000"

definition from_secs :: "nat \<Rightarrow> duration" where
  "from_secs s = s * nanos"

definition as_secs :: "duration \<Rightarrow> nat" where
  "as_secs d = d div nanos"

text \<open>
  \<open>Instant + Duration\<close> panics when the sum is not representable: the seconds of a
  \<open>Timespec\<close> are an \<open>i64\<close>.
\<close>

definition instant_limit :: nat where
  "instant_limit = 2 ^ 63 * nanos"

definition instant_add :: "instant \<Rightarrow> duration \<Rightarrow> (instant, 'e) outcome" where
  "instant_add t d = (if t + d < instant_limit then Ok (t + d) else Panic Instant_Overflow)"

text \<open>\<open>later.duration_since(earlier)\<close> and \<open>saturating_duration_since\<close> are zero when it is not later.\<close>

definition duration_since :: "instant \<Rightarrow> instant \<Rightarrow> duration" where
  "duration_since later earlier = (if earlier \<le> later then later - earlier else 0)"

lemma nanos_pos [simp]: "0 < nanos"
  by (simp add: nanos_def)

lemma as_secs_from_secs [simp]: "as_secs (from_secs s) = s"
  by (simp add: as_secs_def from_secs_def)

lemma instant_add_Ok_iff: "instant_add t d = Ok t' \<longleftrightarrow> t + d < instant_limit \<and> t' = t + d"
  by (auto simp: instant_add_def)

lemma instant_add_not_Err [simp]: "instant_add t d \<noteq> Err e"
  by (simp add: instant_add_def)

lemma instant_add_Panic_iff:
  "instant_add t d = Panic p \<longleftrightarrow> instant_limit \<le> t + d \<and> p = Instant_Overflow"
  by (auto simp: instant_add_def)

text \<open>
  \<open>instant_to_unix_timestamp\<close> reads both clocks (\<open>now_i\<close>, \<open>now_s\<close>) and shifts the system
  time by the distance of the instant from now. \<open>SystemTime + Duration\<close> has the limit of
  \<open>Instant\<close>; \<open>as_secs\<close> rounds down.
\<close>

definition instant_to_unix_timestamp :: "instant \<Rightarrow> system_time \<Rightarrow> instant \<Rightarrow> (nat, 'e) outcome" where
  "instant_to_unix_timestamp now_i now_s i =
     and_then (instant_add now_s (duration_since i now_i)) (\<lambda>system_time. Ok (as_secs system_time))"

definition unix_timestamp_to_instant :: "instant \<Rightarrow> system_time \<Rightarrow> nat \<Rightarrow> (instant, 'e) outcome" where
  "unix_timestamp_to_instant now_i now_s ts =
     (let now_unix = as_secs now_s in
      if now_unix < ts then instant_add now_i (from_secs (ts - now_unix)) else Ok now_i)"

end
