(* ===== verification/Interfaces.thy ===== *)
theory Interfaces
  imports Prelude "HOL-Library.Multiset"
begin

text \<open>
  The contracts between the components, as locales. \<open>keyed_store\<close> is what the shard and the
  router use of \<open>HashMap\<close>; \<open>due_queue\<close> is what the shard uses of \<open>BinaryHeap<Expiry>\<close>;
  \<open>prefix_codec\<close> is what a reader of a byte stream needs of the writer. The client lemmas
  are proved here once, from the contract alone, so they do not depend on the iteration
  order of the map or on how the heap breaks ties.
\<close>

section \<open>Key-value containers\<close>

text \<open>\<open>entries\<close> is the bag of stored pairs; a key occurs in it at most once.\<close>

locale keyed_store =
  fixes get :: "'m \<Rightarrow> 'k \<Rightarrow> 'v option"
    and put :: "'k \<Rightarrow> 'v \<Rightarrow> 'm \<Rightarrow> 'm"
    and del :: "'k \<Rightarrow> 'm \<Rightarrow> 'm"
    and len :: "'m \<Rightarrow> nat"
    and entries :: "'m \<Rightarrow> ('k \<times> 'v) multiset"
    and wf :: "'m \<Rightarrow> bool"
  assumes get_entries: "wf m \<Longrightarrow> get m k = Some v \<longleftrightarrow> (k, v) \<in># entries m"
    and entries_split: "wf m \<Longrightarrow> entries m =
          entries (del k m) + (case get m k of None \<Rightarrow> {#} | Some v \<Rightarrow> {#(k, v)#})"
    and entries_del: "wf m \<Longrightarrow> entries (del k m) = filter_mset (\<lambda>e. fst e \<noteq> k) (entries m)"
    and entries_put: "wf m \<Longrightarrow> entries (put k v m) = add_mset (k, v) (entries (del k m))"
    and len_entries: "wf m \<Longrightarrow> len m = size (entries m)"
    and wf_put: "wf m \<Longrightarrow> wf (put k v m)"
    and wf_del: "wf m \<Longrightarrow> wf (del k m)"
begin

lemma get_put: "wf m \<Longrightarrow> get (put k v m) j = (if j = k then Some v else get m j)"
  by (rule option_eqI) (simp add: get_entries wf_put entries_put entries_del, auto)

lemma get_del: "wf m \<Longrightarrow> get (del k m) j = (if j = k then None else get m j)"
  by (rule option_eqI) (simp add: get_entries wf_del entries_del)

lemma finite_dom: "wf m \<Longrightarrow> finite (dom (get m))"
  by (rule finite_subset [of _ "fst ` set_mset (entries m)"])
     (auto simp: get_entries intro: image_eqI [where x = "(k, v)" for k v])

lemma len_del: "wf m \<Longrightarrow> len (del k m) = len m - (if get m k = None then 0 else 1)"
  using arg_cong [OF entries_split [of m k], of size]
  by (auto simp: len_entries wf_del split: option.splits)

lemma len_pos: "wf m \<Longrightarrow> get m k = Some v \<Longrightarrow> 0 < len m"
  by (auto simp: len_entries get_entries simp flip: nonempty_has_size)

lemma len_put: "wf m \<Longrightarrow> len (put k v m) = (if get m k = None then Suc (len m) else len m)"
  using len_del [of m k] len_pos [of m k] by (auto simp: len_entries wf_put wf_del entries_put)

text \<open>Accounting: any weight of the entries, summed over the container.\<close>

definition total :: "('k \<Rightarrow> 'v \<Rightarrow> nat) \<Rightarrow> 'm \<Rightarrow> nat" where
  "total w m = (\<Sum>e\<in>#entries m. w (fst e) (snd e))"

definition weight_at :: "('k \<Rightarrow> 'v \<Rightarrow> nat) \<Rightarrow> 'm \<Rightarrow> 'k \<Rightarrow> nat" where
  "weight_at w m k = (case get m k of None \<Rightarrow> 0 | Some v \<Rightarrow> w k v)"

lemma total_del: "wf m \<Longrightarrow> total w (del k m) + weight_at w m k = total w m"
  using arg_cong [OF entries_split [of m k], of "\<lambda>M. \<Sum>e\<in>#M. w (fst e) (snd e)"]
  by (auto simp: total_def weight_at_def split: option.splits)

lemma total_put: "wf m \<Longrightarrow> total w (put k v m) + weight_at w m k = total w m + w k v"
  using total_del [of m w k] by (simp add: total_def entries_put)

text \<open>Fewer entries weigh less, by at least the least weight for each one missing.\<close>

lemma total_subset:
  assumes "wf m" and "wf m'" and "entries m \<subseteq># entries m'" and least: "\<And>k v. c \<le> w k v"
  shows "total w m + c * (len m' - len m) \<le> total w m'"
proof -
  obtain R where R: "entries m' = entries m + R"
    using assms(3) by (metis subset_mset.add_diff_inverse)
  have "c * size R \<le> (\<Sum>e\<in>#R. w (fst e) (snd e))"
    by (induction R) (auto intro: add_mono least)
  moreover have "len m' - len m = size R"
    using assms(1,2) R by (simp add: len_entries)
  ultimately show ?thesis
    by (simp add: total_def R)
qed

lemma del_subset: "wf m \<Longrightarrow> entries (del k m) \<subseteq># entries m"
  by (simp add: entries_del)

lemma weight_le_total: "wf m \<Longrightarrow> weight_at w m k \<le> total w m"
  using total_del [of m w k] by simp

end

section \<open>Queues ordered by due time\<close>

text \<open>\<open>peek\<close> and \<open>pop\<close> give an element with the least due time; which one is not said.\<close>

locale due_queue =
  fixes push :: "'a \<Rightarrow> 'q \<Rightarrow> 'q"
    and peek :: "'q \<Rightarrow> 'a option"
    and pop :: "'q \<Rightarrow> ('a \<times> 'q) option"
    and content :: "'q \<Rightarrow> 'a multiset"
    and due :: "'a \<Rightarrow> nat"
  assumes content_push: "content (push x q) = add_mset x (content q)"
    and peek_None: "peek q = None \<longleftrightarrow> content q = {#}"
    and peek_least: "peek q = Some x \<Longrightarrow> y \<in># content q \<Longrightarrow> due x \<le> due y"
    and pop_None: "pop q = None \<longleftrightarrow> peek q = None"
    and pop_peek: "pop q = Some (x, q') \<Longrightarrow> peek q = Some x"
    and content_pop: "pop q = Some (x, q') \<Longrightarrow> content q = add_mset x (content q')"
begin

lemma peek_pop: "peek q = Some x \<Longrightarrow> \<exists>q'. pop q = Some (x, q')"
  using pop_None [of q] by (cases "pop q") (auto dest: pop_peek)

lemma pop_smaller: "pop q = Some (x, q') \<Longrightarrow> size (content q') < size (content q)"
  by (simp add: content_pop)

text \<open>When the head is not due, nothing is; an empty queue has nothing due.\<close>

lemma none_due:
  "(\<And>x. peek q = Some x \<Longrightarrow> now < due x) \<Longrightarrow> y \<in># content q \<Longrightarrow> now < due y"
  using peek_None [of q] peek_least [of q] by (cases "peek q") (auto intro: less_le_trans)

text \<open>An element other than the one popped is still queued.\<close>

lemma pop_keeps: "pop q = Some (x, q') \<Longrightarrow> y \<in># content q \<Longrightarrow> y \<noteq> x \<Longrightarrow> y \<in># content q'"
  by (simp add: content_pop)

lemma pop_subset: "pop q = Some (x, q') \<Longrightarrow> y \<in># content q' \<Longrightarrow> y \<in># content q"
  by (simp add: content_pop)

end

section \<open>Prefix codecs\<close>

text \<open>
  \<open>enc\<close> writes a value, \<open>dec\<close> reads one value off the front of a stream and returns the
  rest. On good values reading undoes writing, whatever follows.
\<close>

locale prefix_codec =
  fixes enc :: "'a \<Rightarrow> bytes"
    and dec :: "bytes \<Rightarrow> ('a \<times> bytes, 'e) outcome"
    and good :: "'a \<Rightarrow> bool"
  assumes dec_enc: "good x \<Longrightarrow> dec (enc x @ rest) = Ok (x, rest)"
begin

lemma enc_prefix_free:
  "good x \<Longrightarrow> good y \<Longrightarrow> enc x @ xs = enc y @ ys \<Longrightarrow> x = y \<and> xs = ys"
  by (metis dec_enc outcome.inject(1) prod.inject)

lemma enc_inj: "good x \<Longrightarrow> good y \<Longrightarrow> enc x = enc y \<Longrightarrow> x = y"
  by (metis enc_prefix_free)

lemma enc_stream_inj:
  "list_all good xs \<Longrightarrow> list_all good ys \<Longrightarrow> length xs = length ys \<Longrightarrow>
   concat (map enc xs) @ us = concat (map enc ys) @ vs \<Longrightarrow> xs = ys \<and> us = vs"
proof (induction xs arbitrary: ys)
  case Nil
  then show ?case by simp
next
  case (Cons x xs)
  then obtain y ys' where ys: "ys = y # ys'"
    by (cases ys) auto
  with Cons.prems have "enc x @ (concat (map enc xs) @ us) = enc y @ (concat (map enc ys') @ vs)"
    and "good x" and "good y"
    by auto
  then have "x = y" and "concat (map enc xs) @ us = concat (map enc ys') @ vs"
    using enc_prefix_free by blast+
  with Cons ys show ?case by auto
qed

end

text \<open>When every encoding has at least one byte, a stream also tells how many values it holds.\<close>

locale framed_codec = prefix_codec enc dec good
  for enc :: "'a \<Rightarrow> bytes"
    and dec :: "bytes \<Rightarrow> ('a \<times> bytes, 'e) outcome"
    and good :: "'a \<Rightarrow> bool" +
  assumes enc_nonempty: "enc x \<noteq> []"
begin

lemma enc_streams_inj:
  "list_all good xs \<Longrightarrow> list_all good ys \<Longrightarrow> concat (map enc xs) = concat (map enc ys) \<Longrightarrow> xs = ys"
proof (induction xs arbitrary: ys)
  case Nil
  then show ?case
    by (cases ys) (auto simp: enc_nonempty)
next
  case (Cons x xs)
  obtain y ys' where ys: "ys = y # ys'"
    using Cons.prems(3) enc_nonempty [of x] by (cases ys) auto
  have "x = y \<and> concat (map enc xs) = concat (map enc ys')"
    by (rule enc_prefix_free) (use Cons.prems ys in simp_all)
  with Cons ys show ?case by simp
qed

end

end
