(* ===== verification/Rust_Collections.thy ===== *)
theory Rust_Collections
  imports Interfaces "HOL-Library.AList"
begin

text \<open>
  The two containers of the standard library the source uses. A \<open>HashMap\<close> is an association
  list with distinct keys (its order is of no account: the order in which the code iterates
  over a map is an argument of the functions that do so). A \<open>BinaryHeap\<close> is the list of its
  elements; \<open>peek\<close> and \<open>pop\<close> select a greatest element.
\<close>

section \<open>HashMap\<close>

type_synonym ('k, 'v) hashmap = "('k \<times> 'v) list"

definition hm_get :: "('k, 'v) hashmap \<Rightarrow> 'k \<Rightarrow> 'v option" where
  "hm_get m k = map_of m k"

definition hm_insert :: "'k \<Rightarrow> 'v \<Rightarrow> ('k, 'v) hashmap \<Rightarrow> ('k, 'v) hashmap" where
  "hm_insert k v m = AList.update k v m"

definition hm_remove :: "'k \<Rightarrow> ('k, 'v) hashmap \<Rightarrow> ('k, 'v) hashmap" where
  "hm_remove k m = filter (\<lambda>e. fst e \<noteq> k) m"

definition hm_len :: "('k, 'v) hashmap \<Rightarrow> nat" where
  "hm_len m = length m"

definition hm_entries :: "('k, 'v) hashmap \<Rightarrow> ('k \<times> 'v) multiset" where
  "hm_entries m = mset m"

definition hm_wf :: "('k, 'v) hashmap \<Rightarrow> bool" where
  "hm_wf m \<longleftrightarrow> distinct (map fst m)"

definition hm_contains_key :: "('k, 'v) hashmap \<Rightarrow> 'k \<Rightarrow> bool" where
  "hm_contains_key m k = (hm_get m k \<noteq> None)"

lemma hm_wf_Nil [simp]: "hm_wf []"
  by (simp add: hm_wf_def)

lemma hm_get_Nil [simp]: "hm_get [] k = None"
  by (simp add: hm_get_def)

lemma hm_remove_absent: "map_of m k = None \<Longrightarrow> hm_remove k m = m"
  by (induction m) (auto simp: hm_remove_def split: if_splits)

lemma mset_hm_remove:
  "distinct (map fst m) \<Longrightarrow>
   mset m = mset (hm_remove k m) + (case map_of m k of None \<Rightarrow> {#} | Some v \<Rightarrow> {#(k, v)#})"
proof (induction m)
  case Nil
  then show ?case by (simp add: hm_remove_def)
next
  case (Cons e m)
  show ?case
  proof (cases "fst e = k")
    case True
    with Cons.prems have "map_of m k = None"
      by (force simp: map_of_eq_None_iff)
    with True have "hm_remove k (e # m) = m"
      using hm_remove_absent [of m k] by (simp add: hm_remove_def)
    with True show ?thesis by (cases e) simp
  next
    case False
    with Cons show ?thesis by (cases e) (auto simp: hm_remove_def)
  qed
qed

lemma mset_update:
  "distinct (map fst m) \<Longrightarrow> mset (AList.update k v m) = add_mset (k, v) (mset (hm_remove k m))"
proof (induction m)
  case Nil
  then show ?case by (simp add: hm_remove_def)
next
  case (Cons e m)
  show ?case
  proof (cases "fst e = k")
    case True
    with Cons.prems have "map_of m k = None"
      by (force simp: map_of_eq_None_iff)
    with True hm_remove_absent [of m k] show ?thesis
      by (cases e) (simp add: hm_remove_def)
  next
    case False
    with Cons show ?thesis by (cases e) (auto simp: hm_remove_def)
  qed
qed

interpretation hm: keyed_store hm_get hm_insert hm_remove hm_len hm_entries hm_wf
proof (unfold_locales, goal_cases)
  case (1 m k v)
  then show ?case by (simp add: hm_get_def hm_entries_def hm_wf_def)
next
  case (2 m k)
  then show ?case by (simp add: hm_get_def hm_entries_def hm_wf_def mset_hm_remove)
next
  case (3 m k)
  then show ?case by (simp add: hm_entries_def hm_remove_def)
next
  case (4 m k v)
  then show ?case by (simp add: hm_entries_def hm_insert_def hm_wf_def mset_update)
next
  case (5 m)
  then show ?case by (simp add: hm_entries_def hm_len_def)
next
  case (6 m k v)
  then show ?case by (simp add: hm_insert_def hm_wf_def distinct_update)
next
  case (7 m k)
  then show ?case by (simp add: hm_remove_def hm_wf_def distinct_map_filter)
qed

lemmas hm_simps [simp] =
  hm.get_put hm.get_del hm.wf_put hm.wf_del hm.len_put hm.len_del

section \<open>BinaryHeap\<close>

type_synonym 'a heap = "'a list"

definition heap_push :: "'a \<Rightarrow> 'a heap \<Rightarrow> 'a heap" where
  "heap_push x h = h @ [x]"

fun heap_peek :: "'a::preorder heap \<Rightarrow> 'a option" where
  "heap_peek [] = None"
| "heap_peek (x # h) =
     (case heap_peek h of None \<Rightarrow> Some x | Some y \<Rightarrow> if y \<le> x then Some x else Some y)"

definition heap_pop :: "'a::preorder heap \<Rightarrow> ('a \<times> 'a heap) option" where
  "heap_pop h = (case heap_peek h of None \<Rightarrow> None | Some x \<Rightarrow> Some (x, remove1 x h))"

lemma heap_peek_None [simp]: "heap_peek h = None \<longleftrightarrow> h = []"
  by (cases h) (auto split: option.splits)

lemma heap_peek_in: "heap_peek h = Some x \<Longrightarrow> x \<in> set h"
  by (induction h arbitrary: x) (auto split: option.splits if_splits)

lemma heap_peek_greatest:
  "heap_peek h = Some x \<Longrightarrow> (\<And>y z :: 'a. y \<le> z \<or> z \<le> y) \<Longrightarrow> y \<in> set h \<Longrightarrow> y \<le> x"
  for h :: "'a::preorder heap"
proof (induction h arbitrary: x)
  case Nil
  then show ?case by simp
next
  case (Cons a h)
  show ?case
  proof (cases "heap_peek h")
    case None
    with Cons.prems show ?thesis by simp
  next
    case (Some b)
    have "y \<in> set h \<Longrightarrow> y \<le> b"
      by (rule Cons.IH [OF Some]) (use Cons.prems in auto)
    moreover have "a \<le> b \<or> b \<le> a"
      using Cons.prems(2) by blast
    ultimately show ?thesis
      using Some Cons.prems(1,3) by (auto split: if_splits intro: order_trans)
  qed
qed

lemma heap_pop_Some:
  "heap_pop h = Some (x, h') \<longleftrightarrow> heap_peek h = Some x \<and> h' = remove1 x h"
  by (auto simp: heap_pop_def split: option.splits)

end
