(* ===== verification/Entry.thy ===== *)
theory Entry
  imports Common Rust_Collections
begin

text \<open>
  \<open>shard/entry.rs\<close> and \<open>shard/expiry.rs\<close>: the stored entries, the items of the TTL queue and
  their reversed order, and the queue as an instance of the interface \<open>due_queue\<close>.
\<close>

section \<open>Entries\<close>

record metadata =
  created_at :: instant
  last_accessed :: instant
  access_count :: nat

record entry =
  entry_value :: val
  entry_expiry :: "instant option"
  entry_metadata :: metadata

text \<open>\<open>Entry::new\<close> reads the clock (\<open>now\<close>).\<close>

definition Entry_new :: "instant \<Rightarrow> val \<Rightarrow> instant option \<Rightarrow> entry" where
  "Entry_new now v exp =
     \<lparr>entry_value = v, entry_expiry = exp,
      entry_metadata = \<lparr>created_at = now, last_accessed = now, access_count = 0\<rparr>\<rparr>"

definition is_expired :: "instant \<Rightarrow> entry \<Rightarrow> bool" where
  "is_expired now e = (case entry_expiry e of None \<Rightarrow> False | Some exp \<Rightarrow> exp \<le> now)"

text \<open>\<open>size_of::<Entry>()\<close> is chosen by the compiler: the argument \<open>esz\<close>.\<close>

definition Entry_size_bytes :: "nat \<Rightarrow> entry \<Rightarrow> nat" where
  "Entry_size_bytes esz e = esz + value_size_bytes (entry_value e)"

lemma Entry_new_simps [simp]:
  "entry_value (Entry_new now v exp) = v"
  "entry_expiry (Entry_new now v exp) = exp"
  by (simp_all add: Entry_new_def)

lemma is_expired_iff: "is_expired now e \<longleftrightarrow> (\<exists>x. entry_expiry e = Some x \<and> x \<le> now)"
  by (simp add: is_expired_def split: option.split)

section \<open>The TTL queue\<close>

datatype expiry = Expiry (expiry_time: instant) (expiry_key: key)

text \<open>
  \<open>Ord for Expiry\<close> compares the times the other way round, so the greatest element of the
  heap is the earliest deadline. Items with equal times are equivalent, not equal.
\<close>

definition expiry_le :: "expiry \<Rightarrow> expiry \<Rightarrow> bool" where
  "expiry_le a b \<longleftrightarrow> expiry_time b \<le> expiry_time a"

text \<open>\<open>PartialEq for Expiry\<close>: the keys are not compared.\<close>

definition expiry_eq :: "expiry \<Rightarrow> expiry \<Rightarrow> bool" where
  "expiry_eq a b \<longleftrightarrow> expiry_time a = expiry_time b"

lemma expiry_eq_le: "expiry_eq a b \<longleftrightarrow> expiry_le a b \<and> expiry_le b a"
  by (auto simp: expiry_eq_def expiry_le_def)

instantiation expiry :: preorder
begin

definition less_eq_expiry :: "expiry \<Rightarrow> expiry \<Rightarrow> bool" where
  "less_eq_expiry a b \<longleftrightarrow> expiry_le a b"

definition less_expiry :: "expiry \<Rightarrow> expiry \<Rightarrow> bool" where
  "less_expiry a b \<longleftrightarrow> expiry_le a b \<and> \<not> expiry_le b a"

instance
  by standard (auto simp: less_eq_expiry_def less_expiry_def expiry_le_def)

end

lemma expiry_total: "a \<le> b \<or> b \<le> a" for a b :: expiry
  by (auto simp: less_eq_expiry_def expiry_le_def)

interpretation ttl: due_queue heap_push heap_peek heap_pop mset expiry_time
proof (unfold_locales, goal_cases)
  case (1 x q)
  then show ?case by (simp add: heap_push_def)
next
  case (2 q)
  then show ?case by simp
next
  case (3 q x y)
  then have "y \<le> x"
    by (intro heap_peek_greatest expiry_total) auto
  then show ?case by (simp add: less_eq_expiry_def expiry_le_def)
next
  case (4 q)
  then show ?case by (cases "heap_peek q") (simp_all add: heap_pop_def)
next
  case (5 q x q')
  then show ?case by (simp add: heap_pop_Some)
next
  case (6 q x q')
  then show ?case by (auto simp: heap_pop_Some dest: heap_peek_in)
qed

end
