(* ===== verification/Rust_Strings.thy ===== *)
theory Rust_Strings
  imports Prelude
begin

text \<open>
  The string routines of Rust's standard library that the source calls, on strings kept as
  their UTF-8 bytes: \<open>str::from_utf8\<close>, \<open>String::from_utf8_lossy\<close>, \<open>str::to_uppercase\<close>,
  \<open>str::parse::<i64>\<close>, \<open>to_string\<close> of integers and the \<open>Debug\<close> form of a string. The
  Unicode tables that \<open>to_uppercase\<close> and \<open>Debug\<close> consult for characters outside ASCII
  are data of the standard library and are the parameter \<open>unicode\<close> of the model.
\<close>

section \<open>UTF-8\<close>

text \<open>
  One step of the decoder (\<open>core::str::lossy::Utf8Chunks\<close>): whether the bytes start with a
  well-formed character, and the length of that character or of the maximal ill-formed
  part. \<open>byte_at\<close> reads 0 beyond the end, as \<open>safe_get\<close> does.
\<close>

definition byte_at :: "bytes \<Rightarrow> nat \<Rightarrow> nat" where
  "byte_at bs i = (if i < length bs then unat (bs ! i) else 0)"

definition is_cont :: "nat \<Rightarrow> bool" where
  "is_cont b \<longleftrightarrow> 128 \<le> b \<and> b < 192"

definition second_of_three :: "nat \<Rightarrow> nat \<Rightarrow> bool" where
  "second_of_three b c \<longleftrightarrow>
     b = 224 \<and> 160 \<le> c \<and> c < 192 \<or>
     225 \<le> b \<and> b < 237 \<and> is_cont c \<or>
     b = 237 \<and> 128 \<le> c \<and> c < 160 \<or>
     238 \<le> b \<and> b < 240 \<and> is_cont c"

definition second_of_four :: "nat \<Rightarrow> nat \<Rightarrow> bool" where
  "second_of_four b c \<longleftrightarrow>
     b = 240 \<and> 144 \<le> c \<and> c < 192 \<or>
     241 \<le> b \<and> b < 244 \<and> is_cont c \<or>
     b = 244 \<and> 128 \<le> c \<and> c < 144"

definition utf8_step :: "bytes \<Rightarrow> bool \<times> nat" where
  "utf8_step bs =
     (let b = byte_at bs 0 in
      if b < 128 then (True, 1)
      else if 194 \<le> b \<and> b < 224 then
        (if is_cont (byte_at bs 1) then (True, 2) else (False, 1))
      else if 224 \<le> b \<and> b < 240 then
        (if \<not> second_of_three b (byte_at bs 1) then (False, 1)
         else if \<not> is_cont (byte_at bs 2) then (False, 2) else (True, 3))
      else if 240 \<le> b \<and> b < 245 then
        (if \<not> second_of_four b (byte_at bs 1) then (False, 1)
         else if \<not> is_cont (byte_at bs 2) then (False, 2)
         else if \<not> is_cont (byte_at bs 3) then (False, 3) else (True, 4))
      else (False, 1))"

lemma utf8_step_pos: "0 < snd (utf8_step bs)"
  by (simp add: utf8_step_def Let_def)

lemma utf8_step_drop: "bs \<noteq> [] \<Longrightarrow> length (drop (snd (utf8_step bs)) bs) < length bs"
  using utf8_step_pos [of bs] by (cases bs) auto

lemma utf8_step_eq_pos: "(ok, n) = utf8_step bs \<Longrightarrow> 0 < n"
  by (metis snd_conv utf8_step_pos)

definition replacement :: bytes where
  "replacement = [239, 191, 189]"

text \<open>\<open>String::from_utf8_lossy\<close>: every ill-formed part becomes U+FFFD.\<close>

function from_utf8_lossy :: "bytes \<Rightarrow> bytes" where
  "from_utf8_lossy bs =
     (if bs = [] then []
      else let (ok, n) = utf8_step bs
           in (if ok then take n bs else replacement) @ from_utf8_lossy (drop n bs))"
  by pat_completeness auto
termination
  by (relation "measure length") (auto dest: utf8_step_eq_pos)

declare from_utf8_lossy.simps [simp del]

text \<open>\<open>std::str::from_utf8(bs).is_ok()\<close>.\<close>

function utf8_valid :: "bytes \<Rightarrow> bool" where
  "utf8_valid bs =
     (if bs = [] then True
      else fst (utf8_step bs) \<and> utf8_valid (drop (snd (utf8_step bs)) bs))"
  by pat_completeness auto
termination
  by (relation "measure length") (use utf8_step_drop in auto)

declare utf8_valid.simps [simp del]

lemma from_utf8_lossy_Nil [simp]: "from_utf8_lossy [] = []"
  by (simp add: from_utf8_lossy.simps)

lemma utf8_valid_Nil [simp]: "utf8_valid []"
  by (subst utf8_valid.simps) simp

lemma from_utf8_lossy_valid: "utf8_valid bs \<Longrightarrow> from_utf8_lossy bs = bs"
proof (induction bs rule: from_utf8_lossy.induct)
  case (1 bs)
  show ?case
  proof (cases "bs = []")
    case False
    obtain n where n: "utf8_step bs = (True, n)" and "utf8_valid (drop n bs)"
      using 1(2) False by (cases "utf8_step bs") (auto simp: utf8_valid.simps [of bs])
    with 1(1) False have "from_utf8_lossy (drop n bs) = drop n bs"
      by simp
    with n False show ?thesis
      by (simp add: from_utf8_lossy.simps [of bs])
  qed simp
qed

lemma utf8_step_ascii: "unat b < 128 \<Longrightarrow> utf8_step (b # bs) = (True, 1)"
  by (simp add: utf8_step_def byte_at_def)

lemma utf8_valid_Cons_ascii [simp]: "unat b < 128 \<Longrightarrow> utf8_valid (b # bs) = utf8_valid bs"
  by (simp add: utf8_valid.simps [of "b # bs"] utf8_step_ascii)

lemma utf8_valid_ascii: "\<forall>b\<in>set bs. unat b < 128 \<Longrightarrow> utf8_valid bs"
  by (induction bs) auto

text \<open>A well-formed character decodes the same whatever follows it.\<close>

lemma is_cont_byte_at: "is_cont (byte_at bs i) \<Longrightarrow> i < length bs"
  by (simp add: is_cont_def byte_at_def split: if_splits)

lemma byte_at_take: "i < n \<Longrightarrow> n \<le> length bs \<Longrightarrow> byte_at (take n bs @ ys) i = byte_at bs i"
  by (simp add: byte_at_def nth_append)

lemma second_of_three_pos: "second_of_three b c \<Longrightarrow> 0 < c"
  by (auto simp: second_of_three_def is_cont_def)

lemma second_of_four_pos: "second_of_four b c \<Longrightarrow> 0 < c"
  by (auto simp: second_of_four_def is_cont_def)

lemma byte_at_pos: "0 < byte_at bs i \<Longrightarrow> i < length bs"
  by (simp add: byte_at_def split: if_splits)

lemma utf8_step_length: "bs \<noteq> [] \<Longrightarrow> utf8_step bs = (ok, n) \<Longrightarrow> n \<le> length bs"
  by (auto simp: utf8_step_def Let_def Suc_le_eq
      dest!: is_cont_byte_at second_of_three_pos second_of_four_pos byte_at_pos
      split: if_splits)

text \<open>The bytes of a well-formed character decode as that character whatever follows.\<close>

lemma utf8_step_True_iff:
  "utf8_step bs = (True, n) \<longleftrightarrow>
     (let b = byte_at bs 0 in
      n = 1 \<and> b < 128 \<or>
      n = 2 \<and> 194 \<le> b \<and> b < 224 \<and> is_cont (byte_at bs 1) \<or>
      n = 3 \<and> 224 \<le> b \<and> b < 240 \<and> second_of_three b (byte_at bs 1) \<and> is_cont (byte_at bs 2) \<or>
      n = 4 \<and> 240 \<le> b \<and> b < 245 \<and> second_of_four b (byte_at bs 1) \<and>
        is_cont (byte_at bs 2) \<and> is_cont (byte_at bs 3))"
  by (auto simp: utf8_step_def Let_def)

lemma utf8_step_prefix:
  assumes "bs \<noteq> []" and "utf8_step bs = (True, n)"
  shows "utf8_step (take n bs @ ys) = (True, n)"
proof -
  have "n \<le> length bs"
    using assms utf8_step_length by auto
  with assms(2) show ?thesis
    unfolding utf8_step_True_iff Let_def
    by (elim disjE conjE) (simp_all add: byte_at_take)
qed

lemma utf8_step_replacement: "utf8_step (replacement @ ys) = (True, 3)"
  by (simp add: replacement_def utf8_step_def byte_at_def second_of_three_def is_cont_def)

lemma utf8_valid_char:
  "cs \<noteq> [] \<Longrightarrow> utf8_step (cs @ ys) = (True, length cs) \<Longrightarrow> utf8_valid (cs @ ys) = utf8_valid ys"
  by (subst utf8_valid.simps) simp

lemma utf8_valid_from_utf8_lossy [simp]: "utf8_valid (from_utf8_lossy bs)"
proof (induction bs rule: from_utf8_lossy.induct)
  case (1 bs)
  show ?case
  proof (cases "bs = []")
    case False
    obtain ok n where n: "utf8_step bs = (ok, n)"
      by (cases "utf8_step bs")
    let ?rest = "from_utf8_lossy (drop n bs)"
    from n False have rest: "utf8_valid ?rest"
      by (intro 1) auto
    have "n \<le> length bs" and "0 < n"
      using n False utf8_step_length utf8_step_pos [of bs] by auto
    then have "ok \<Longrightarrow> utf8_valid (take n bs @ ?rest)"
      using n rest False utf8_step_prefix [of bs n ?rest] by (subst utf8_valid_char) auto
    moreover have "utf8_valid (replacement @ ?rest)"
      using rest by (subst utf8_valid_char) (auto simp: utf8_step_replacement, auto simp: replacement_def)
    ultimately show ?thesis
      using n False by (simp add: from_utf8_lossy.simps [of bs])
  qed simp
qed

lemma from_utf8_lossy_idem [simp]: "from_utf8_lossy (from_utf8_lossy bs) = from_utf8_lossy bs"
  by (rule from_utf8_lossy_valid) simp

section \<open>Characters, upper case, Debug\<close>

function utf8_chars :: "bytes \<Rightarrow> bytes list" where
  "utf8_chars bs =
     (if bs = [] then []
      else take (snd (utf8_step bs)) bs # utf8_chars (drop (snd (utf8_step bs)) bs))"
  by pat_completeness auto
termination
  by (relation "measure length") (use utf8_step_drop in auto)

declare utf8_chars.simps [simp del]

lemma utf8_chars_Nil [simp]: "utf8_chars [] = []"
  by (subst utf8_chars.simps) simp

lemma utf8_chars_Cons_ascii [simp]: "unat b < 128 \<Longrightarrow> utf8_chars (b # bs) = [b] # utf8_chars bs"
  by (simp add: utf8_chars.simps [of "b # bs"] utf8_step_ascii)

lemma utf8_chars_ascii: "\<forall>b\<in>set bs. unat b < 128 \<Longrightarrow> utf8_chars bs = map (\<lambda>b. [b]) bs"
  by (induction bs) auto

record unicode =
  uc_upper :: "bytes \<Rightarrow> bytes"  \<comment> \<open>\<open>char::to_uppercase\<close> of a character outside ASCII\<close>
  uc_debug :: "bytes \<Rightarrow> bytes"  \<comment> \<open>\<open>char::escape_debug\<close> of a character outside ASCII\<close>

text \<open>The tables of a library without any Unicode data, for closed instances.\<close>

definition identity_unicode :: unicode where
  "identity_unicode = \<lparr>uc_upper = id, uc_debug = id\<rparr>"

definition upper_byte :: "byte \<Rightarrow> byte" where
  "upper_byte b = (if 97 \<le> b \<and> b \<le> 122 then b - 32 else b)"

definition upper_char :: "unicode \<Rightarrow> bytes \<Rightarrow> bytes" where
  "upper_char u c = (case c of [b] \<Rightarrow> [upper_byte b] | _ \<Rightarrow> uc_upper u c)"

definition to_uppercase :: "unicode \<Rightarrow> bytes \<Rightarrow> bytes" where
  "to_uppercase u s = concat (map (upper_char u) (utf8_chars s))"

lemma to_uppercase_ascii: "\<forall>b\<in>set s. unat b < 128 \<Longrightarrow> to_uppercase u s = map upper_byte s"
  by (simp add: to_uppercase_def utf8_chars_ascii upper_char_def comp_def)

text \<open>Decimal and hexadecimal digits, as \<open>to_string\<close> and \<open>{:x}\<close> print them.\<close>

definition digit_byte :: "nat \<Rightarrow> byte" where
  "digit_byte d = word_of_nat (48 + d)"

fun dec_nat :: "nat \<Rightarrow> bytes" where
  "dec_nat n = (if n < 10 then [] else dec_nat (n div 10)) @ [digit_byte (n mod 10)]"

declare dec_nat.simps [simp del]

definition dec_int :: "int \<Rightarrow> bytes" where
  "dec_int n = (if n < 0 then 45 # dec_nat (nat (- n)) else dec_nat (nat n))"

fun hex_nat :: "nat \<Rightarrow> bytes" where
  "hex_nat n = (if n < 16 then [] else hex_nat (n div 16)) @
     [word_of_nat (if n mod 16 < 10 then 48 + n mod 16 else 87 + n mod 16)]"

declare hex_nat.simps [simp del]

text \<open>One ASCII byte of \<open>{:?}\<close> on a string (\<open>char::escape_debug_ext\<close>).\<close>

definition debug_byte :: "byte \<Rightarrow> bytes" where
  "debug_byte b =
     (if b = 0 then ascii [CHR 0x5C, CHR ''0'']
      else if b = 9 then ascii [CHR 0x5C, CHR ''t'']
      else if b = 13 then ascii [CHR 0x5C, CHR ''r'']
      else if b = 10 then ascii [CHR 0x5C, CHR ''n'']
      else if b = 34 \<or> b = 92 then [92, b]
      else if 32 \<le> b \<and> b < 127 then [b]
      else ascii (CHR 0x5C # ''u{'') @ hex_nat (unat b) @ ascii ''}'')"

definition debug_char :: "unicode \<Rightarrow> bytes \<Rightarrow> bytes" where
  "debug_char u c = (case c of [b] \<Rightarrow> debug_byte b | _ \<Rightarrow> uc_debug u c)"

definition debug_str :: "unicode \<Rightarrow> bytes \<Rightarrow> bytes" where
  "debug_str u s = 34 # concat (map (debug_char u) (utf8_chars s)) @ [34]"

section \<open>Integers in decimal\<close>

definition digit_value :: "byte \<Rightarrow> int option" where
  "digit_value b = (if 48 \<le> b \<and> b \<le> 57 then Some (int (unat b) - 48) else None)"

text \<open>
  The digit loop of \<open>i64::from_str\<close>: \<open>checked_mul\<close> by ten, then \<open>checked_add\<close> or
  \<open>checked_sub\<close> of the digit; \<open>None\<close> is any \<open>ParseIntError\<close>.
\<close>

fun parse_digits :: "bool \<Rightarrow> int \<Rightarrow> bytes \<Rightarrow> int option" where
  "parse_digits neg acc [] = Some acc"
| "parse_digits neg acc (c # cs) =
     (case digit_value c of
        None \<Rightarrow> None
      | Some d \<Rightarrow>
          if \<not> in_i64 (acc * 10) then None
          else let acc' = (if neg then acc * 10 - d else acc * 10 + d)
               in if in_i64 acc' then parse_digits neg acc' cs else None)"

definition parse_i64 :: "bytes \<Rightarrow> int option" where
  "parse_i64 s =
     (case s of
        [] \<Rightarrow> None
      | c # cs \<Rightarrow>
          if cs = [] \<and> (c = 43 \<or> c = 45) then None
          else if c = 43 then parse_digits False 0 cs
          else if c = 45 then parse_digits True 0 cs
          else parse_digits False 0 s)"

lemma parse_digits_append:
  "parse_digits neg acc (xs @ ys) = Option.bind (parse_digits neg acc xs) (\<lambda>a. parse_digits neg a ys)"
  by (induction xs arbitrary: acc) (auto simp: Let_def split: option.splits)

lemma parse_digits_range: "parse_digits neg acc s = Some n \<Longrightarrow> in_i64 acc \<Longrightarrow> in_i64 n"
  by (induction s arbitrary: acc) (auto simp: Let_def split: option.splits if_splits)

lemma parse_i64_range: "parse_i64 s = Some n \<Longrightarrow> in_i64 n"
  by (auto simp: parse_i64_def split: list.splits if_splits simp del: parse_digits.simps
      elim!: parse_digits_range) (simp_all add: in_i64_def)

lemma unat_digit: "d < 10 \<Longrightarrow> unat (digit_byte d) = 48 + d"
  by (simp only: digit_byte_def unsigned_of_nat) (simp add: take_bit_nat_eq_self)

lemma digit_value_digit: "d < 10 \<Longrightarrow> digit_value (digit_byte d) = Some (int d)"
  using unat_digit [of d] by (simp add: digit_value_def word_le_nat_alt)

lemma dec_nat_digits: "b \<in> set (dec_nat n) \<Longrightarrow> 48 \<le> unat b \<and> unat b \<le> 57"
proof (induction n rule: dec_nat.induct)
  case (1 n)
  show ?case
  proof (cases "b \<in> set (dec_nat (n div 10)) \<and> \<not> n < 10")
    case True
    then show ?thesis using 1 by simp
  next
    case False
    with 1(2) have "b = digit_byte (n mod 10)"
      by (auto simp: dec_nat.simps [of n] split: if_splits)
    then show ?thesis by (simp only: unat_digit) simp
  qed
qed

lemma dec_nat_nonempty [simp]: "dec_nat n \<noteq> []"
  by (subst dec_nat.simps) simp

lemma parse_digits_dec_nat:
  "in_i64 (if neg then - int n else int n) \<Longrightarrow>
   parse_digits neg 0 (dec_nat n) = Some (if neg then - int n else int n)"
proof (induction n rule: dec_nat.induct)
  case (1 n)
  define q where "q = (if neg then - int (n div 10) else int (n div 10))"
  have n: "int n = int (n div 10) * 10 + int (n mod 10)"
    by (metis div_mult_mod_eq of_nat_add of_nat_mult of_nat_numeral)
  then have "(if neg then q * 10 - int (n mod 10) else q * 10 + int (n mod 10)) =
      (if neg then - int n else int n)"
    by (simp add: q_def)
  moreover have "in_i64 (q * 10)"
    using 1(2) n by (auto simp: q_def in_i64_def split: if_splits)
  ultimately have digit: "parse_digits neg q [digit_byte (n mod 10)] = Some (if neg then - int n else int n)"
    using 1(2) digit_value_digit [of "n mod 10"] by (auto simp: Let_def)
  show ?case
  proof (cases "n < 10")
    case True
    then have "q = 0" and "dec_nat n = [digit_byte (n mod 10)]"
      by (simp_all add: q_def dec_nat.simps [of n])
    with digit show ?thesis by simp
  next
    case False
    have "in_i64 (if neg then - int (n div 10) else int (n div 10))"
      using 1(2) n by (auto simp: in_i64_def split: if_splits)
    with 1(1) False have "parse_digits neg 0 (dec_nat (n div 10)) = Some q"
      by (simp add: q_def)
    with digit False show ?thesis
      by (simp add: dec_nat.simps [of n] parse_digits_append)
  qed
qed

lemma parse_i64_dec_int [wire_simps]: "in_i64 n \<Longrightarrow> parse_i64 (dec_int n) = Some n"
proof (cases "n < 0")
  case True
  moreover assume "in_i64 n"
  ultimately show ?thesis
    using parse_digits_dec_nat [of True "nat (- n)"] by (simp add: dec_int_def parse_i64_def)
next
  case False
  assume n: "in_i64 n"
  obtain c cs where c: "dec_nat (nat n) = c # cs"
    by (cases "dec_nat (nat n)") auto
  with dec_nat_digits [of c "nat n"] have "c \<noteq> 43" and "c \<noteq> 45"
    by auto
  with c n False parse_digits_dec_nat [of False "nat n"] show ?thesis
    by (simp add: dec_int_def parse_i64_def)
qed

lemma dec_int_bytes: "b \<in> set (dec_int n) \<Longrightarrow> 45 \<le> unat b \<and> unat b < 128"
  by (auto simp: dec_int_def split: if_splits dest!: dec_nat_digits)

lemma utf8_valid_dec_int [simp]: "utf8_valid (dec_int n)"
  by (intro utf8_valid_ascii) (simp add: dec_int_bytes)

lemma dec_int_no_lf [simp]: "10 \<notin> set (dec_int n)"
  by (auto dest!: dec_int_bytes)

end
