(* ===== verification/Resp.thy ===== *)
theory Resp
  imports Common Rust_Strings
begin

text \<open>
  The data of the module \<open>protocol\<close>: RESP values (\<open>resp.rs\<close>) and the internal response
  (\<open>response.rs\<close>). A \<open>String\<close> is the list of its UTF-8 bytes, an \<open>i64\<close> an \<open>int\<close>.
\<close>

datatype resp_value =
    SimpleString bytes
  | Error bytes
  | Integer int
  | BulkString "bytes option"          \<comment> \<open>\<open>None\<close> is the null bulk string\<close>
  | Array "resp_value list option"

definition resp_ok :: resp_value where "resp_ok = SimpleString (ascii ''OK'')"
definition resp_pong :: resp_value where "resp_pong = SimpleString (ascii ''PONG'')"
definition resp_null :: resp_value where "resp_null = BulkString None"
definition resp_error :: "bytes \<Rightarrow> resp_value" where "resp_error msg = Error msg"

datatype response =
    RValue "val option"
  | RInteger int
  | ROk
  | RError bytes

definition response_ok :: response where "response_ok = ROk"
definition response_error :: "bytes \<Rightarrow> response" where "response_error msg = RError msg"

text \<open>
  The values a connection can carry: strings are well-formed UTF-8 without a line feed,
  integers are \<open>i64\<close>, bulk strings respect \<open>MAX_VALUE_SIZE\<close>, and an array's length fits the
  length line and the vector the parser reserves (\<open>sz\<close> is \<open>size_of::<RespValue>()\<close>).
\<close>

definition line_ok :: "bytes \<Rightarrow> bool" where
  "line_ok s \<longleftrightarrow> utf8_valid s \<and> 10 \<notin> set s"

fun wire_ok :: "nat \<Rightarrow> resp_value \<Rightarrow> bool" where
  "wire_ok sz (SimpleString s) = line_ok s"
| "wire_ok sz (Error s) = line_ok s"
| "wire_ok sz (Integer n) = in_i64 n"
| "wire_ok sz (BulkString None) = True"
| "wire_ok sz (BulkString (Some d)) = (length d \<le> MAX_VALUE_SIZE)"
| "wire_ok sz (Array None) = True"
| "wire_ok sz (Array (Some es)) =
     (in_i64 (int (length es)) \<and> length es * sz \<le> isize_max \<and> list_all (wire_ok sz) es)"

end
