(* ===== verification/Parser.thy ===== *)
theory Parser
  imports Resp
begin

text \<open>
  \<open>protocol/parser.rs\<close>. A \<open>Cursor<&[u8]>\<close> is the list of the bytes not yet read; each
  function returns its value and the bytes left, an error, or a panic. \<open>sz\<close> is
  \<open>size_of::<RespValue>()\<close>, which \<open>Vec::with_capacity\<close> multiplies by the announced count.
\<close>

datatype parse_error =
    Incomplete
  | InvalidType byte
  | InvalidInteger
  | InvalidLength
  | InvalidFormat

type_synonym 'a reader = "bytes \<Rightarrow> ('a \<times> bytes, parse_error) outcome"

section \<open>Reading from the cursor\<close>

text \<open>\<open>read_exact_or_incomplete\<close>: a cursor over a slice fails with \<open>UnexpectedEof\<close> only.\<close>

definition read_exact_or_incomplete :: "nat \<Rightarrow> bytes reader" where
  "read_exact_or_incomplete n r = (if n \<le> length r then Ok (take n r, drop n r) else Err Incomplete)"

text \<open>\<open>BufRead::read_until(b'\n')\<close>: up to and including the first line feed, or to the end.\<close>

fun read_until_lf :: "bytes \<Rightarrow> bytes \<times> bytes" where
  "read_until_lf [] = ([], [])"
| "read_until_lf (b # r) =
     (if b = 10 then ([b], r) else let (line, rest) = read_until_lf r in (b # line, rest))"

definition read_crlf_line :: "bytes reader" where
  "read_crlf_line r =
     (let (line, rest) = read_until_lf r in
      if line = [] then Err Incomplete
      else if length line < 2 \<or> drop (length line - 2) line \<noteq> crlf then Err InvalidFormat
      else Ok (take (length line - 2) line, rest))"

section \<open>The grammar\<close>

definition parse_simple_string :: "resp_value reader" where
  "parse_simple_string r =
     and_then (read_crlf_line r) (\<lambda>(line, r'). Ok (SimpleString (from_utf8_lossy line), r'))"

definition parse_error_string :: "resp_value reader" where
  "parse_error_string r =
     and_then (read_crlf_line r) (\<lambda>(line, r'). Ok (Error (from_utf8_lossy line), r'))"

text \<open>
  The three lines \<open>read_crlf_line\<close>, \<open>from_utf8\<close>, \<open>parse::<i64>\<close> that open
  \<open>parse_integer\<close>, \<open>parse_bulk_string\<close> and \<open>parse_array\<close>.
\<close>

definition read_i64_line :: "int reader" where
  "read_i64_line r =
     and_then (read_crlf_line r) (\<lambda>(line, r').
       if \<not> utf8_valid line then Err InvalidInteger
       else case parse_i64 line of None \<Rightarrow> Err InvalidInteger | Some n \<Rightarrow> Ok (n, r'))"

definition parse_integer :: "resp_value reader" where
  "parse_integer r = and_then (read_i64_line r) (\<lambda>(n, r'). Ok (Integer n, r'))"

definition parse_bulk_string :: "resp_value reader" where
  "parse_bulk_string r =
     and_then (read_i64_line r) (\<lambda>(n, r1).
       if n = - 1 then Ok (BulkString None, r1)
       else if n < - 1 then Err InvalidLength
       else let len = nat n in
         if MAX_VALUE_SIZE < len then Err InvalidLength
         else and_then (read_exact_or_incomplete len r1) (\<lambda>(data, r2).
           and_then (read_exact_or_incomplete 2 r2) (\<lambda>(tail, r3).
             if tail \<noteq> crlf then Err InvalidFormat else Ok (BulkString (Some data), r3))))"

text \<open>
  \<open>parse_value\<close>, \<open>parse_array\<close> and the array's element loop call each other. The loop
  pushes onto a vector; here it returns the elements in order.
\<close>

function parse_value :: "nat \<Rightarrow> resp_value reader"
  and parse_array :: "nat \<Rightarrow> resp_value reader"
  and parse_elements :: "nat \<Rightarrow> nat \<Rightarrow> resp_value list reader" where
  "parse_value sz r =
     and_then (read_exact_or_incomplete 1 r) (\<lambda>(type_byte, r').
       let t = hd type_byte in
       if t = 43 then parse_simple_string r'
       else if t = 45 then parse_error_string r'
       else if t = 58 then parse_integer r'
       else if t = 36 then parse_bulk_string r'
       else if t = 42 then parse_array sz r'
       else Err (InvalidType t))"
| "parse_array sz r =
     and_then (read_i64_line r) (\<lambda>(count, r').
       if count = - 1 then Ok (Array None, r')
       else if count < - 1 then Err InvalidLength
       else let n = nat count in
         if isize_max < n * sz then Panic Capacity_Overflow
         else and_then (parse_elements sz n r') (\<lambda>(es, r''). Ok (Array (Some es), r'')))"
| "parse_elements sz n r =
     (if n = 0 then Ok ([], r)
      else and_then (parse_value sz r) (\<lambda>(v, r').
        and_then (parse_elements sz (n - 1) r') (\<lambda>(vs, r''). Ok (v # vs, r''))))"
  by pat_completeness auto

section \<open>Reading consumes input\<close>

lemma read_exact_Ok [wire_simps]:
  "read_exact_or_incomplete n r = Ok (d, r') \<longleftrightarrow> r = d @ r' \<and> length d = n"
  by (auto simp: read_exact_or_incomplete_def)

lemma read_until_lf_found: "10 \<notin> set m \<Longrightarrow> read_until_lf (m @ 10 # r) = (m @ [10], r)"
  by (induction m) auto

lemma read_until_lf_eof: "10 \<notin> set r \<Longrightarrow> read_until_lf r = (r, [])"
  by (induction r) auto

lemma lf_cases:
  fixes r :: bytes
  obtains (eof) "10 \<notin> set r"
  | (line) l s where "r = l @ 13 # 10 # s" "10 \<notin> set l"
  | (bare) m s where "r = m @ 10 # s" "10 \<notin> set m" "m = [] \<or> last m \<noteq> 13"
proof (cases "10 \<in> set r")
  case True
  then obtain m s where r: "r = m @ 10 # s" and m: "10 \<notin> set m"
    using split_list_first by fastforce
  show ?thesis
  proof (cases "m = [] \<or> last m \<noteq> 13")
    case True
    with r m bare show ?thesis by blast
  next
    case False
    then have "m = butlast m @ [13]"
      using append_butlast_last_id [of m] by simp
    with r m line [of "butlast m" s] show ?thesis
      by (metis (no_types, lifting) append.assoc append_Cons append_Nil in_set_butlastD)
  qed
qed (rule eof)

lemma read_crlf_line_line: "10 \<notin> set l \<Longrightarrow> read_crlf_line (l @ 13 # 10 # s) = Ok (l, s)"
  using read_until_lf_found [of "l @ [13]" s] by (simp add: read_crlf_line_def)

lemma read_crlf_line_eof:
  "10 \<notin> set r \<Longrightarrow> read_crlf_line r = Err (if r = [] then Incomplete else InvalidFormat)"
proof -
  assume r: "10 \<notin> set r"
  then have "drop (length r - 2) r \<noteq> crlf"
    by (metis in_set_dropD list.set_intros(1) list.set_intros(2))
  with r show ?thesis
    by (simp add: read_crlf_line_def read_until_lf_eof)
qed

lemma read_crlf_line_bare:
  "10 \<notin> set m \<Longrightarrow> m = [] \<or> last m \<noteq> 13 \<Longrightarrow> read_crlf_line (m @ 10 # s) = Err InvalidFormat"
  using read_until_lf_found [of m s]
  by (cases m rule: rev_cases) (simp_all add: read_crlf_line_def)

lemmas read_crlf_line_cases = read_crlf_line_line read_crlf_line_eof read_crlf_line_bare

lemma read_crlf_line_Ok [wire_simps]:
  "read_crlf_line r = Ok (line, r') \<longleftrightarrow> r = line @ 13 # 10 # r' \<and> 10 \<notin> set line"
proof
  assume "read_crlf_line r = Ok (line, r')"
  then show "r = line @ 13 # 10 # r' \<and> 10 \<notin> set line"
    by (cases r rule: lf_cases) (auto simp: read_crlf_line_cases)
qed (auto simp: read_crlf_line_line)

lemma read_crlf_line_not_Panic [simp]: "read_crlf_line r \<noteq> Panic p"
  by (cases r rule: lf_cases) (auto simp: read_crlf_line_cases)

lemma read_i64_line_Ok [wire_simps]:
  "read_i64_line r = Ok (n, r') \<longleftrightarrow>
     (\<exists>line. r = line @ 13 # 10 # r' \<and> 10 \<notin> set line \<and> utf8_valid line \<and> parse_i64 line = Some n)"
  by (auto simp: read_i64_line_def and_then_Ok_iff read_crlf_line_Ok split: option.splits if_splits)

lemma parse_simple_string_Ok:
  "parse_simple_string r = Ok (v, r') \<longleftrightarrow>
     (\<exists>line. r = line @ 13 # 10 # r' \<and> 10 \<notin> set line \<and> v = SimpleString (from_utf8_lossy line))"
  by (auto simp: parse_simple_string_def and_then_Ok_iff read_crlf_line_Ok)

lemma parse_error_string_Ok:
  "parse_error_string r = Ok (v, r') \<longleftrightarrow>
     (\<exists>line. r = line @ 13 # 10 # r' \<and> 10 \<notin> set line \<and> v = Error (from_utf8_lossy line))"
  by (auto simp: parse_error_string_def and_then_Ok_iff read_crlf_line_Ok)

lemma parse_integer_Ok:
  "parse_integer r = Ok (v, r') \<longleftrightarrow> (\<exists>n. read_i64_line r = Ok (n, r') \<and> v = Integer n)"
  by (auto simp: parse_integer_def and_then_Ok_iff)

lemma parse_bulk_string_Ok:
  "parse_bulk_string r = Ok (v, r') \<longleftrightarrow>
     (read_i64_line r = Ok (- 1, r') \<and> v = BulkString None) \<or>
     (\<exists>d. read_i64_line r = Ok (int (length d), d @ 13 # 10 # r') \<and>
          length d \<le> MAX_VALUE_SIZE \<and> v = BulkString (Some d))"
    (is "_ \<longleftrightarrow> ?null \<or> ?data")
proof
  assume "parse_bulk_string r = Ok (v, r')"
  then show "?null \<or> ?data"
    by (auto simp: parse_bulk_string_def and_then_Ok_iff read_exact_Ok Let_def split: if_splits)
next
  assume "?null \<or> ?data"
  then show "parse_bulk_string r = Ok (v, r')"
    by (auto simp: parse_bulk_string_def read_exact_or_incomplete_def)
qed

text \<open>
  Termination needs partial correctness: the element loop continues where \<open>parse_value\<close>
  stopped, so a value must leave no more than it was given.
\<close>

lemma parsed_suffix:
  "parse_value_parse_array_parse_elements_dom (Inl (sz, r)) \<Longrightarrow>
     parse_value sz r = Ok (v, r') \<Longrightarrow> length r' < length r"
  "parse_value_parse_array_parse_elements_dom (Inr (Inl (sz, r))) \<Longrightarrow>
     parse_array sz r = Ok (v, r') \<Longrightarrow> length r' < length r"
  "parse_value_parse_array_parse_elements_dom (Inr (Inr (sz, n, r))) \<Longrightarrow>
     parse_elements sz n r = Ok (vs, r') \<Longrightarrow> length r' \<le> length r"
proof (induction arbitrary: v r' and v r' and vs r'
    rule: parse_value_parse_array_parse_elements.pinduct)
  case (1 sz r)
  from 1(3) show ?case
    by (auto simp: parse_value.psimps [OF 1(1)] and_then_Ok_iff wire_simps Let_def
        parse_simple_string_Ok parse_error_string_Ok parse_integer_Ok parse_bulk_string_Ok
        split: if_splits dest!: 1(2) [rotated -1])
next
  case (2 sz r)
  from 2(3) show ?case
    by (auto simp: parse_array.psimps [OF 2(1)] and_then_Ok_iff wire_simps Let_def
        split: if_splits dest!: 2(2) [rotated -1])
next
  case (3 sz n r)
  show ?case
  proof (cases "n = 0")
    case True
    with 3 show ?thesis
      by (simp add: parse_elements.psimps)
  next
    case False
    with 3(1,4) obtain v r1 ws where v: "parse_value sz r = Ok (v, r1)"
      and ws: "parse_elements sz (n - 1) r1 = Ok (ws, r')"
      by (auto simp: parse_elements.psimps and_then_Ok_iff)
    have "length r1 < length r"
      using 3(2) False v by blast
    moreover have "length r' \<le> length r1"
      using 3(3) False v ws by blast
    ultimately show ?thesis by simp
  qed
qed

termination parse_value
  by (relation "inv_image (less_than <*lex*> less_than)
        (\<lambda>x. case x of Inl (sz, r) \<Rightarrow> (length r, 0)
           | Inr (Inl (sz, r)) \<Rightarrow> (length r, 0)
           | Inr (Inr (sz, n, r)) \<Rightarrow> (length r, Suc n))")
     (auto simp: wire_simps order.order_iff_strict dest!: parsed_suffix(1))

declare parse_value.simps [simp del] parse_array.simps [simp del] parse_elements.simps [simp del]

lemmas parse_induct = parse_value_parse_array_parse_elements.induct

lemma parse_value_Nil [simp]: "parse_value sz [] = Err Incomplete"
  by (simp add: parse_value.simps read_exact_or_incomplete_def)

lemma parse_value_Cons:
  "parse_value sz (t # r) =
     (if t = 43 then parse_simple_string r
      else if t = 45 then parse_error_string r
      else if t = 58 then parse_integer r
      else if t = 36 then parse_bulk_string r
      else if t = 42 then parse_array sz r
      else Err (InvalidType t))"
  by (simp add: parse_value.simps read_exact_or_incomplete_def)

lemma parse_elements_0 [simp]: "parse_elements sz 0 r = Ok ([], r)"
  by (simp add: parse_elements.simps)

lemma parse_elements_Suc:
  "parse_elements sz (Suc n) r =
     and_then (parse_value sz r) (\<lambda>(v, r').
       and_then (parse_elements sz n r') (\<lambda>(vs, r''). Ok (v # vs, r'')))"
  by (simp add: parse_elements.simps [of sz "Suc n"])

lemma parse_array_Ok:
  "parse_array sz r = Ok (v, r') \<longleftrightarrow>
     (read_i64_line r = Ok (- 1, r') \<and> v = Array None) \<or>
     (\<exists>n r1 es. read_i64_line r = Ok (int n, r1) \<and> n * sz \<le> isize_max \<and>
        parse_elements sz n r1 = Ok (es, r') \<and> v = Array (Some es))"
  (is "_ \<longleftrightarrow> ?null \<or> ?some")
proof
  assume ok: "parse_array sz r = Ok (v, r')"
  then obtain count r1 where line: "read_i64_line r = Ok (count, r1)"
    by (auto simp: parse_array.simps and_then_Ok_iff)
  show "?null \<or> ?some"
  proof (cases "count = - 1")
    case True
    with ok line show ?thesis by (simp add: parse_array.simps)
  next
    case False
    with ok line have "count = int (nat count)"
      by (auto simp: parse_array.simps split: if_splits)
    with ok line False show ?thesis
      by (auto simp: parse_array.simps Let_def and_then_Ok_iff split: if_splits
          intro!: exI [of _ "nat count"])
  qed
next
  assume "?null \<or> ?some"
  then show "parse_array sz r = Ok (v, r')"
    by (auto simp: parse_array.simps Let_def)
qed

lemmas parse_leaf_Ok =
  parse_simple_string_Ok parse_error_string_Ok parse_integer_Ok parse_bulk_string_Ok

section \<open>What the bytes read determine\<close>

text \<open>
  The errors that do not depend on where the input stops: a wrong type byte, a malformed
  number, a forbidden length. \<open>Incomplete\<close> and \<open>InvalidFormat\<close> can both be due to the end
  of the buffer. A reader is stable at an input if its value, its definitive error or its
  panic there is unchanged when more bytes follow.
\<close>

definition definitive :: "parse_error \<Rightarrow> bool" where
  "definitive e \<longleftrightarrow> e \<noteq> Incomplete \<and> e \<noteq> InvalidFormat"

definition stable_at :: "'a reader \<Rightarrow> bytes \<Rightarrow> bool" where
  "stable_at m r \<longleftrightarrow>
     (\<forall>s x r'. m r = Ok (x, r') \<longrightarrow> m (r @ s) = Ok (x, r' @ s)) \<and>
     (\<forall>s e. m r = Err e \<longrightarrow> definitive e \<longrightarrow> m (r @ s) = Err e) \<and>
     (\<forall>s p. m r = Panic p \<longrightarrow> m (r @ s) = Panic p)"

named_theorems stable_intros \<open>readers that are stable\<close>

lemma stable_Ok [stable_intros]: "stable_at (\<lambda>r. Ok (x, r)) r"
  and stable_Err [stable_intros]: "stable_at (\<lambda>r. Err e) r"
  and stable_Panic [stable_intros]: "stable_at (\<lambda>r. Panic p) r"
  by (simp_all add: stable_at_def)

lemma stable_if [stable_intros]:
  "(b \<Longrightarrow> stable_at m r) \<Longrightarrow> (\<not> b \<Longrightarrow> stable_at m' r) \<Longrightarrow>
   stable_at (\<lambda>r. if b then m r else m' r) r"
  by (cases b) simp_all

lemma stable_and_then [stable_intros]:
  assumes "stable_at m r"
    and "\<And>x r'. m r = Ok (x, r') \<Longrightarrow> stable_at (f x) r'"
  shows "stable_at (\<lambda>r. and_then (m r) (\<lambda>(x, r'). f x r')) r"
  using assms unfolding stable_at_def by (cases "m r") auto

lemma stable_read_exact [stable_intros]: "stable_at (read_exact_or_incomplete n) r"
  by (auto simp: stable_at_def read_exact_or_incomplete_def definitive_def)

lemma stable_read_crlf_line [stable_intros]: "stable_at read_crlf_line r"
  by (cases r rule: lf_cases) (auto simp: stable_at_def read_crlf_line_cases definitive_def)

lemma stable_case_option [stable_intros]:
  "(x = None \<Longrightarrow> stable_at m r) \<Longrightarrow> (\<And>y. x = Some y \<Longrightarrow> stable_at (m' y) r) \<Longrightarrow>
   stable_at (\<lambda>r. case x of None \<Rightarrow> m r | Some y \<Rightarrow> m' y r) r"
  by (cases x) auto

lemma stable_leaves [stable_intros]:
  "stable_at parse_simple_string r"
  "stable_at parse_error_string r"
  "stable_at read_i64_line r"
  unfolding parse_simple_string_def [abs_def] parse_error_string_def [abs_def] read_i64_line_def [abs_def]
  by (intro stable_intros)+

lemma stable_parse_integer [stable_intros]: "stable_at parse_integer r"
  unfolding parse_integer_def [abs_def] by (intro stable_intros)

lemma stable_parse_bulk_string [stable_intros]: "stable_at parse_bulk_string r"
  unfolding parse_bulk_string_def [abs_def] Let_def by (intro stable_intros)

lemma stable_parse:
  "stable_at (parse_value sz) r" "stable_at (parse_array sz) r" "stable_at (parse_elements sz n) r"
proof (induction sz r and sz r and sz n r rule: parse_induct)
  case (1 sz r)
  show ?case
    unfolding parse_value.simps [abs_def] Let_def by (intro stable_intros 1) simp_all
next
  case (2 sz r)
  show ?case
    unfolding parse_array.simps [abs_def] Let_def by (intro stable_intros 2) simp_all
next
  case (3 sz n r)
  show ?case
    unfolding parse_elements.simps [of sz n, abs_def] by (intro stable_intros 3) simp_all
qed

section \<open>The incremental parser\<close>

record resp_parser =
  buffer :: bytes
  cursor :: nat

definition RespParser_new :: resp_parser where
  "RespParser_new = \<lparr>buffer = [], cursor = 0\<rparr>"

definition feed :: "bytes \<Rightarrow> resp_parser \<Rightarrow> resp_parser" where
  "feed data p = p\<lparr>buffer := buffer p @ data\<rparr>"

text \<open>
  \<open>parse\<close> reads one value from the unread part. A value moves the cursor by the position of
  the reader; \<open>Incomplete\<close> is \<open>Ok(None)\<close> and leaves the parser as it was.
\<close>

definition parse :: "nat \<Rightarrow> resp_parser \<Rightarrow> (resp_value option \<times> resp_parser, parse_error) outcome" where
  "parse sz p =
     (if length (buffer p) \<le> cursor p then Ok (None, p)
      else let start = cursor p; slice = drop start (buffer p) in
        (case parse_value sz slice of
           Ok (v, rest) \<Rightarrow> Ok (Some v, p\<lparr>cursor := start + (length slice - length rest)\<rparr>)
         | Err e \<Rightarrow> if e = Incomplete then Ok (None, p) else Err e
         | Panic q \<Rightarrow> Panic q))"

definition compact :: "resp_parser \<Rightarrow> resp_parser" where
  "compact p =
     (if 0 < cursor p then p\<lparr>buffer := drop (cursor p) (buffer p), cursor := 0\<rparr> else p)"

text \<open>What a parser still has to read, and the invariant of its cursor.\<close>

definition unread :: "resp_parser \<Rightarrow> bytes" where
  "unread p = drop (cursor p) (buffer p)"

definition parser_inv :: "resp_parser \<Rightarrow> bool" where
  "parser_inv p \<longleftrightarrow> cursor p \<le> length (buffer p)"

lemma parser_inv_new [simp]: "parser_inv RespParser_new"
  by (simp add: parser_inv_def RespParser_new_def)

lemma unread_new [simp]: "unread RespParser_new = []"
  by (simp add: unread_def RespParser_new_def)

lemma parser_inv_feed [simp]: "parser_inv p \<Longrightarrow> parser_inv (feed d p)"
  by (simp add: parser_inv_def feed_def)

lemma unread_feed [simp]: "parser_inv p \<Longrightarrow> unread (feed d p) = unread p @ d"
  by (simp add: parser_inv_def feed_def unread_def)

lemma parser_inv_compact [simp]: "parser_inv p \<Longrightarrow> parser_inv (compact p)"
  by (simp add: parser_inv_def compact_def)

lemma unread_compact [simp]: "unread (compact p) = unread p"
  by (simp add: compact_def unread_def)

text \<open>A value read is a proper prefix of the input: the rest is a suffix.\<close>

lemma proper_suffix_Cons: "(\<exists>c. c \<noteq> [] \<and> t # r = c @ r') \<longleftrightarrow> (\<exists>c. r = c @ r')"
  by (metis append_Cons list.distinct(1) list.exhaust list.inject)

lemma parse_suffix:
  "parse_value sz r = Ok (v, r') \<Longrightarrow> \<exists>c. c \<noteq> [] \<and> r = c @ r'"
  "parse_array sz r = Ok (v, r') \<Longrightarrow> \<exists>c. c \<noteq> [] \<and> r = c @ r'"
  "parse_elements sz n r = Ok (vs, r') \<Longrightarrow> \<exists>c. r = c @ r'"
proof (induction sz r and sz r and sz n r arbitrary: v r' and v r' and vs r' rule: parse_induct)
  case (1 sz r)
  show ?case
  proof (cases r)
    case Nil
    with 1 show ?thesis by simp
  next
    case (Cons t r1)
    with 1(1) [of "([t], r1)"]
    have "t = 42 \<Longrightarrow> parse_array sz r1 = Ok (v, r') \<Longrightarrow> \<exists>c. c \<noteq> [] \<and> r1 = c @ r'"
      by (simp add: read_exact_or_incomplete_def)
    with 1(2) show ?thesis
      unfolding Cons proper_suffix_Cons
      by (auto simp: parse_value_Cons parse_leaf_Ok wire_simps split: if_splits)
  qed
next
  case (2 sz r)
  then show ?case
    by (fastforce simp: parse_array_Ok wire_simps)
next
  case (3 sz n r)
  then show ?case
    by (cases n) (fastforce simp: parse_elements_Suc and_then_Ok_iff)+
qed

lemma parse_length: "parse_value sz r = Ok (v, r') \<Longrightarrow> length r' < length r"
  by (auto dest: parse_suffix(1))

lemma parse_Some:
  assumes "parser_inv p" and "parse_value sz (unread p) = Ok (v, rest)"
  shows "\<exists>p'. parse sz p = Ok (Some v, p') \<and> parser_inv p' \<and> unread p' = rest"
proof -
  obtain c where c: "unread p = c @ rest" and "c \<noteq> []"
    using parse_suffix(1) [OF assms(2)] by blast
  have "length (buffer p) - cursor p = length c + length rest"
    by (metis c length_append length_drop unread_def)
  moreover have "0 < length c"
    using \<open>c \<noteq> []\<close> by simp
  ultimately have "length (buffer p) = cursor p + length c + length rest" and "cursor p < length (buffer p)"
    using assms(1) by (auto simp only: parser_inv_def)
  moreover have "drop (cursor p + length c) (buffer p) = rest"
    using c by (metis append_eq_conv_conj drop_drop add.commute unread_def)
  ultimately show ?thesis
    using assms(2) c by (simp add: parse_def Let_def unread_def parser_inv_def)
qed

lemma parse_waits:
  assumes "parser_inv p" and "parse_value sz (unread p) = Err Incomplete"
  shows "parse sz p = Ok (None, p)"
  using assms by (simp add: parse_def Let_def unread_def)

lemma parse_Err:
  assumes "parse_value sz (unread p) = Err e" and "e \<noteq> Incomplete"
  shows "parse sz p = Err e"
  using assms by (auto simp: parse_def Let_def unread_def)

lemma parse_Panic:
  assumes "parse_value sz (unread p) = Panic q"
  shows "parse sz p = Panic q"
  using assms by (auto simp: parse_def Let_def unread_def)

end
