(* ===== verification/Serializer.thy ===== *)
theory Serializer
  imports Resp
begin

text \<open>
  \<open>protocol/serializer.rs\<close>. \<open>serialize_value\<close> appends to the buffer; the recursion is over
  the value, as in the code, and the loop over the elements threads the buffer through.
\<close>

fun serialize_value :: "resp_value \<Rightarrow> bytes \<Rightarrow> bytes" where
  "serialize_value (SimpleString s) buf = buf @ [43] @ s @ crlf"
| "serialize_value (Error s) buf = buf @ [45] @ s @ crlf"
| "serialize_value (Integer n) buf = buf @ [58] @ dec_int n @ crlf"
| "serialize_value (BulkString None) buf = buf @ ascii ''$-1'' @ crlf"
| "serialize_value (BulkString (Some data)) buf =
     buf @ [36] @ dec_int (int (length data)) @ crlf @ data @ crlf"
| "serialize_value (Array None) buf = buf @ ascii ''*-1'' @ crlf"
| "serialize_value (Array (Some elements)) buf =
     fold serialize_value elements (buf @ [42] @ dec_int (int (length elements)) @ crlf)"

definition serialize_resp2 :: "resp_value \<Rightarrow> bytes" where
  "serialize_resp2 v = serialize_value v []"

text \<open>The buffer is only appended to.\<close>

lemma serialize_value_append: "serialize_value v buf = buf @ serialize_resp2 v"
proof -
  have "serialize_value v (b @ c) = b @ serialize_value v c" for b c
  proof (induction v c arbitrary: b rule: serialize_value.induct)
    case (7 elements buf)
    have "fold serialize_value es (b @ c) = b @ fold serialize_value es c"
      if "set es \<subseteq> set elements" for es c
      using that by (induction es arbitrary: c) (auto simp: 7)
    then show ?case by simp
  qed simp_all
  from this [of buf "[]"] show ?thesis
    by (simp add: serialize_resp2_def)
qed

lemma fold_serialize_value:
  "fold serialize_value es buf = buf @ concat (map serialize_resp2 es)"
  by (induction es arbitrary: buf) (simp_all add: serialize_value_append)

lemma serialize_resp2_simps [wire_simps]:
  "serialize_resp2 (SimpleString s) = 43 # s @ crlf"
  "serialize_resp2 (Error s) = 45 # s @ crlf"
  "serialize_resp2 (Integer n) = 58 # dec_int n @ crlf"
  "serialize_resp2 (BulkString None) = 36 # dec_int (-1) @ crlf"
  "serialize_resp2 (BulkString (Some d)) = 36 # dec_int (int (length d)) @ crlf @ d @ crlf"
  "serialize_resp2 (Array None) = 42 # dec_int (-1) @ crlf"
  "serialize_resp2 (Array (Some es)) =
     42 # dec_int (int (length es)) @ crlf @ concat (map serialize_resp2 es)"
  by (simp_all add: serialize_resp2_def fold_serialize_value dec_int_def dec_nat.simps [of "Suc 0"]
      digit_byte_def)

end
