(* ===== verification/Resp_Codec.thy ===== *)
theory Resp_Codec
  imports Parser Serializer Interfaces
begin

text \<open>
  The serialiser and the parser together: the parser reads back what the serialiser wrote
  (so RESP encodings are prefix-free), every value it returns is well formed, streams of
  values are read back in order, and what happens when the network cuts the input.
\<close>

section \<open>Reading back what was written\<close>

lemma line_okD: "line_ok s \<Longrightarrow> utf8_valid s" "line_ok s \<Longrightarrow> 10 \<notin> set s"
  by (simp_all add: line_ok_def)

lemma read_i64_line_dec:
  "in_i64 n \<Longrightarrow> read_i64_line (dec_int n @ 13 # 10 # s) = Ok (n, s)"
  by (auto simp: wire_simps)

lemma parse_serialized:
  "wire_ok sz v \<Longrightarrow> parse_value sz (serialize_resp2 v @ s) = Ok (v, s)"
proof (induction sz v arbitrary: s rule: wire_ok.induct)
  case (3 sz n)
  then show ?case
    by (simp add: wire_simps parse_value_Cons parse_integer_Ok read_i64_line_dec)
next
  case (4 sz)
  then show ?case
    by (simp add: wire_simps parse_value_Cons parse_bulk_string_Ok read_i64_line_dec in_i64_def)
next
  case (5 sz d)
  then have "in_i64 (int (length d))"
    by (simp add: in_i64_def MAX_VALUE_SIZE_def)
  with 5 show ?case
    by (simp add: wire_simps parse_value_Cons parse_bulk_string_Ok read_i64_line_dec)
next
  case (6 sz)
  then show ?case
    by (simp add: wire_simps parse_value_Cons parse_array_Ok read_i64_line_dec in_i64_def)
next
  case (7 sz es)
  have "parse_elements sz (length vs) (concat (map serialize_resp2 vs) @ s) = Ok (vs, s)"
    if "set vs \<subseteq> set es" for vs
    using that 7 by (induction vs) (auto simp: parse_elements_Suc list_all_iff)
  with 7(2) show ?case
    by (simp add: wire_simps parse_value_Cons parse_array_Ok read_i64_line_dec)
qed (simp_all add: wire_simps parse_value_Cons parse_leaf_Ok from_utf8_lossy_valid line_okD)

lemma serialize_resp2_nonempty: "serialize_resp2 v \<noteq> []"
  by (cases "(0 :: nat, v)" rule: wire_ok.cases) (simp_all add: wire_simps)

interpretation resp: framed_codec serialize_resp2 "parse_value sz" "wire_ok sz" for sz
  by unfold_locales (rule parse_serialized, assumption, rule serialize_resp2_nonempty)

section \<open>Every value read is well formed\<close>

lemma set_from_utf8_lossy: "set (from_utf8_lossy bs) \<subseteq> set bs \<union> set replacement"
proof (induction bs rule: from_utf8_lossy.induct)
  case (1 bs)
  show ?case
  proof (cases "bs = []")
    case False
    obtain ok n where n: "utf8_step bs = (ok, n)"
      by (cases "utf8_step bs")
    with 1 False have "set (from_utf8_lossy (drop n bs)) \<subseteq> set (drop n bs) \<union> set replacement"
      by simp
    then have "set (from_utf8_lossy (drop n bs)) \<subseteq> set bs \<union> set replacement"
      using set_drop_subset [of n bs] by blast
    moreover have "set (take n bs) \<subseteq> set bs"
      by (rule set_take_subset)
    ultimately show ?thesis
      using n False by (subst from_utf8_lossy.simps) auto
  qed simp
qed

lemma line_ok_lossy: "10 \<notin> set l \<Longrightarrow> line_ok (from_utf8_lossy l)"
  using set_from_utf8_lossy [of l] by (auto simp: line_ok_def replacement_def)

lemma read_i64_line_range: "read_i64_line r = Ok (n, r') \<Longrightarrow> in_i64 n"
  by (auto simp: wire_simps dest: parse_i64_range)

lemma length_parse_elements: "parse_elements sz n r = Ok (vs, r') \<Longrightarrow> length vs = n"
  by (induction n arbitrary: r vs) (auto simp: parse_elements_Suc and_then_Ok_iff)

lemma parsed_wire_ok:
  "parse_value sz r = Ok (v, r') \<Longrightarrow> wire_ok sz v"
  "parse_array sz r = Ok (v, r') \<Longrightarrow> wire_ok sz v"
  "parse_elements sz n r = Ok (vs, r') \<Longrightarrow> list_all (wire_ok sz) vs"
proof (induction sz r and sz r and sz n r arbitrary: v r' and v r' and vs r' rule: parse_induct)
  case (1 sz r)
  show ?case
  proof (cases r)
    case Nil
    with 1 show ?thesis by simp
  next
    case (Cons t r1)
    with 1(1) [of "([t], r1)"]
    have "t = 42 \<Longrightarrow> parse_array sz r1 = Ok (v, r') \<Longrightarrow> wire_ok sz v"
      by (simp add: read_exact_or_incomplete_def)
    with 1(2) Cons show ?thesis
      by (auto simp: parse_value_Cons parse_leaf_Ok line_ok_lossy
          split: if_splits dest: read_i64_line_range)
  qed
next
  case (2 sz r)
  from 2(2) show ?case
    unfolding parse_array_Ok
  proof (elim disjE exE conjE)
    fix n r1 es
    assume a: "read_i64_line r = Ok (int n, r1)" "n * sz \<le> isize_max"
      "parse_elements sz n r1 = Ok (es, r')" "v = Array (Some es)"
    have "list_all (wire_ok sz) es"
      by (rule 2(1) [of "(int n, r1)"]) (use a in auto)
    with a show ?thesis
      by (auto dest: length_parse_elements read_i64_line_range)
  qed simp
next
  case (3 sz n r)
  then show ?case
    by (cases n) (auto simp: parse_elements_Suc and_then_Ok_iff)
qed

section \<open>Inputs cut by the network\<close>

definition type_bytes :: "byte set" where
  "type_bytes = {43, 45, 58, 36, 42}"

text \<open>Cut inside a header line: type byte present, line begun, line feed not there yet.\<close>

lemma read_i64_line_eof:
  "10 \<notin> set l \<Longrightarrow> l \<noteq> [] \<Longrightarrow> read_i64_line l = Err InvalidFormat"
  by (simp add: read_i64_line_def read_crlf_line_eof)

lemma parse_value_cut_header:
  "t \<in> type_bytes \<Longrightarrow> 10 \<notin> set l \<Longrightarrow> l \<noteq> [] \<Longrightarrow> parse_value sz (t # l) = Err InvalidFormat"
  by (auto simp: type_bytes_def parse_value_Cons parse_simple_string_def parse_error_string_def
      parse_integer_def parse_bulk_string_def parse_array.simps read_i64_line_eof read_crlf_line_eof)

lemma serialize_header:
  "\<exists>t l rest. t \<in> type_bytes \<and> serialize_resp2 v = t # l @ rest"
  by (cases "(0 :: nat, v)" rule: wire_ok.cases) (auto simp: wire_simps type_bytes_def)

lemma take_Cons_append_less:
  "1 < k \<Longrightarrow> k \<le> length h \<Longrightarrow> h = t # l \<Longrightarrow> take k (h @ x) = t # take (k - 1) l"
  by (cases k) auto

lemma header_type_byte:
  assumes "serialize_resp2 v = hdr @ 10 # body"
  obtains t l where "hdr = t # l" and "t \<in> type_bytes"
proof (cases hdr)
  case Nil
  with assms serialize_header [of v] show ?thesis by (auto simp: type_bytes_def)
next
  case (Cons t l)
  with assms serialize_header [of v] that show ?thesis by auto
qed

section \<open>Properties\<close>

text \<open>C12 (resp_roundtrip). The parser reads back exactly the value that was serialised and
  leaves the bytes behind it untouched, for every value a connection can carry.\<close>

theorem resp_roundtrip:
  assumes "wire_ok sz v"
  shows "parse_value sz (serialize_resp2 v @ rest) = Ok (v, rest)"
  using assms by (rule resp.dec_enc)

theorem resp_roundtrip_witness:
  "parse_value 32 (serialize_resp2 (Array (Some [BulkString (Some [107]), Integer (- 5), Array None])) @ [42]) =
     Ok (Array (Some [BulkString (Some [107]), Integer (- 5), Array None]), [42])"
  by (rule resp_roundtrip) (simp add: MAX_VALUE_SIZE_def in_i64_def isize_max_def)

text \<open>A byte stream is the serialisation of at most one sequence of
  values: RESP frames need no separator.\<close>

theorem resp_streams_unique:
  assumes "list_all (wire_ok sz) vs" and "list_all (wire_ok sz) ws"
    and "concat (map serialize_resp2 vs) = concat (map serialize_resp2 ws)"
  shows "vs = ws"
  using assms by (rule resp.enc_streams_inj)

theorem resp_streams_unique_witness:
  "[Integer 7, BulkString None] = [Integer 7, resp_null]"
  by (rule resp_streams_unique [of 32]) (simp_all add: resp_null_def in_i64_def)

text \<open>C27 (parsed_values_well_formed). Whatever the client sends, a value the parser returns is
  well formed (UTF-8 strings without a line feed, \<open>i64\<close> integers, bulk strings within
  \<open>MAX_VALUE_SIZE\<close>), at least one byte was consumed, and writing the value out and reading it
  again gives the value.\<close>

theorem parsed_values_well_formed:
  assumes "parse_value sz r = Ok (v, rest)"
  shows "wire_ok sz v \<and> (\<exists>c. c \<noteq> [] \<and> r = c @ rest) \<and>
    parse_value sz (serialize_resp2 v) = Ok (v, [])"
  using parsed_wire_ok(1) [OF assms] parse_suffix(1) [OF assms] parse_serialized [of sz v "[]"]
  by simp

theorem parsed_values_well_formed_witness:
  "wire_ok 32 (SimpleString [239, 191, 189])"
proof -
  have "parse_value 32 [43, 200, 13, 10, 9] = Ok (SimpleString [239, 191, 189], [9])"
    by (simp add: parse_value_Cons parse_simple_string_Ok from_utf8_lossy.simps [of "[200]"]
        utf8_step_def byte_at_def is_cont_def replacement_def)
  from parsed_values_well_formed [OF this] show ?thesis
    by blast
qed

text \<open>C26 (more_input_keeps_the_result). More input never changes what was already decided: a
  value, an error other than \<open>Incomplete\<close> and \<open>InvalidFormat\<close>, and a panic stay the same.\<close>

theorem more_input_keeps_the_result:
  "(\<forall>v rest. parse_value sz r = Ok (v, rest) \<longrightarrow> parse_value sz (r @ s) = Ok (v, rest @ s)) \<and>
   (\<forall>e. parse_value sz r = Err e \<longrightarrow> definitive e \<longrightarrow> parse_value sz (r @ s) = Err e) \<and>
   (\<forall>q. parse_value sz r = Panic q \<longrightarrow> parse_value sz (r @ s) = Panic q)"
  using stable_parse(1) [of sz r] unfolding stable_at_def by blast

theorem more_input_keeps_the_result_witness:
  "parse_value 32 ([58, 55, 13, 10] @ [36]) = Ok (Integer 7, [36])"
proof -
  have "parse_value 32 [58, 55, 13, 10] = Ok (Integer 7, [])"
    using resp.dec_enc [of 32 "Integer 7" "[]"]
    by (simp add: wire_simps in_i64_def dec_int_def dec_nat.simps [of 7] digit_byte_def)
  with more_input_keeps_the_result [of 32 "[58, 55, 13, 10]" "[36]"] show ?thesis
    by simp
qed

text \<open>C29 (cut_header_is_fatal). When the network cuts a value inside its header line (after at
  least one byte of it, before the line feed), the parser does not wait for the rest: it
  reports \<open>InvalidFormat\<close>, on which the connection is closed.\<close>

theorem cut_header_is_fatal:
  assumes "serialize_resp2 v = hdr @ 10 # body" and "10 \<notin> set hdr"
    and "1 < k" and "k \<le> length hdr" and "parser_inv p" and "unread p = []"
  shows "parse sz (feed (take k (serialize_resp2 v)) p) = Err InvalidFormat"
proof (rule parse_Err)
  obtain t l where hdr: "hdr = t # l" and t: "t \<in> type_bytes"
    using assms(1) by (rule header_type_byte)
  have "take k (serialize_resp2 v) = t # take (k - 1) l"
    unfolding assms(1) using assms(3,4) hdr by (rule take_Cons_append_less)
  moreover have "10 \<notin> set (take (k - 1) l)" and "take (k - 1) l \<noteq> []"
    using assms(2-4) hdr by (auto dest: in_set_takeD)
  ultimately show "parse_value sz (unread (feed (take k (serialize_resp2 v)) p)) = Err InvalidFormat"
    using assms(5,6) t by (simp add: parse_value_cut_header)
qed simp

theorem cut_header_is_fatal_witness:
  "parse 32 (feed (take 2 (serialize_resp2 (BulkString (Some [107])))) RespParser_new) = Err InvalidFormat"
  by (rule cut_header_is_fatal [where hdr = "[36, 49, 13]" and body = "[107, 13, 10]"])
     (simp_all add: wire_simps dec_int_def dec_nat.simps [of "Suc 0"] digit_byte_def)

text \<open>When the cut falls into the data of a bulk string the parser waits,
  unchanged, and returns the value once the rest has arrived.\<close>

theorem cut_body_waits:
  assumes "length d \<le> MAX_VALUE_SIZE" and "j < length d + 2" and "parser_inv p" and "unread p = []"
    and "p1 = feed (36 # dec_int (int (length d)) @ crlf @ take j (d @ crlf)) p"
  shows "parse sz p1 = Ok (None, p1) \<and>
    (\<exists>p2. parse sz (feed (drop j (d @ crlf)) p1) = Ok (Some (BulkString (Some d)), p2) \<and>
           parser_inv p2 \<and> unread p2 = [])"
proof
  have len: "in_i64 (int (length d))"
    using assms(1) by (simp add: in_i64_def MAX_VALUE_SIZE_def)
  have u: "unread p1 = 36 # dec_int (int (length d)) @ 13 # 10 # take j (d @ crlf)"
    using assms(3-5) by simp
  have "parse_bulk_string (dec_int (int (length d)) @ 13 # 10 # take j (d @ crlf)) = Err Incomplete"
  proof (cases "j < length d")
    case True
    with assms(1) show ?thesis
      by (simp add: parse_bulk_string_def read_i64_line_dec [OF len] read_exact_or_incomplete_def)
  next
    case False
    with assms(2) have "take j (d @ crlf) = d @ take (j - length d) crlf" and "j - length d < 2"
      by auto
    with assms(1) show ?thesis
      by (simp add: parse_bulk_string_def read_i64_line_dec [OF len] read_exact_or_incomplete_def Let_def)
  qed
  with u show "parse sz p1 = Ok (None, p1)"
    using assms(3,5) by (intro parse_waits) (simp_all add: parse_value_Cons)
  have "unread (feed (drop j (d @ crlf)) p1) =
      36 # dec_int (int (length d)) @ 13 # 10 # take j (d @ crlf) @ drop j (d @ crlf)"
    using u assms(3,5) by simp
  also have "\<dots> = serialize_resp2 (BulkString (Some d))"
    by (simp only: append_take_drop_id wire_simps) simp
  finally show "\<exists>p2. parse sz (feed (drop j (d @ crlf)) p1) = Ok (Some (BulkString (Some d)), p2) \<and>
      parser_inv p2 \<and> unread p2 = []"
    using assms(1,3,5) parse_serialized [of sz "BulkString (Some d)" "[]"] by (intro parse_Some) simp_all
qed

theorem cut_body_waits_witness:
  "\<exists>p2. parse 32 (feed [13, 10] (feed [36, 49, 13, 10, 107] RespParser_new)) =
     Ok (Some (BulkString (Some [107])), p2) \<and> parser_inv p2 \<and> unread p2 = []"
  using cut_body_waits [of "[107]" 1 RespParser_new "feed [36, 49, 13, 10, 107] RespParser_new" 32]
  by (simp add: MAX_VALUE_SIZE_def dec_int_def dec_nat.simps [of "Suc 0"] digit_byte_def)

text \<open>C30 (announced_count_panics). An array header whose announced count does not fit a vector
  unwinds the connection's task before any element has been sent.\<close>

theorem announced_count_panics:
  assumes "n < 2 ^ 63" and "isize_max < n * sz"
  shows "parse_value sz (42 # dec_int (int n) @ crlf @ rest) = Panic Capacity_Overflow"
  using assms
  by (simp add: parse_value_Cons parse_array.simps read_i64_line_dec in_i64_of_nat isize_max_def)

theorem announced_count_panics_witness:
  "parse_value 32 (42 # dec_int (int (2 ^ 62)) @ crlf @ []) = Panic Capacity_Overflow"
  by (rule announced_count_panics) (simp_all add: isize_max_def)

end
