(* ===== verification/Command.thy ===== *)
theory Command
  imports Resp_Codec
begin

text \<open>
  \<open>protocol/command.rs\<close>: the commands, and their extraction from a RESP value. \<open>u\<close> holds the
  Unicode tables \<open>to_uppercase\<close> uses for characters outside ASCII. A \<open>u64\<close> is a \<open>nat\<close>.
\<close>

section \<open>Commands and errors\<close>

datatype command =
    Ping "bytes option"
  | Set key val "nat option"
  | Get key
  | Del "key list"
  | Expire key nat
  | Ttl key
  | Info "bytes option"

datatype command_error =
    Cmd_InvalidFormat
  | Cmd_EmptyCommand
  | Cmd_UnknownCommand bytes
  | Cmd_WrongArgCount
  | Cmd_InvalidArgument

text \<open>\<open>#[derive(Debug)]\<close>, which the handler prints into its error replies.\<close>

fun debug_command_error :: "unicode \<Rightarrow> command_error \<Rightarrow> bytes" where
  "debug_command_error u Cmd_InvalidFormat = ascii ''InvalidFormat''"
| "debug_command_error u Cmd_EmptyCommand = ascii ''EmptyCommand''"
| "debug_command_error u (Cmd_UnknownCommand name) =
     ascii ''UnknownCommand('' @ debug_str u name @ ascii '')''"
| "debug_command_error u Cmd_WrongArgCount = ascii ''WrongArgCount''"
| "debug_command_error u Cmd_InvalidArgument = ascii ''InvalidArgument''"

section \<open>Arguments\<close>

fun extract_bulk_string :: "resp_value \<Rightarrow> (bytes, command_error) outcome" where
  "extract_bulk_string (BulkString (Some bs)) = Ok bs"
| "extract_bulk_string (BulkString None) = Err Cmd_InvalidArgument"
| "extract_bulk_string _ = Err Cmd_InvalidFormat"

fun extract_integer :: "resp_value \<Rightarrow> (int, command_error) outcome" where
  "extract_integer (Integer n) = Ok n"
| "extract_integer (BulkString (Some bs)) =
     (case parse_i64 (from_utf8_lossy bs) of None \<Rightarrow> Err Cmd_InvalidArgument | Some n \<Rightarrow> Ok n)"
| "extract_integer (BulkString None) = Err Cmd_InvalidArgument"
| "extract_integer _ = Err Cmd_InvalidFormat"

section \<open>The seven commands\<close>

definition parse_ping :: "resp_value list \<Rightarrow> (command, command_error) outcome" where
  "parse_ping args =
     (case args of
        [] \<Rightarrow> Ok (Ping None)
      | [a] \<Rightarrow> and_then (extract_bulk_string a) (\<lambda>msg. Ok (Ping (Some msg)))
      | _ \<Rightarrow> Err Cmd_WrongArgCount)"

text \<open>The loop \<open>while i < args.len()\<close> over the options.\<close>

function parse_set_options ::
    "unicode \<Rightarrow> resp_value list \<Rightarrow> nat \<Rightarrow> nat option \<Rightarrow> (nat option, command_error) outcome" where
  "parse_set_options u args i ttl =
     (if i < length args then
        and_then (extract_bulk_string (args ! i)) (\<lambda>option.
          if to_uppercase u (from_utf8_lossy option) = ascii ''EX'' then
            (if length args \<le> i + 1 then Err Cmd_WrongArgCount
             else and_then (extract_integer (args ! (i + 1))) (\<lambda>seconds.
               if seconds < 0 then Err Cmd_InvalidArgument
               else parse_set_options u args (i + 2) (Some (nat seconds))))
          else Err Cmd_InvalidArgument)
      else Ok ttl)"
  by pat_completeness auto
termination
  by (relation "measure (\<lambda>(u, args, i, ttl). length args - i)") auto

declare parse_set_options.simps [simp del]

definition parse_set :: "unicode \<Rightarrow> resp_value list \<Rightarrow> (command, command_error) outcome" where
  "parse_set u args =
     (if length args < 2 then Err Cmd_WrongArgCount
      else and_then (extract_bulk_string (args ! 0)) (\<lambda>key.
        and_then (extract_bulk_string (args ! 1)) (\<lambda>value.
          and_then (parse_set_options u args 2 None) (\<lambda>ttl. Ok (Set key (String value) ttl)))))"

definition parse_get :: "resp_value list \<Rightarrow> (command, command_error) outcome" where
  "parse_get args =
     (if length args \<noteq> 1 then Err Cmd_WrongArgCount
      else and_then (extract_bulk_string (args ! 0)) (\<lambda>key. Ok (Get key)))"

text \<open>The loop \<open>for arg in args { keys.push(extract_bulk_string(arg)?) }\<close>.\<close>

fun extract_keys :: "key list \<Rightarrow> resp_value list \<Rightarrow> (key list, command_error) outcome" where
  "extract_keys keys [] = Ok keys"
| "extract_keys keys (arg # args) =
     and_then (extract_bulk_string arg) (\<lambda>key. extract_keys (keys @ [key]) args)"

definition parse_del :: "resp_value list \<Rightarrow> (command, command_error) outcome" where
  "parse_del args =
     (if args = [] then Err Cmd_WrongArgCount
      else and_then (extract_keys [] args) (\<lambda>keys. Ok (Del keys)))"

definition parse_expire :: "resp_value list \<Rightarrow> (command, command_error) outcome" where
  "parse_expire args =
     (if length args \<noteq> 2 then Err Cmd_WrongArgCount
      else and_then (extract_bulk_string (args ! 0)) (\<lambda>key.
        and_then (extract_integer (args ! 1)) (\<lambda>seconds.
          if seconds < 0 then Err Cmd_InvalidArgument else Ok (Expire key (nat seconds)))))"

definition parse_ttl :: "resp_value list \<Rightarrow> (command, command_error) outcome" where
  "parse_ttl args =
     (if length args \<noteq> 1 then Err Cmd_WrongArgCount
      else and_then (extract_bulk_string (args ! 0)) (\<lambda>key. Ok (Ttl key)))"

definition parse_info :: "resp_value list \<Rightarrow> (command, command_error) outcome" where
  "parse_info args =
     (if args = [] then Ok (Info None)
      else and_then (extract_bulk_string (args ! 0)) (\<lambda>s. Ok (Info (Some (from_utf8_lossy s)))))"

definition dispatch :: "unicode \<Rightarrow> bytes \<Rightarrow> resp_value list \<Rightarrow> (command, command_error) outcome" where
  "dispatch u cmd_name args =
     (if cmd_name = ascii ''PING'' then parse_ping args
      else if cmd_name = ascii ''SET'' then parse_set u args
      else if cmd_name = ascii ''GET'' then parse_get args
      else if cmd_name = ascii ''DEL'' then parse_del args
      else if cmd_name = ascii ''EXPIRE'' then parse_expire args
      else if cmd_name = ascii ''TTL'' then parse_ttl args
      else if cmd_name = ascii ''INFO'' then parse_info args
      else Err (Cmd_UnknownCommand cmd_name))"

fun from_resp :: "unicode \<Rightarrow> resp_value \<Rightarrow> (command, command_error) outcome" where
  "from_resp u (Array (Some (BulkString (Some bs) # args))) =
     dispatch u (to_uppercase u (from_utf8_lossy bs)) args"
| "from_resp u (Array (Some [])) = Err Cmd_EmptyCommand"
| "from_resp u (Array (Some (_ # _))) = Err Cmd_InvalidFormat"
| "from_resp u (Array None) = Err Cmd_EmptyCommand"
| "from_resp u _ = Err Cmd_InvalidFormat"

text \<open>
  What every extracted command satisfies: seconds are the non-negative part of \<open>i64\<close>, a DEL
  names at least one key, a section is a string.
\<close>

fun ttl_ok :: "nat option \<Rightarrow> bool" where
  "ttl_ok None = True"
| "ttl_ok (Some s) = (s < 2 ^ 63)"

fun command_ok :: "command \<Rightarrow> bool" where
  "command_ok (Set k v ttl) = ttl_ok ttl"
| "command_ok (Expire k s) = (s < 2 ^ 63)"
| "command_ok (Del ks) = (ks \<noteq> [])"
| "command_ok (Info (Some s)) = utf8_valid s"
| "command_ok _ = True"

text \<open>How a client writes a command: an array of bulk strings.\<close>

definition bulk :: "bytes \<Rightarrow> resp_value" where
  "bulk bs = BulkString (Some bs)"

fun command_words :: "command \<Rightarrow> bytes list" where
  "command_words (Ping None) = [ascii ''PING'']"
| "command_words (Ping (Some msg)) = [ascii ''PING'', msg]"
| "command_words (Set k v None) = [ascii ''SET'', k, as_bytes v]"
| "command_words (Set k v (Some s)) = [ascii ''SET'', k, as_bytes v, ascii ''EX'', dec_int (int s)]"
| "command_words (Get k) = [ascii ''GET'', k]"
| "command_words (Del ks) = ascii ''DEL'' # ks"
| "command_words (Expire k s) = [ascii ''EXPIRE'', k, dec_int (int s)]"
| "command_words (Ttl k) = [ascii ''TTL'', k]"
| "command_words (Info None) = [ascii ''INFO'']"
| "command_words (Info (Some s)) = [ascii ''INFO'', s]"

definition request :: "command \<Rightarrow> resp_value" where
  "request c = Array (Some (map bulk (command_words c)))"

section \<open>Lemmas\<close>

lemma extract_bulk [simp]: "extract_bulk_string (bulk bs) = Ok bs"
  by (simp add: bulk_def)

lemma extract_bulk_string_Ok: "extract_bulk_string v = Ok bs \<longleftrightarrow> v = bulk bs"
  by (cases v rule: extract_bulk_string.cases) (auto simp: bulk_def)

lemma extract_integer_dec [simp]: "in_i64 n \<Longrightarrow> extract_integer (bulk (dec_int n)) = Ok n"
  by (simp add: bulk_def from_utf8_lossy_valid wire_simps)

lemma extract_integer_range: "extract_integer v = Ok n \<Longrightarrow> wire_ok sz v \<Longrightarrow> in_i64 n"
  by (cases v rule: extract_integer.cases) (auto split: option.splits dest: parse_i64_range)

lemma extract_keys_bulk [simp]: "extract_keys ks (map bulk js) = Ok (ks @ js)"
  by (induction js arbitrary: ks) auto

lemma extract_keys_Ok: "extract_keys ks args = Ok js \<Longrightarrow> \<exists>ns. js = ks @ ns \<and> args = map bulk ns"
proof (induction args arbitrary: ks)
  case Nil
  then show ?case by simp
next
  case (Cons a args)
  then obtain k ns where "a = bulk k" and "js = (ks @ [k]) @ ns" and "args = map bulk ns"
    by (fastforce simp: and_then_Ok_iff extract_bulk_string_Ok)
  then show ?case
    by (intro exI [of _ "k # ns"]) simp
qed

lemma to_uppercase_lossy_ascii:
  "\<forall>b\<in>set s. unat b < 128 \<Longrightarrow> to_uppercase u (from_utf8_lossy s) = map upper_byte s"
  by (simp add: from_utf8_lossy_valid utf8_valid_ascii to_uppercase_ascii)

lemma upper_literals [simp]:
  "to_uppercase u (from_utf8_lossy (ascii ''PING'')) = ascii ''PING''"
  "to_uppercase u (from_utf8_lossy (ascii ''SET'')) = ascii ''SET''"
  "to_uppercase u (from_utf8_lossy (ascii ''GET'')) = ascii ''GET''"
  "to_uppercase u (from_utf8_lossy (ascii ''DEL'')) = ascii ''DEL''"
  "to_uppercase u (from_utf8_lossy (ascii ''EXPIRE'')) = ascii ''EXPIRE''"
  "to_uppercase u (from_utf8_lossy (ascii ''TTL'')) = ascii ''TTL''"
  "to_uppercase u (from_utf8_lossy (ascii ''INFO'')) = ascii ''INFO''"
  "to_uppercase u (from_utf8_lossy (ascii ''EX'')) = ascii ''EX''"
  by (subst to_uppercase_lossy_ascii, simp, simp add: upper_byte_def)+

lemma parse_set_options_end [simp]: "length args \<le> i \<Longrightarrow> parse_set_options u args i ttl = Ok ttl"
  by (simp add: parse_set_options.simps)

lemma dispatch_literals:
  "dispatch u (ascii ''PING'') args = parse_ping args"
  "dispatch u (ascii ''SET'') args = parse_set u args"
  "dispatch u (ascii ''GET'') args = parse_get args"
  "dispatch u (ascii ''DEL'') args = parse_del args"
  "dispatch u (ascii ''EXPIRE'') args = parse_expire args"
  "dispatch u (ascii ''TTL'') args = parse_ttl args"
  "dispatch u (ascii ''INFO'') args = parse_info args"
  by (simp_all add: dispatch_def)

lemma from_resp_bulk:
  "from_resp u (Array (Some (bulk name # args))) = dispatch u (to_uppercase u (from_utf8_lossy name)) args"
  by (simp add: bulk_def)

lemmas command_parsers =
  parse_ping_def parse_set_def parse_get_def parse_del_def parse_expire_def parse_ttl_def parse_info_def

lemma from_resp_request: "command_ok c \<Longrightarrow> from_resp u (request c) = Ok c"
proof (cases c rule: command_words.cases)
  case (4 k v s)
  moreover assume "command_ok c"
  ultimately show ?thesis
    by (simp add: request_def from_resp_bulk dispatch_literals parse_set_def in_i64_of_nat
        parse_set_options.simps [of u _ 2] del: ascii_Cons)
qed (simp_all add: request_def from_resp_bulk dispatch_literals command_parsers in_i64_of_nat
      from_utf8_lossy_valid del: ascii_Cons)

lemma extract_integer_arg_range:
  "extract_integer (args ! i) = Ok n \<Longrightarrow> list_all (wire_ok sz) args \<Longrightarrow> i < length args \<Longrightarrow> in_i64 n"
  by (auto simp: list_all_length intro: extract_integer_range)

lemma parse_set_options_range:
  "parse_set_options u args i ttl = Ok t \<Longrightarrow> list_all (wire_ok sz) args \<Longrightarrow>
   ttl_ok ttl \<Longrightarrow> ttl_ok t"
proof (induction u args i ttl rule: parse_set_options.induct)
  case (1 u args i ttl)
  show ?case
  proof (cases "i < length args")
    case True
    with "1.prems"(1) obtain opt n where opt: "extract_bulk_string (args ! i) = Ok opt"
      and ex: "to_uppercase u (from_utf8_lossy opt) = ascii ''EX''"
      and n: "i + 1 < length args" "extract_integer (args ! (i + 1)) = Ok n" "0 \<le> n"
      and rest: "parse_set_options u args (i + 2) (Some (nat n)) = Ok t"
      by (subst (asm) parse_set_options.simps)
         (auto simp: and_then_Ok_iff split: if_splits)
    have "in_i64 n"
      using n(2) "1.prems"(2) n(1) by (rule extract_integer_arg_range)
    then have bound: "ttl_ok (Some (nat n))"
      using n(3) by (auto simp: in_i64_def nat_less_iff)
    show ?thesis
      by (rule "1.IH" [OF True opt ex _ n(2)]) (use n rest bound "1.prems" in \<open>simp_all del: ttl_ok.simps\<close>)
  next
    case False
    with "1.prems" show ?thesis by simp
  qed
qed

lemma parse_set_options_last:
  "list_all (\<lambda>s. s < 2 ^ 63) ss \<Longrightarrow> i = length pre \<Longrightarrow>
   parse_set_options u (pre @ concat (map (\<lambda>s. [bulk (ascii ''EX''), bulk (dec_int (int s))]) ss)) i ttl =
     Ok (if ss = [] then ttl else Some (last ss))"
proof (induction ss arbitrary: pre i ttl)
  case Nil
  then show ?case by simp
next
  case (Cons s ss)
  let ?ex = "[bulk (ascii ''EX''), bulk (dec_int (int s))]"
  from Cons.prems Cons.IH [of "i + 2" "pre @ ?ex" "Some s"] show ?case
    by (subst parse_set_options.simps) (auto simp: nth_append in_i64_of_nat simp del: ascii_Cons)
qed

lemma from_resp_shape:
  "from_resp u v = Ok c \<Longrightarrow> \<exists>name args. v = Array (Some (bulk name # args))"
  by (cases "(u, v)" rule: from_resp.cases) (auto simp: bulk_def)

lemma dispatch_command_ok:
  assumes "dispatch u name args = Ok c" and "list_all (wire_ok sz) args"
  shows "command_ok c"
proof -
  have "command_ok c" if "parse_set u args = Ok c"
    using that assms(2)
    by (auto simp: parse_set_def and_then_Ok_iff split: if_splits
        dest!: parse_set_options_range [OF _ assms(2)])
  moreover have "command_ok c" if "parse_expire args = Ok c"
  proof -
    from that obtain n where "extract_integer (args ! 1) = Ok n" "0 \<le> n" "length args = 2"
      and c: "\<exists>k. c = Expire k (nat n)"
      by (auto simp: parse_expire_def and_then_Ok_iff split: if_splits)
    then have "in_i64 n"
      using extract_integer_arg_range [OF _ assms(2), of 1 n] by simp
    with c \<open>0 \<le> n\<close> show ?thesis
      by (auto simp: in_i64_def nat_less_iff)
  qed
  ultimately show ?thesis
    using assms(1)
    by (auto simp: dispatch_def parse_ping_def parse_get_def parse_del_def parse_ttl_def parse_info_def
        and_then_Ok_iff split: if_splits list.splits dest!: extract_keys_Ok)
qed

lemma bulk_wire_ok [simp]: "wire_ok sz (bulk bs) \<longleftrightarrow> length bs \<le> MAX_VALUE_SIZE"
  by (simp add: bulk_def)

section \<open>Properties\<close>

text \<open>C15 (request_roundtrip). A command written by a client as an array of bulk strings comes out
  of the parser and \<open>from_resp\<close> as the same command, with the input behind it untouched.\<close>

theorem request_roundtrip:
  assumes "command_ok c" and "wire_ok sz (request c)"
  shows "parse_value sz (serialize_resp2 (request c) @ rest) = Ok (request c, rest) \<and>
    from_resp u (request c) = Ok c"
  using assms by (simp add: parse_serialized from_resp_request)

theorem request_roundtrip_witness:
  "from_resp identity_unicode (request (Set [107] (String [118]) (Some 60))) = Ok (Set [107] (String [118]) (Some 60))"
proof -
  have "wire_ok 32 (request (Set [107] (String [118]) (Some 60)))"
    by (simp add: request_def in_i64_def isize_max_def MAX_VALUE_SIZE_def dec_int_def
        dec_nat.simps [of 60] dec_nat.simps [of 6])
  with request_roundtrip [of "Set [107] (String [118]) (Some 60)" 32 "[]" identity_unicode] show ?thesis
    by simp
qed

text \<open>C31 (accepted_commands_ok). Every command accepted from a value the parser can return is an
  array that starts with a bulk string, and the command is well formed: expiry times are
  below \<open>2^63\<close> seconds, a DEL has a key, an INFO section is a string.\<close>

theorem accepted_commands_ok:
  assumes "wire_ok sz v" and "from_resp u v = Ok c"
  shows "command_ok c \<and> (\<exists>name args. v = Array (Some (bulk name # args)))"
proof -
  obtain name args where v: "v = Array (Some (bulk name # args))"
    using from_resp_shape [OF assms(2)] by blast
  with assms have "dispatch u (to_uppercase u (from_utf8_lossy name)) args = Ok c"
    and "list_all (wire_ok sz) args"
    by (simp_all add: from_resp_bulk)
  with v show ?thesis
    by (auto intro: dispatch_command_ok)
qed

theorem accepted_commands_ok_witness:
  "command_ok (Expire [107] 9) \<and> (\<exists>name args. request (Expire [107] 9) = Array (Some (bulk name # args)))"
proof (rule accepted_commands_ok [of 32 _ identity_unicode])
  show "wire_ok 32 (request (Expire [107] 9))"
    by (simp add: request_def in_i64_def isize_max_def MAX_VALUE_SIZE_def dec_int_def dec_nat.simps [of 9])
  show "from_resp identity_unicode (request (Expire [107] 9)) = Ok (Expire [107] 9)"
    by (simp add: from_resp_request)
qed

text \<open>SET accepts any number of \<open>EX seconds\<close> options; the last one
  is the expiry of the key.\<close>

theorem last_expiry_option_wins:
  assumes "list_all (\<lambda>s. s < 2 ^ 63) ss"
  shows "from_resp u (Array (Some (bulk (ascii ''SET'') # bulk k # bulk v #
      concat (map (\<lambda>s. [bulk (ascii ''EX''), bulk (dec_int (int s))]) ss)))) =
    Ok (Set k (String v) (if ss = [] then None else Some (last ss)))"
  using parse_set_options_last [OF assms, of 2 "[bulk k, bulk v]" u None]
  by (simp add: from_resp_bulk dispatch_literals parse_set_def del: ascii_Cons)

theorem last_expiry_option_wins_witness:
  "from_resp identity_unicode (Array (Some (bulk (ascii ''SET'') # bulk [107] # bulk [118] #
      concat (map (\<lambda>s. [bulk (ascii ''EX''), bulk (dec_int (int s))]) [5, 60])))) =
    Ok (Set [107] (String [118]) (Some 60))"
  using last_expiry_option_wins [of "[5, 60]" identity_unicode "[107]" "[118]"] by (simp del: ascii_Cons)

text \<open>EXPIRE takes its seconds as any text that \<open>i64::from_str\<close> accepts and
  refuses negative numbers and everything else as \<open>InvalidArgument\<close>.\<close>

theorem expiry_argument:
  "from_resp u (Array (Some [bulk (ascii ''EXPIRE''), bulk k, bulk arg])) =
     (case parse_i64 (from_utf8_lossy arg) of
        None \<Rightarrow> Err Cmd_InvalidArgument
      | Some n \<Rightarrow> if n < 0 then Err Cmd_InvalidArgument else Ok (Expire k (nat n)))"
  by (simp add: from_resp_bulk dispatch_literals parse_expire_def bulk_def split: option.split
      del: ascii_Cons)

text \<open>How many arguments each command takes: PING none or one, GET and TTL
  one, DEL at least one; INFO any number, of which it reads the first.\<close>

theorem argument_counts:
  "from_resp u (Array (Some (map bulk (ascii ''PING'' # ws)))) =
     (case ws of [] \<Rightarrow> Ok (Ping None) | [m] \<Rightarrow> Ok (Ping (Some m)) | _ \<Rightarrow> Err Cmd_WrongArgCount) \<and>
   from_resp u (Array (Some (map bulk (ascii ''GET'' # ws)))) =
     (case ws of [k] \<Rightarrow> Ok (Get k) | _ \<Rightarrow> Err Cmd_WrongArgCount) \<and>
   from_resp u (Array (Some (map bulk (ascii ''TTL'' # ws)))) =
     (case ws of [k] \<Rightarrow> Ok (Ttl k) | _ \<Rightarrow> Err Cmd_WrongArgCount) \<and>
   from_resp u (Array (Some (map bulk (ascii ''DEL'' # ws)))) =
     (if ws = [] then Err Cmd_WrongArgCount else Ok (Del ws)) \<and>
   from_resp u (Array (Some (map bulk (ascii ''INFO'' # ws)))) =
     (case ws of [] \<Rightarrow> Ok (Info None) | s # _ \<Rightarrow> Ok (Info (Some (from_utf8_lossy s))))"
  by (simp add: from_resp_bulk dispatch_literals command_parsers del: ascii_Cons split: list.split)

end
