(* ===== verification/Shard.thy ===== *)
theory Shard
  imports Entry Command
begin

text \<open>
  \<open>shard/shard.rs\<close>: the state of a shard and the commands it executes. Every handler takes
  the clock reading \<open>t\<close> and the state, and returns the response with the new state, or the
  panic that unwinds the worker. \<open>cmd_set\<close> reads the clock a second time (\<open>t'\<close>) for the
  metadata of the entry.
\<close>

section \<open>State\<close>

text \<open>What the compiler decides: \<open>size_of::<Entry>()\<close> and whether arithmetic is checked.\<close>

record build =
  entry_size :: nat
  overflow_checks :: bool

record shard_metrics =
  commands_processed :: u64
  keys_expired :: u64
  snapshots_written :: u64
  snapshots_skipped :: u64
  snapshot_write_errors :: u64
  key_count :: usize
  memory_bytes :: usize
  queue_depth :: usize
  start_time :: instant

record shard =
  sid :: shard_id
  data :: "(key, entry) hashmap"
  ttl_queue :: "expiry heap"
  metrics :: shard_metrics
  max_memory_bytes :: nat
  max_keys :: nat

definition ShardMetrics_new :: "instant \<Rightarrow> shard_metrics" where
  "ShardMetrics_new now =
     \<lparr>commands_processed = 0, keys_expired = 0, snapshots_written = 0, snapshots_skipped = 0,
      snapshot_write_errors = 0, key_count = 0, memory_bytes = 0, queue_depth = 0,
      start_time = now\<rparr>"

definition Shard_new :: "instant \<Rightarrow> shard_id \<Rightarrow> shard" where
  "Shard_new now i =
     \<lparr>sid = i, data = [], ttl_queue = [], metrics = ShardMetrics_new now,
      max_memory_bytes = MAX_MEMORY_PER_SHARD, max_keys = MAX_KEYS_PER_SHARD\<rparr>"

definition record_command :: "shard_metrics \<Rightarrow> shard_metrics" where
  "record_command m = m\<lparr>commands_processed := commands_processed m + 1\<rparr>"

definition uptime_seconds :: "instant \<Rightarrow> shard_metrics \<Rightarrow> nat" where
  "uptime_seconds now m = as_secs (duration_since now (start_time m))"

section \<open>Commands\<close>

type_synonym 'a run = "('a, unit) outcome"

text \<open>
  A \<open>Vec\<close> holds at most \<open>isize::MAX\<close> bytes, so this sum of sizes is kept exact; it enters
  the memory counter as a \<open>usize\<close>.
\<close>

definition entry_size_bytes :: "build \<Rightarrow> key \<Rightarrow> val \<Rightarrow> nat" where
  "entry_size_bytes b k v = length k + value_size_bytes v + entry_size b"

definition set_key_count :: "shard \<Rightarrow> shard" where
  "set_key_count s = s\<lparr>metrics := (metrics s)\<lparr>key_count := word_of_nat (hm_len (data s))\<rparr>\<rparr>"

definition count_expired :: "nat \<Rightarrow> shard \<Rightarrow> shard" where
  "count_expired n s =
     s\<lparr>metrics := (metrics s)\<lparr>keys_expired := keys_expired (metrics s) + word_of_nat n\<rparr>\<rparr>"

definition remove_key_update_metrics :: "build \<Rightarrow> key \<Rightarrow> shard \<Rightarrow> bool \<times> shard" where
  "remove_key_update_metrics b k s =
     (case hm_get (data s) k of
        Some old \<Rightarrow>
          let s' = s\<lparr>data := hm_remove k (data s)\<rparr>;
              old_size = entry_size_bytes b k (entry_value old);
              s'' = s'\<lparr>metrics := (metrics s')\<lparr>memory_bytes :=
                        memory_bytes (metrics s') - word_of_nat old_size\<rparr>\<rparr>
          in (True, set_key_count s'')
      | None \<Rightarrow> (False, s))"

definition cmd_ping :: "bytes option \<Rightarrow> response" where
  "cmd_ping message =
     (case message of
        None \<Rightarrow> RValue (Some (String (ascii ''PONG'')))
      | Some msg \<Rightarrow> RValue (Some (String msg)))"

text \<open>\<open>"ERR OOM command not allowed when used memory > 'maxmemory'"\<close>; 39 is the quote.\<close>

definition oom_message :: bytes where
  "oom_message = ascii ''ERR OOM command not allowed when used memory > '' @ [39] @
     ascii ''maxmemory'' @ [39]"

text \<open>\<open>ttl.map(|secs| Instant::now() + Duration::from_secs(secs))\<close>.\<close>

definition deadline :: "instant \<Rightarrow> nat option \<Rightarrow> instant option run" where
  "deadline t ttl =
     (case ttl of
        None \<Rightarrow> Ok None
      | Some secs \<Rightarrow> and_then (instant_add t (from_secs secs)) (\<lambda>x. Ok (Some x)))"

definition cmd_set ::
    "build \<Rightarrow> instant \<Rightarrow> instant \<Rightarrow> key \<Rightarrow> val \<Rightarrow> nat option \<Rightarrow> shard \<Rightarrow> (response \<times> shard) run" where
  "cmd_set b t t' k v ttl s =
     (if MAX_KEY_SIZE < length k then Ok (RError (ascii ''ERR key too large''), s)
      else if MAX_VALUE_SIZE < value_size_bytes v then Ok (RError (ascii ''ERR value too large''), s)
      else if \<not> hm_contains_key (data s) k \<and> max_keys s \<le> hm_len (data s)
      then Ok (RError (ascii ''ERR shard full''), s)
      else
        and_then (deadline t ttl) (\<lambda>exp.
          let new_size = entry_size_bytes b k v;
              old_size = (case hm_get (data s) k of
                            Some e \<Rightarrow> entry_size_bytes b k (entry_value e) | None \<Rightarrow> 0);
              current_memory = memory_bytes (metrics s)
          in and_then (usize_add (overflow_checks b) current_memory (word_of_nat new_size)) (\<lambda>sum.
             and_then (usize_sub (overflow_checks b) sum (word_of_nat old_size)) (\<lambda>projected.
               if max_memory_bytes s < unat projected
               then Ok (RError oom_message, s)
               else
                 let s1 = s\<lparr>data := hm_insert k (Entry_new t' v exp) (data s)\<rparr>;
                     s2 = (case exp of
                             Some x \<Rightarrow> s1\<lparr>ttl_queue := heap_push (Expiry x k) (ttl_queue s1)\<rparr>
                           | None \<Rightarrow> s1);
                     m1 = (if 0 < old_size
                           then (metrics s2)\<lparr>memory_bytes := memory_bytes (metrics s2) - word_of_nat old_size\<rparr>
                           else metrics s2);
                     m2 = m1\<lparr>memory_bytes := memory_bytes m1 + word_of_nat new_size\<rparr>
                 in Ok (ROk, set_key_count (s2\<lparr>metrics := m2\<rparr>))))))"

definition cmd_get :: "build \<Rightarrow> instant \<Rightarrow> key \<Rightarrow> shard \<Rightarrow> (response \<times> shard) run" where
  "cmd_get b t k s =
     (case hm_get (data s) k of
        None \<Rightarrow> Ok (RValue None, s)
      | Some e \<Rightarrow>
          if is_expired t e
          then Ok (RValue None, count_expired 1 (snd (remove_key_update_metrics b k s)))
          else
            (case hm_get (data s) k of
               None \<Rightarrow> Panic Unwrap_None
             | Some e' \<Rightarrow> Ok (RValue (Some (entry_value e')), s)))"

text \<open>The loop of \<open>cmd_del\<close>; \<open>deleted\<close> is its counter.\<close>

fun del_loop :: "build \<Rightarrow> key list \<Rightarrow> int \<Rightarrow> shard \<Rightarrow> int \<times> shard" where
  "del_loop b [] deleted s = (deleted, s)"
| "del_loop b (k # ks) deleted s =
     (let (removed, s') = remove_key_update_metrics b k s
      in del_loop b ks (if removed then deleted + 1 else deleted) s')"

definition cmd_del :: "build \<Rightarrow> key list \<Rightarrow> shard \<Rightarrow> (response \<times> shard) run" where
  "cmd_del b ks s = (let (deleted, s') = del_loop b ks 0 s in Ok (RInteger deleted, s'))"

definition cmd_expire :: "instant \<Rightarrow> key \<Rightarrow> nat \<Rightarrow> shard \<Rightarrow> (response \<times> shard) run" where
  "cmd_expire t k seconds s =
     (case hm_get (data s) k of
        Some e \<Rightarrow>
          and_then (instant_add t (from_secs seconds)) (\<lambda>x.
            Ok (RInteger 1,
                s\<lparr>data := hm_insert k (e\<lparr>entry_expiry := Some x\<rparr>) (data s),
                  ttl_queue := heap_push (Expiry x k) (ttl_queue s)\<rparr>))
      | None \<Rightarrow> Ok (RInteger 0, s))"

definition cmd_ttl :: "build \<Rightarrow> instant \<Rightarrow> key \<Rightarrow> shard \<Rightarrow> (response \<times> shard) run" where
  "cmd_ttl b t k s =
     (case hm_get (data s) k of
        None \<Rightarrow> Ok (RInteger (- 2), s)
      | Some e \<Rightarrow>
          (case entry_expiry e of
             None \<Rightarrow> Ok (RInteger (- 1), s)
           | Some exp \<Rightarrow>
               if exp \<le> t
               then Ok (RInteger (- 2), count_expired 1 (snd (remove_key_update_metrics b k s)))
               else Ok (RInteger (as_i64 (as_secs (duration_since exp t))), s)))"

text \<open>\<open>format!("name:{}\r\n", n)\<close>.\<close>

definition info_line :: "string \<Rightarrow> nat \<Rightarrow> bytes" where
  "info_line name n = ascii name @ [58] @ dec_nat n @ crlf"

definition cmd_info :: "instant \<Rightarrow> bytes option \<Rightarrow> shard \<Rightarrow> response" where
  "cmd_info t section s =
     (if section = None \<or> section = Some (ascii ''server'') then
        RValue (Some (String (ascii ''# Server'' @ crlf @
          info_line ''shard_id'' (as_usize (sid s)) @
          info_line ''uptime_seconds'' (uptime_seconds t (metrics s)))))
      else if section = Some (ascii ''stats'') then
        RValue (Some (String (ascii ''# Stats'' @ crlf @
          info_line ''total_commands_processed'' (unat (commands_processed (metrics s))) @
          info_line ''keys_expired'' (unat (keys_expired (metrics s))))))
      else if section = Some (ascii ''memory'') then
        RValue (Some (String (ascii ''# Memory'' @ crlf @
          info_line ''used_memory'' (unat (memory_bytes (metrics s))) @
          info_line ''key_count'' (unat (key_count (metrics s))))))
      else RError (ascii ''ERR unknown section''))"

fun run_command :: "build \<Rightarrow> instant \<Rightarrow> instant \<Rightarrow> command \<Rightarrow> shard \<Rightarrow> (response \<times> shard) run" where
  "run_command b t t' (Ping message) s = Ok (cmd_ping message, s)"
| "run_command b t t' (Set k v ttl) s = cmd_set b t t' k v ttl s"
| "run_command b t t' (Get k) s = cmd_get b t k s"
| "run_command b t t' (Del ks) s = cmd_del b ks s"
| "run_command b t t' (Expire k seconds) s = cmd_expire t k seconds s"
| "run_command b t t' (Ttl k) s = cmd_ttl b t k s"
| "run_command b t t' (Info section) s = Ok (cmd_info t section s, s)"

definition execute :: "build \<Rightarrow> instant \<Rightarrow> instant \<Rightarrow> command \<Rightarrow> shard \<Rightarrow> (response \<times> shard) run" where
  "execute b t t' c s =
     and_then (run_command b t t' c s) (\<lambda>(response, s').
       Ok (response, s'\<lparr>metrics := record_command (metrics s')\<rparr>))"

end
