(* ===== verification/Expiration.thy ===== *)
theory Expiration
  imports Shard
begin

text \<open>
  \<open>shard/expiration.rs\<close>: the periodic removal of expired keys. The loop's state is the map,
  the queue and the counter; it ends because every turn pops the queue.
\<close>

function expire_loop ::
    "instant \<Rightarrow> (key, entry) hashmap \<Rightarrow> expiry heap \<Rightarrow> nat \<Rightarrow>
     ((key, entry) hashmap \<times> expiry heap \<times> nat) run" where
  "expire_loop now d q n =
     (case heap_peek q of
        None \<Rightarrow> Ok (d, q, n)
      | Some x \<Rightarrow>
          if now < expiry_time x then Ok (d, q, n)
          else
            (case heap_pop q of
               None \<Rightarrow> Panic Unwrap_None
             | Some (x, q') \<Rightarrow>
                 (case hm_get d (expiry_key x) of
                    Some e \<Rightarrow>
                      if entry_expiry e = Some (expiry_time x) then
                        let d' = hm_remove (expiry_key x) d; n' = n + 1 in
                        if TTL_KEYS_PER_CHECK \<le> n' then Ok (d', q', n')
                        else expire_loop now d' q' n'
                      else expire_loop now d q' n
                  | None \<Rightarrow> expire_loop now d q' n)))"
  by pat_completeness auto
termination expire_loop
  by (relation "measure (\<lambda>(now, d, q, n). size (mset q))") (auto dest: ttl.pop_smaller)

declare expire_loop.simps [simp del]

definition expire_keys :: "instant \<Rightarrow> shard \<Rightarrow> shard run" where
  "expire_keys now s =
     and_then (expire_loop now (data s) (ttl_queue s) 0) (\<lambda>(d, q, expired_count).
       let s' = s\<lparr>data := d, ttl_queue := q\<rparr> in
       Ok (if 0 < expired_count then set_key_count (count_expired expired_count s') else s'))"

section \<open>The TTL queue covers the entries\<close>

text \<open>Every entry with an expiry time has an item with this time in the queue.\<close>

definition covered :: "(key, entry) hashmap \<Rightarrow> expiry heap \<Rightarrow> bool" where
  "covered d q \<longleftrightarrow>
     (\<forall>k e x. hm_get d k = Some e \<longrightarrow> entry_expiry e = Some x \<longrightarrow> Expiry x k \<in># mset q)"

text \<open>One key is gone, the rest as before; only keys whose time has come go.\<close>

definition only_expired_gone :: "instant \<Rightarrow> (key, entry) hashmap \<Rightarrow> (key, entry) hashmap \<Rightarrow> bool" where
  "only_expired_gone now d d' \<longleftrightarrow>
     (\<forall>k. hm_get d' k = hm_get d k \<or>
          hm_get d' k = None \<and> (\<exists>e. hm_get d k = Some e \<and> is_expired now e))"

lemma only_expired_gone_refl [simp]: "only_expired_gone now d d"
  by (simp add: only_expired_gone_def)

lemma only_expired_gone_trans:
  "only_expired_gone now d d' \<Longrightarrow> only_expired_gone now d' d'' \<Longrightarrow> only_expired_gone now d d''"
  unfolding only_expired_gone_def by metis

lemma only_expired_gone_remove:
  "hm_wf d \<Longrightarrow> hm_get d k = Some e \<Longrightarrow> is_expired now e \<Longrightarrow> only_expired_gone now d (hm_remove k d)"
  by (auto simp: only_expired_gone_def)

lemma covered_pop_stale:
  "covered d q \<Longrightarrow> heap_pop q = Some (x, q') \<Longrightarrow>
   (\<And>e. hm_get d (expiry_key x) = Some e \<Longrightarrow> entry_expiry e \<noteq> Some (expiry_time x)) \<Longrightarrow> covered d q'"
  unfolding covered_def by (metis expiry.sel ttl.pop_keeps)

lemma covered_pop_removed:
  "covered d q \<Longrightarrow> hm_wf d \<Longrightarrow> heap_pop q = Some (x, q') \<Longrightarrow> covered (hm_remove (expiry_key x) d) q'"
  unfolding covered_def by (metis expiry.sel(2) ttl.pop_keeps hm.get_del option.distinct(1))

text \<open>One turn: what is popped is the head, and it is due.\<close>

lemma pop_due:
  "heap_peek q = Some y \<Longrightarrow> \<not> now < expiry_time y \<Longrightarrow> \<exists>q'. heap_pop q = Some (y, q') \<and> expiry_time y \<le> now"
  using ttl.peek_pop by fastforce

lemma expire_loop_cases:
  obtains (stop) "expire_loop now d q n = Ok (d, q, n)" "\<forall>y\<in>#mset q. now < expiry_time y"
  | (stale) x q' where "heap_pop q = Some (x, q')" "expiry_time x \<le> now"
      "\<And>e. hm_get d (expiry_key x) = Some e \<Longrightarrow> entry_expiry e \<noteq> Some (expiry_time x)"
      "expire_loop now d q n = expire_loop now d q' n"
  | (expire) x q' e where "heap_pop q = Some (x, q')" "expiry_time x \<le> now"
      "hm_get d (expiry_key x) = Some e" "entry_expiry e = Some (expiry_time x)"
      "expire_loop now d q n =
        (if TTL_KEYS_PER_CHECK \<le> n + 1 then Ok (hm_remove (expiry_key x) d, q', n + 1)
         else expire_loop now (hm_remove (expiry_key x) d) q' (n + 1))"
proof (cases "\<forall>x. heap_peek q = Some x \<longrightarrow> now < expiry_time x")
  case True
  then have "expire_loop now d q n = Ok (d, q, n)"
    by (subst expire_loop.simps) (auto split: option.split)
  moreover have "\<forall>y\<in>#mset q. now < expiry_time y"
    using True ttl.none_due by blast
  ultimately show ?thesis by (rule stop)
next
  case False
  then obtain x q' where x: "heap_peek q = Some x" "\<not> now < expiry_time x"
    and pop: "heap_pop q = Some (x, q')" "expiry_time x \<le> now"
    using pop_due by metis
  show ?thesis
  proof (cases "\<exists>e. hm_get d (expiry_key x) = Some e \<and> entry_expiry e = Some (expiry_time x)")
    case True
    then obtain e where "hm_get d (expiry_key x) = Some e" "entry_expiry e = Some (expiry_time x)"
      by blast
    with x pop show ?thesis
      by (intro expire) (auto simp: expire_loop.simps [of now d q n] Let_def)
  next
    case False
    with x pop show ?thesis
      by (intro stale) (auto simp: expire_loop.simps [of now d q n] split: option.split)
  qed
qed

lemma expire_loop_result:
  assumes "hm_wf d" and "n < TTL_KEYS_PER_CHECK"
  shows "\<exists>d' q' n'. expire_loop now d q n = Ok (d', q', n') \<and> hm_wf d' \<and>
     only_expired_gone now d d' \<and> hm_entries d' \<subseteq># hm_entries d \<and> n \<le> n' \<and> hm_len d' + n' = hm_len d + n \<and>
     n' \<le> TTL_KEYS_PER_CHECK \<and> (covered d q \<longrightarrow> covered d' q') \<and>
     (n' < TTL_KEYS_PER_CHECK \<longrightarrow> (\<forall>y\<in>#mset q'. now < expiry_time y)) \<and> mset q' \<subseteq># mset q"
  using assms
proof (induction "size (mset q)" arbitrary: d q n rule: less_induct)
  case less
  show ?case
  proof (cases rule: expire_loop_cases [of now d q n])
    case stop
    with less.prems show ?thesis by auto
  next
    case (stale x q')
    have "covered d q \<longrightarrow> covered d q'"
      using covered_pop_stale stale(1,3) by blast
    moreover have "mset q' \<subseteq># mset q"
      using ttl.content_pop [OF stale(1)] by simp
    ultimately show ?thesis
      using less.hyps [OF ttl.pop_smaller [OF stale(1)] less.prems] stale(4)
      by (auto intro: subset_mset.order_trans)
  next
    case (expire x q' e)
    define d1 where "d1 = hm_remove (expiry_key x) d"
    have d1: "hm_wf d1" "only_expired_gone now d d1" "covered d q \<longrightarrow> covered d1 q'"
      "hm_entries d1 \<subseteq># hm_entries d"
      using less.prems expire covered_pop_removed
      by (auto simp: d1_def is_expired_iff hm.del_subset intro: only_expired_gone_remove)
    have len: "hm_len d1 + 1 = hm_len d"
      using less.prems(1) expire(3) hm.len_pos [OF less.prems(1) expire(3)] by (simp add: d1_def)
    have sub: "mset q' \<subseteq># mset q"
      using ttl.content_pop [OF expire(1)] by simp
    show ?thesis
    proof (cases "TTL_KEYS_PER_CHECK \<le> n + 1")
      case True
      with less.prems(2) have "n + 1 = TTL_KEYS_PER_CHECK" by simp
      with expire(5) d1 len sub show ?thesis by (auto simp: d1_def)
    next
      case False
      with less.hyps [OF ttl.pop_smaller [OF expire(1)] d1(1), of "n + 1"] expire(5) d1 len sub
      show ?thesis
        by (fastforce simp: d1_def intro: subset_mset.order_trans only_expired_gone_trans)
    qed
  qed
qed

text \<open>What one call does to the shard, with no condition on the clock.\<close>

lemma expire_keys_result:
  assumes "hm_wf (data s)"
  shows "\<exists>s'. expire_keys now s = Ok s' \<and> hm_wf (data s') \<and>
     only_expired_gone now (data s) (data s') \<and> hm_entries (data s') \<subseteq># hm_entries (data s) \<and>
     hm_len (data s') \<le> hm_len (data s) \<and>
     hm_len (data s) - hm_len (data s') \<le> TTL_KEYS_PER_CHECK \<and>
     (covered (data s) (ttl_queue s) \<longrightarrow> covered (data s') (ttl_queue s')) \<and>
     (hm_len (data s) - hm_len (data s') < TTL_KEYS_PER_CHECK \<longrightarrow>
        (\<forall>y\<in>#mset (ttl_queue s'). now < expiry_time y)) \<and>
     (key_count (metrics s) = word_of_nat (hm_len (data s)) \<longrightarrow>
        key_count (metrics s') = word_of_nat (hm_len (data s'))) \<and>
     memory_bytes (metrics s') = memory_bytes (metrics s) \<and>
     max_keys s' = max_keys s \<and> max_memory_bytes s' = max_memory_bytes s \<and> sid s' = sid s"
proof -
  have "(0::nat) < TTL_KEYS_PER_CHECK"
    by (simp add: TTL_KEYS_PER_CHECK_def)
  from expire_loop_result [OF assms this, of now "ttl_queue s"]
  obtain d q n where r: "expire_loop now (data s) (ttl_queue s) 0 = Ok (d, q, n)" "hm_wf d"
      "only_expired_gone now (data s) d" "hm_entries d \<subseteq># hm_entries (data s)"
      "hm_len d + n = hm_len (data s)" "n \<le> TTL_KEYS_PER_CHECK"
      "covered (data s) (ttl_queue s) \<longrightarrow> covered d q"
      "n < TTL_KEYS_PER_CHECK \<longrightarrow> (\<forall>y\<in>#mset q. now < expiry_time y)"
    by auto
  then show ?thesis
    by (cases "0 < n") (auto simp: expire_keys_def Let_def set_key_count_def count_expired_def)
qed

end
