(* ===== verification/Shard_Invariants.thy ===== *)
theory Shard_Invariants
  imports Expiration
begin

text \<open>
  The invariant of a shard and its preservation by every command and by the expiration of
  keys: the store is a map within the limits, the queue covers every deadline, the key
  counter is exact, and the memory counter is never below what the entries take and never
  above the limit, so that the arithmetic of \<open>cmd_set\<close> and of the atomic counters is exact.
\<close>

section \<open>The invariant\<close>

definition keys_ok :: "shard \<Rightarrow> bool" where
  "keys_ok s \<longleftrightarrow>
     hm_wf (data s) \<and> covered (data s) (ttl_queue s) \<and>
     key_count (metrics s) = word_of_nat (hm_len (data s)) \<and> hm_len (data s) \<le> max_keys s \<and>
     (\<forall>k e. hm_get (data s) k = Some e \<longrightarrow>
        length k \<le> MAX_KEY_SIZE \<and> value_size_bytes (entry_value e) \<le> MAX_VALUE_SIZE \<and>
        (\<forall>x. entry_expiry e = Some x \<longrightarrow> x < instant_limit))"

text \<open>What the entries take, as \<open>entry_size_bytes\<close> counts it.\<close>

definition stored_bytes :: "build \<Rightarrow> shard \<Rightarrow> nat" where
  "stored_bytes b s = hm.total (\<lambda>k e. entry_size_bytes b k (entry_value e)) (data s)"

definition used_memory :: "shard \<Rightarrow> nat" where
  "used_memory s = unat (memory_bytes (metrics s))"

definition memory_ok :: "build \<Rightarrow> shard \<Rightarrow> bool" where
  "memory_ok b s \<longleftrightarrow> stored_bytes b s \<le> used_memory s \<and> used_memory s \<le> max_memory_bytes s \<and>
     max_memory_bytes s + MAX_KEY_SIZE + MAX_VALUE_SIZE + entry_size b < 2 ^ 64"

definition shard_ok :: "build \<Rightarrow> shard \<Rightarrow> bool" where
  "shard_ok b s \<longleftrightarrow> keys_ok s \<and> memory_ok b s"

text \<open>The counter's excess over the entries.\<close>

definition leaked :: "build \<Rightarrow> shard \<Rightarrow> nat" where
  "leaked b s = used_memory s - stored_bytes b s"

lemma shard_ok_wf: "shard_ok b s \<Longrightarrow> hm_wf (data s)"
  by (simp add: shard_ok_def keys_ok_def)

lemma entry_size_le:
  "keys_ok s \<Longrightarrow> hm_get (data s) k = Some e \<Longrightarrow>
   entry_size_bytes b k (entry_value e) \<le> MAX_KEY_SIZE + MAX_VALUE_SIZE + entry_size b"
  unfolding keys_ok_def entry_size_bytes_def by (metis add.commute add_le_mono add_le_cancel_left)

lemma stored_entry_le:
  "hm_wf (data s) \<Longrightarrow> hm_get (data s) k = Some e \<Longrightarrow>
   entry_size_bytes b k (entry_value e) \<le> stored_bytes b s"
  using hm.weight_le_total [of "data s" "\<lambda>k e. entry_size_bytes b k (entry_value e)" k]
  by (simp add: stored_bytes_def hm.weight_at_def)

lemma covered_mono: "covered d q \<Longrightarrow> mset q \<subseteq># mset q' \<Longrightarrow> covered d q'"
  unfolding covered_def by (meson mset_subset_eqD)

lemma covered_remove: "hm_wf d \<Longrightarrow> covered d q \<Longrightarrow> covered (hm_remove k d) q"
  unfolding covered_def by (metis hm.get_del option.distinct(1))

lemma covered_insert_None:
  "hm_wf d \<Longrightarrow> covered d q \<Longrightarrow> entry_expiry e = None \<Longrightarrow> covered (hm_insert k e d) q"
  by (auto simp: covered_def split: if_splits)

lemma covered_insert_Some:
  "hm_wf d \<Longrightarrow> covered d q \<Longrightarrow> entry_expiry e = Some x \<Longrightarrow>
   covered (hm_insert k e d) (heap_push (Expiry x k) q)"
  by (auto simp: covered_def heap_push_def)

lemma metrics_simps [simp]:
  "data (set_key_count s) = data s" "ttl_queue (set_key_count s) = ttl_queue s"
  "max_keys (set_key_count s) = max_keys s" "max_memory_bytes (set_key_count s) = max_memory_bytes s"
  "sid (set_key_count s) = sid s" "used_memory (set_key_count s) = used_memory s"
  "key_count (metrics (set_key_count s)) = word_of_nat (hm_len (data s))"
  "data (count_expired n s) = data s" "ttl_queue (count_expired n s) = ttl_queue s"
  "max_keys (count_expired n s) = max_keys s" "max_memory_bytes (count_expired n s) = max_memory_bytes s"
  "sid (count_expired n s) = sid s" "used_memory (count_expired n s) = used_memory s"
  "key_count (metrics (count_expired n s)) = key_count (metrics s)"
  by (simp_all add: set_key_count_def count_expired_def used_memory_def)

text \<open>The invariant depends on these fields only.\<close>

lemma shard_ok_cong:
  "data s' = data s \<Longrightarrow> ttl_queue s' = ttl_queue s \<Longrightarrow> used_memory s' = used_memory s \<Longrightarrow>
   key_count (metrics s') = key_count (metrics s) \<Longrightarrow> max_keys s' = max_keys s \<Longrightarrow>
   max_memory_bytes s' = max_memory_bytes s \<Longrightarrow> shard_ok b s' = shard_ok b s"
  by (simp add: shard_ok_def keys_ok_def memory_ok_def stored_bytes_def)

lemma leaked_cong:
  "data s' = data s \<Longrightarrow> used_memory s' = used_memory s \<Longrightarrow> leaked b s' = leaked b s"
  by (simp add: leaked_def stored_bytes_def)

lemma shard_ok_count_expired [simp]: "shard_ok b (count_expired n s) = shard_ok b s"
  by (rule shard_ok_cong) simp_all

lemma leaked_count_expired [simp]: "leaked b (count_expired n s) = leaked b s"
  by (rule leaked_cong) simp_all

section \<open>Removing a key\<close>

lemma remove_key_None:
  "hm_get (data s) k = None \<Longrightarrow> remove_key_update_metrics b k s = (False, s)"
  by (simp add: remove_key_update_metrics_def)

lemma remove_key_Some:
  assumes "shard_ok b s" and "hm_get (data s) k = Some e"
  shows "\<exists>s'. remove_key_update_metrics b k s = (True, s') \<and> data s' = hm_remove k (data s) \<and>
     ttl_queue s' = ttl_queue s \<and> max_keys s' = max_keys s \<and>
     max_memory_bytes s' = max_memory_bytes s \<and> sid s' = sid s \<and>
     key_count (metrics s') = word_of_nat (hm_len (data s')) \<and>
     used_memory s' = used_memory s - entry_size_bytes b k (entry_value e) \<and>
     entry_size_bytes b k (entry_value e) \<le> used_memory s"
proof -
  have "entry_size_bytes b k (entry_value e) \<le> used_memory s"
    using assms stored_entry_le [of s k e b] by (auto simp: shard_ok_def memory_ok_def keys_ok_def)
  with assms(2) show ?thesis
    by (simp add: remove_key_update_metrics_def used_memory_def set_key_count_def unat_sub_nat)
qed

lemma stored_bytes_remove:
  "hm_wf (data s) \<Longrightarrow> hm_get (data s) k = Some e \<Longrightarrow> data s' = hm_remove k (data s) \<Longrightarrow>
   stored_bytes b s' + entry_size_bytes b k (entry_value e) = stored_bytes b s"
  using hm.total_del [of "data s" "\<lambda>k e. entry_size_bytes b k (entry_value e)" k]
  by (simp add: stored_bytes_def hm.weight_at_def)

lemma remove_key_ok:
  assumes "shard_ok b s"
  shows "shard_ok b (snd (remove_key_update_metrics b k s)) \<and>
         leaked b (snd (remove_key_update_metrics b k s)) = leaked b s"
proof (cases "hm_get (data s) k")
  case None
  with assms show ?thesis by (simp add: remove_key_None)
next
  case (Some e)
  obtain s' where s': "remove_key_update_metrics b k s = (True, s')" "data s' = hm_remove k (data s)"
      "ttl_queue s' = ttl_queue s" "max_keys s' = max_keys s"
      "max_memory_bytes s' = max_memory_bytes s"
      "key_count (metrics s') = word_of_nat (hm_len (data s'))"
      "used_memory s' = used_memory s - entry_size_bytes b k (entry_value e)"
      "entry_size_bytes b k (entry_value e) \<le> used_memory s"
    using remove_key_Some [OF assms Some] by blast
  note wf = shard_ok_wf [OF assms]
  have st: "stored_bytes b s' + entry_size_bytes b k (entry_value e) = stored_bytes b s"
    by (rule stored_bytes_remove [OF wf Some s'(2)])
  have "keys_ok s'"
    using assms wf s' by (auto simp: shard_ok_def keys_ok_def covered_remove)
  moreover have "memory_ok b s'"
    using assms st s'(5,7) by (auto simp: shard_ok_def memory_ok_def)
  ultimately show ?thesis
    using st s'(1,7) by (simp add: shard_ok_def leaked_def)
qed

lemma remove_key_expire_ok:
  "shard_ok b s \<Longrightarrow> shard_ok b (count_expired 1 (snd (remove_key_update_metrics b k s))) \<and>
     leaked b (count_expired 1 (snd (remove_key_update_metrics b k s))) = leaked b s"
  by (simp add: remove_key_ok)

section \<open>Storing a key\<close>

text \<open>What a successful \<open>cmd_set\<close> leaves.\<close>

definition set_stored :: "build \<Rightarrow> instant \<Rightarrow> key \<Rightarrow> val \<Rightarrow> instant option \<Rightarrow> shard \<Rightarrow> shard \<Rightarrow> bool" where
  "set_stored b t' k v exp s s' \<longleftrightarrow>
     data s' = hm_insert k (Entry_new t' v exp) (data s) \<and>
     ttl_queue s' = (case exp of None \<Rightarrow> ttl_queue s | Some x \<Rightarrow> heap_push (Expiry x k) (ttl_queue s)) \<and>
     max_keys s' = max_keys s \<and> max_memory_bytes s' = max_memory_bytes s \<and> sid s' = sid s \<and>
     key_count (metrics s') = word_of_nat (hm_len (data s')) \<and>
     length k \<le> MAX_KEY_SIZE \<and> value_size_bytes v \<le> MAX_VALUE_SIZE \<and>
     (\<forall>x. exp = Some x \<longrightarrow> x < instant_limit) \<and>
     hm_len (data s') \<le> max_keys s \<and>
     used_memory s' + hm.weight_at (\<lambda>k e. entry_size_bytes b k (entry_value e)) (data s) k =
       used_memory s + entry_size_bytes b k v \<and>
     used_memory s' \<le> max_memory_bytes s"

lemma deadline_cases:
  obtains (none) "ttl = None" "deadline t ttl = Ok None"
  | (some) n where "ttl = Some n" "deadline t ttl = Ok (Some (t + from_secs n))"
      "t + from_secs n < instant_limit"
  | (panic) n where "ttl = Some n" "deadline t ttl = Panic Instant_Overflow"
      "instant_limit \<le> t + from_secs n"
proof (cases ttl)
  case None
  then show ?thesis by (intro none) (simp_all add: deadline_def)
next
  case (Some n)
  then show ?thesis
    by (cases "t + from_secs n < instant_limit")
       (auto intro: some panic simp: deadline_def instant_add_def)
qed

lemma cmd_set_stored:
  assumes ok: "shard_ok b s" and d: "deadline t ttl = Ok exp"
    and size: "length k \<le> MAX_KEY_SIZE" "value_size_bytes v \<le> MAX_VALUE_SIZE"
    and slot: "hm_contains_key (data s) k \<or> hm_len (data s) < max_keys s"
  shows "if max_memory_bytes s < used_memory s + entry_size_bytes b k v -
              hm.weight_at (\<lambda>k e. entry_size_bytes b k (entry_value e)) (data s) k
         then cmd_set b t t' k v ttl s = Ok (RError oom_message, s)
         else \<exists>s'. cmd_set b t t' k v ttl s = Ok (ROk, s') \<and> set_stored b t' k v exp s s'"
proof -
  let ?w = "hm.weight_at (\<lambda>k e. entry_size_bytes b k (entry_value e)) (data s) k"
  let ?new = "entry_size_bytes b k v"
  note wf = shard_ok_wf [OF ok]
  have old: "(case hm_get (data s) k of Some e \<Rightarrow> entry_size_bytes b k (entry_value e) | None \<Rightarrow> 0) = ?w"
    by (simp add: hm.weight_at_def split: option.split)
  have w: "?w \<le> used_memory s"
    using ok hm.weight_le_total [OF wf] le_trans
    unfolding shard_ok_def memory_ok_def stored_bytes_def by blast
  have fit: "used_memory s + ?new < 2 ^ 64"
    using ok size by (simp add: shard_ok_def memory_ok_def entry_size_bytes_def)
  then have n64: "?new < 2 ^ 64" and w64: "?w < 2 ^ 64"
    using w by simp_all
  have add: "usize_add c (memory_bytes (metrics s)) (word_of_nat ?new)
      = Ok (memory_bytes (metrics s) + word_of_nat ?new)" for c
    using fit n64 by (intro usize_add_exact) (simp add: used_memory_def)
  have sum: "unat (memory_bytes (metrics s) + word_of_nat ?new) = used_memory s + ?new"
    using fit by (simp add: used_memory_def unat_add_nat)
  have sub: "usize_sub c (memory_bytes (metrics s) + word_of_nat ?new) (word_of_nat ?w)
      = Ok (memory_bytes (metrics s) + word_of_nat ?new - word_of_nat ?w)" for c
    using w w64 sum by (intro usize_sub_exact) (simp add: word_le_nat_alt)
  have proj: "unat (memory_bytes (metrics s) + word_of_nat ?new - word_of_nat ?w) = used_memory s + ?new - ?w"
    using w sum by (subst unat_sub_nat) simp_all
  have upd: "unat ((if 0 < ?w then memory_bytes (metrics s) - word_of_nat ?w else memory_bytes (metrics s))
      + word_of_nat ?new) = used_memory s + ?new - ?w"
    using w fit by (auto simp: used_memory_def unat_sub_nat unat_add_nat)
  have slots: "hm_len (hm_insert k (Entry_new t' v exp) (data s)) \<le> max_keys s"
    using ok wf slot by (auto simp: shard_ok_def keys_ok_def hm_contains_key_def)
  have lim: "exp = Some x \<Longrightarrow> x < instant_limit" for x
    using d by (cases rule: deadline_cases [of ttl t]) auto
  have pre: "\<not> MAX_KEY_SIZE < length k" "\<not> MAX_VALUE_SIZE < value_size_bytes v"
      "\<not> (\<not> hm_contains_key (data s) k \<and> max_keys s \<le> hm_len (data s))"
    using size slot by auto
  show ?thesis
  proof (cases "max_memory_bytes s < used_memory s + ?new - ?w")
    case True
    then show ?thesis
      using pre by (auto simp: cmd_set_def d old add sub proj Let_def)
  next
    case False
    show ?thesis
      using pre False slots w size upd lim
      by (cases exp) (auto simp: cmd_set_def d old add sub proj Let_def set_stored_def
          set_key_count_def used_memory_def)
  qed
qed

lemma cmd_set_cases:
  assumes "shard_ok b s"
  obtains (refused) msg where "cmd_set b t t' k v ttl s = Ok (RError msg, s)"
  | (overflow) n where "ttl = Some n" "instant_limit \<le> t + from_secs n"
      "cmd_set b t t' k v ttl s = Panic Instant_Overflow"
  | (stored) exp s' where "deadline t ttl = Ok exp" "cmd_set b t t' k v ttl s = Ok (ROk, s')"
      "set_stored b t' k v exp s s'"
proof (cases "length k \<le> MAX_KEY_SIZE \<and> value_size_bytes v \<le> MAX_VALUE_SIZE \<and>
    (hm_contains_key (data s) k \<or> hm_len (data s) < max_keys s)")
  case False
  then show ?thesis
    using refused by (force simp: cmd_set_def not_le not_less)
next
  case True
  show ?thesis
  proof (cases rule: deadline_cases [of ttl t])
    case (panic n)
    with True show ?thesis
      by (intro overflow) (auto simp: cmd_set_def)
  next
    case none
    with cmd_set_stored [OF assms none(2), of k v t'] True show ?thesis
      by (auto split: if_splits intro: refused stored)
  next
    case (some n)
    with cmd_set_stored [OF assms some(2), of k v t'] True show ?thesis
      by (auto split: if_splits intro: refused stored)
  qed
qed

lemma set_stored_keys:
  assumes "keys_ok s" and "set_stored b t' k v exp s s'"
  shows "keys_ok s'"
proof -
  have wf: "hm_wf (data s)" and cov: "covered (data s) (ttl_queue s)"
    using assms(1) by (auto simp: keys_ok_def)
  have "covered (data s') (ttl_queue s')"
    using assms(2) wf cov
    by (cases exp) (auto simp: set_stored_def intro: covered_insert_None covered_insert_Some)
  with assms show ?thesis
    by (auto simp: keys_ok_def set_stored_def split: if_splits)
qed

lemma set_stored_ok:
  assumes "shard_ok b s" and "set_stored b t' k v exp s s'"
  shows "shard_ok b s' \<and> leaked b s' = leaked b s"
proof -
  have "stored_bytes b s' + hm.weight_at (\<lambda>k e. entry_size_bytes b k (entry_value e)) (data s) k
      = stored_bytes b s + entry_size_bytes b k v"
    using assms hm.total_put [OF shard_ok_wf [OF assms(1)], of "\<lambda>k e. entry_size_bytes b k (entry_value e)" k
        "Entry_new t' v exp"]
    by (simp add: stored_bytes_def set_stored_def)
  with assms set_stored_keys show ?thesis
    by (auto simp: shard_ok_def memory_ok_def leaked_def set_stored_def)
qed

section \<open>Changing a deadline\<close>

lemma total_same_weight:
  "hm_wf d \<Longrightarrow> hm_get d k = Some e \<Longrightarrow> w k e' = w k e \<Longrightarrow>
   hm.total w (hm_insert k e' d) = hm.total w d"
  using hm.total_put [of d w k e'] by (simp add: hm.weight_at_def)

lemma set_deadline_ok:
  assumes "shard_ok b s" and "hm_get (data s) k = Some e" and "x < instant_limit"
  shows "shard_ok b (s\<lparr>data := hm_insert k (e\<lparr>entry_expiry := Some x\<rparr>) (data s),
                       ttl_queue := heap_push (Expiry x k) (ttl_queue s)\<rparr>) \<and>
         leaked b (s\<lparr>data := hm_insert k (e\<lparr>entry_expiry := Some x\<rparr>) (data s),
                       ttl_queue := heap_push (Expiry x k) (ttl_queue s)\<rparr>) = leaked b s"
proof -
  note wf = shard_ok_wf [OF assms(1)]
  have "stored_bytes b (s\<lparr>data := hm_insert k (e\<lparr>entry_expiry := Some x\<rparr>) (data s),
            ttl_queue := heap_push (Expiry x k) (ttl_queue s)\<rparr>) = stored_bytes b s"
    by (simp add: stored_bytes_def total_same_weight [OF wf assms(2)])
  with assms wf show ?thesis
    by (auto simp: shard_ok_def keys_ok_def memory_ok_def leaked_def used_memory_def
        intro: covered_insert_Some split: if_splits)
qed

lemma cmd_expire_cases:
  obtains (absent) "hm_get (data s) k = None" "cmd_expire t k n s = Ok (RInteger 0, s)"
  | (overflow) "instant_limit \<le> t + from_secs n" "cmd_expire t k n s = Panic Instant_Overflow"
      "hm_get (data s) k \<noteq> None"
  | (changed) e x where "hm_get (data s) k = Some e" "x = t + from_secs n" "x < instant_limit"
      "cmd_expire t k n s = Ok (RInteger 1,
         s\<lparr>data := hm_insert k (e\<lparr>entry_expiry := Some x\<rparr>) (data s),
           ttl_queue := heap_push (Expiry x k) (ttl_queue s)\<rparr>)"
proof (cases "hm_get (data s) k")
  case None
  then show ?thesis by (intro absent) (simp_all add: cmd_expire_def)
next
  case (Some e)
  then show ?thesis
    by (cases "instant_limit \<le> t + from_secs n")
       (auto intro: overflow changed simp: cmd_expire_def instant_add_def)
qed

section \<open>Every command keeps the invariant\<close>

lemma del_loop_ok:
  "shard_ok b s \<Longrightarrow> shard_ok b (snd (del_loop b ks n s)) \<and> leaked b (snd (del_loop b ks n s)) = leaked b s"
proof (induction ks arbitrary: n s)
  case Nil
  then show ?case by simp
next
  case (Cons k ks)
  obtain r s' where r: "remove_key_update_metrics b k s = (r, s')"
    by fastforce
  with remove_key_ok [OF Cons.prems, of k] have "shard_ok b s' \<and> leaked b s' = leaked b s"
    by simp
  with Cons.IH [of s'] r show ?case
    by (auto simp: Let_def)
qed

text \<open>The deadline a command asks for is representable.\<close>

definition deadline_fits :: "instant \<Rightarrow> command \<Rightarrow> bool" where
  "deadline_fits t c \<longleftrightarrow>
     (case c of
        Set k v (Some n) \<Rightarrow> t + from_secs n < instant_limit
      | Expire k n \<Rightarrow> t + from_secs n < instant_limit
      | _ \<Rightarrow> True)"

lemma run_command_ok:
  assumes "shard_ok b s" and "deadline_fits t c"
  shows "\<exists>r s'. run_command b t t' c s = Ok (r, s') \<and> shard_ok b s' \<and> leaked b s' = leaked b s"
proof (cases c)
  case (Set k v ttl)
  from assms(1) show ?thesis
  proof (cases rule: cmd_set_cases [of b s t t' k v ttl])
    case overflow
    with Set assms(2) show ?thesis by (simp add: deadline_fits_def)
  qed (use Set assms(1) set_stored_ok in auto)
next
  case (Get k)
  with assms(1) remove_key_expire_ok [of b s k] show ?thesis
    by (auto simp: cmd_get_def split: option.split)
next
  case (Del ks)
  with assms(1) del_loop_ok [of b s ks 0] show ?thesis
    by (cases "del_loop b ks 0 s") (simp add: cmd_del_def)
next
  case (Expire k n)
  show ?thesis
  proof (cases rule: cmd_expire_cases [of s k t n])
    case overflow
    with Expire assms(2) show ?thesis by (simp add: deadline_fits_def)
  qed (use Expire assms(1) set_deadline_ok in auto)
next
  case (Ttl k)
  with assms(1) remove_key_expire_ok [of b s k] show ?thesis
    by (auto simp: cmd_ttl_def split: option.split)
qed (use assms(1) in auto)

lemma record_command_ok [simp]:
  "shard_ok b (s\<lparr>metrics := record_command (metrics s)\<rparr>) = shard_ok b s"
  "leaked b (s\<lparr>metrics := record_command (metrics s)\<rparr>) = leaked b s"
  by (rule shard_ok_cong leaked_cong; simp add: record_command_def used_memory_def)+

lemma execute_ok:
  assumes "shard_ok b s" and "deadline_fits t c"
  shows "\<exists>r s'. execute b t t' c s = Ok (r, s') \<and> shard_ok b s' \<and> leaked b s' = leaked b s"
  using run_command_ok [OF assms, of t'] by (auto simp: execute_def)

section \<open>Expiration keeps the invariant, but not the memory account\<close>

lemma expire_keys_memory:
  assumes "shard_ok b s"
  shows "\<exists>s'. expire_keys now s = Ok s' \<and> shard_ok b s' \<and>
     used_memory s' = used_memory s \<and>
     leaked b s + entry_size b * (hm_len (data s) - hm_len (data s')) \<le> leaked b s'"
proof -
  note wf = shard_ok_wf [OF assms]
  obtain s' where s': "expire_keys now s = Ok s'" "hm_wf (data s')"
      "hm_entries (data s') \<subseteq># hm_entries (data s)" "hm_len (data s') \<le> hm_len (data s)"
      "only_expired_gone now (data s) (data s')"
      "covered (data s) (ttl_queue s) \<longrightarrow> covered (data s') (ttl_queue s')"
      "key_count (metrics s) = word_of_nat (hm_len (data s)) \<longrightarrow>
        key_count (metrics s') = word_of_nat (hm_len (data s'))"
      "memory_bytes (metrics s') = memory_bytes (metrics s)"
      "max_keys s' = max_keys s" "max_memory_bytes s' = max_memory_bytes s"
    using expire_keys_result [OF wf, of now] by blast
  have st: "stored_bytes b s' + entry_size b * (hm_len (data s) - hm_len (data s')) \<le> stored_bytes b s"
    unfolding stored_bytes_def
    by (rule hm.total_subset) (use s' wf in \<open>simp_all add: entry_size_bytes_def\<close>)
  have limits: "hm_get (data s') k = Some e \<Longrightarrow> hm_get (data s) k = Some e" for k e
    using s'(5) unfolding only_expired_gone_def by (metis option.distinct(1))
  have "keys_ok s'"
    using assms s' limits unfolding shard_ok_def keys_ok_def by (metis le_trans)
  moreover have used: "used_memory s' = used_memory s"
    using s'(8) by (simp add: used_memory_def)
  moreover have "memory_ok b s'"
    using assms st s'(10) used by (simp add: shard_ok_def memory_ok_def)
  moreover have "leaked b s + entry_size b * (hm_len (data s) - hm_len (data s')) \<le> leaked b s'"
    using assms st used by (simp add: shard_ok_def memory_ok_def leaked_def)
  ultimately show ?thesis
    using s'(1) by (simp add: shard_ok_def)
qed

section \<open>A fresh shard\<close>

lemma Shard_new_ok:
  "entry_size b < 2 ^ 32 \<Longrightarrow> shard_ok b (Shard_new now i)"
  by (simp add: shard_ok_def keys_ok_def memory_ok_def Shard_new_def ShardMetrics_new_def
      covered_def stored_bytes_def hm.total_def hm_entries_def hm_len_def used_memory_def
      MAX_MEMORY_PER_SHARD_def MAX_KEY_SIZE_def MAX_VALUE_SIZE_def)

end
