(* ===== verification/Store_Spec.thy ===== *)
theory Store_Spec
  imports Command
begin

text \<open>
  What a client may rely on: a store of values with deadlines, in which a key whose deadline
  has come is simply absent. The locale \<open>store_machine\<close> says when an implementation with its
  own clock, lazy deletion and background expiration is such a store; its one client lemma
  says so for whole histories.
\<close>

section \<open>The abstract store\<close>

type_synonym store = "key \<Rightarrow> (val \<times> instant option) option"

fun alive :: "instant \<Rightarrow> (val \<times> instant option) option \<Rightarrow> (val \<times> instant option) option" where
  "alive t (Some (v, Some x)) = (if x \<le> t then None else Some (v, Some x))"
| "alive t y = y"

definition prune :: "instant \<Rightarrow> store \<Rightarrow> store" where
  "prune t st = (\<lambda>k. alive t (st k))"

text \<open>The store a command leaves at time \<open>t\<close>; a deadline of zero seconds is a deletion.\<close>

fun store_after :: "instant \<Rightarrow> command \<Rightarrow> store \<Rightarrow> store" where
  "store_after t (Set k v ttl) st = st(k \<mapsto> (v, map_option (\<lambda>n. t + from_secs n) ttl))"
| "store_after t (Del ks) st = st |` (- set ks)"
| "store_after t (Expire k n) st =
     (case st k of None \<Rightarrow> st | Some (v, _) \<Rightarrow> st(k \<mapsto> (v, Some (t + from_secs n))))"
| "store_after t _ st = st"

definition spec_step :: "instant \<Rightarrow> command \<Rightarrow> store \<Rightarrow> store" where
  "spec_step t c st = prune t (store_after t c st)"

text \<open>Whole seconds left; \<open>None\<close> where the store does not determine the reply (\<open>INFO\<close>).\<close>

fun spec_reply :: "instant \<Rightarrow> command \<Rightarrow> store \<Rightarrow> response option" where
  "spec_reply t (Ping None) st = Some (RValue (Some (String (ascii ''PONG''))))"
| "spec_reply t (Ping (Some msg)) st = Some (RValue (Some (String msg)))"
| "spec_reply t (Set k v ttl) st = Some ROk"
| "spec_reply t (Get k) st = Some (RValue (map_option fst (st k)))"
| "spec_reply t (Del ks) st = Some (RInteger (int (card {k \<in> set ks. st k \<noteq> None})))"
| "spec_reply t (Expire k n) st = Some (RInteger (if st k = None then 0 else 1))"
| "spec_reply t (Ttl k) st =
     Some (RInteger (case st k of
        None \<Rightarrow> - 2
      | Some (v, None) \<Rightarrow> - 1
      | Some (v, Some x) \<Rightarrow> int (as_secs (x - t))))"
| "spec_reply t (Info section) st = None"

definition answers :: "response option \<Rightarrow> response \<Rightarrow> bool" where
  "answers spec r \<longleftrightarrow> (case spec of None \<Rightarrow> True | Some r' \<Rightarrow> r = r')"

lemma alive_twice [simp]: "s \<le> t \<Longrightarrow> alive t (alive s y) = alive t y"
  by (cases "(s, y)" rule: alive.cases) auto

lemma prune_prune [simp]: "s \<le> t \<Longrightarrow> prune t (prune s st) = prune t st"
  by (simp add: prune_def)

section \<open>Histories\<close>

datatype event = Run instant command | Tick instant

fun event_time :: "event \<Rightarrow> instant" where
  "event_time (Run t c) = t"
| "event_time (Tick t) = t"

fun spec_history :: "event list \<Rightarrow> store \<Rightarrow> response option list \<times> store" where
  "spec_history [] st = ([], st)"
| "spec_history (Run t c # evs) st =
     (let st = prune t st; (rs, st') = spec_history evs (spec_step t c st)
      in (spec_reply t c st # rs, st'))"
| "spec_history (Tick t # evs) st = spec_history evs st"

fun history ::
    "(instant \<Rightarrow> command \<Rightarrow> 's \<Rightarrow> (response \<times> 's, unit) outcome) \<Rightarrow> (instant \<Rightarrow> 's \<Rightarrow> ('s, unit) outcome) \<Rightarrow>
     event list \<Rightarrow> 's \<Rightarrow> (response list \<times> 's, unit) outcome" where
  "history exec tick [] s = Ok ([], s)"
| "history exec tick (Run t c # evs) s =
     and_then (exec t c s) (\<lambda>(r, s). and_then (history exec tick evs s) (\<lambda>(rs, s). Ok (r # rs, s)))"
| "history exec tick (Tick t # evs) s = and_then (tick t s) (history exec tick evs)"

text \<open>Every command of the history is admissible in the state it meets.\<close>

fun admissible ::
    "(instant \<Rightarrow> command \<Rightarrow> 's \<Rightarrow> (response \<times> 's, unit) outcome) \<Rightarrow> (instant \<Rightarrow> 's \<Rightarrow> ('s, unit) outcome) \<Rightarrow>
     (instant \<Rightarrow> command \<Rightarrow> 's \<Rightarrow> bool) \<Rightarrow> event list \<Rightarrow> 's \<Rightarrow> bool" where
  "admissible exec tick fits [] s = True"
| "admissible exec tick fits (Run t c # evs) s =
     (fits t c s \<and> (case exec t c s of Ok (r, s') \<Rightarrow> admissible exec tick fits evs s' | _ \<Rightarrow> False))"
| "admissible exec tick fits (Tick t # evs) s =
     (case tick t s of Ok s' \<Rightarrow> admissible exec tick fits evs s' | _ \<Rightarrow> False)"

section \<open>Implementations of the store\<close>

locale store_machine =
  fixes ok :: "'s \<Rightarrow> bool"
    and view :: "instant \<Rightarrow> 's \<Rightarrow> store"
    and exec :: "instant \<Rightarrow> command \<Rightarrow> 's \<Rightarrow> (response \<times> 's, unit) outcome"
    and fits :: "instant \<Rightarrow> command \<Rightarrow> 's \<Rightarrow> bool"
    and tick :: "instant \<Rightarrow> 's \<Rightarrow> ('s, unit) outcome"
  assumes exec_refines: "ok s \<Longrightarrow> fits t c s \<Longrightarrow>
      \<exists>r s'. exec t c s = Ok (r, s') \<and> ok s' \<and> answers (spec_reply t c (view t s)) r \<and>
             view t s' = spec_step t c (view t s)"
    and tick_refines: "ok s \<Longrightarrow> \<exists>s'. tick t s = Ok s' \<and> ok s' \<and> view t s' = view t s"
    and view_later: "ok s \<Longrightarrow> t \<le> u \<Longrightarrow> view u s = prune u (view t s)"
begin

text \<open>From time \<open>now\<close> on, the state and the abstract store are the same to a client.\<close>

definition agree :: "instant \<Rightarrow> 's \<Rightarrow> store \<Rightarrow> bool" where
  "agree now s st \<longleftrightarrow> ok s \<and> (\<forall>t\<ge>now. view t s = prune t st)"

lemma agree_view: "ok s \<Longrightarrow> agree now s (view now s)"
  using view_later by (auto simp: agree_def)

lemma agree_exec:
  assumes "agree now s st" and "now \<le> t" and "fits t c s"
  shows "\<exists>r s'. exec t c s = Ok (r, s') \<and> answers (spec_reply t c (prune t st)) r \<and>
                agree t s' (spec_step t c (prune t st))"
proof -
  have "ok s" and vw: "view t s = prune t st"
    using assms by (auto simp: agree_def)
  from exec_refines [OF this(1) assms(3)] obtain r s' where
    "exec t c s = Ok (r, s')" "ok s'" "answers (spec_reply t c (prune t st)) r"
    "view t s' = spec_step t c (prune t st)"
    unfolding vw by blast
  moreover from this have "agree t s' (spec_step t c (prune t st))"
    using agree_view [of s' t] by simp
  ultimately show ?thesis by blast
qed

lemma agree_tick:
  assumes "agree now s st" and "now \<le> t"
  shows "\<exists>s'. tick t s = Ok s' \<and> agree t s' st"
proof -
  have s: "ok s" "view t s = prune t st"
    using assms by (auto simp: agree_def)
  from tick_refines [OF s(1), of t] obtain s' where
    s': "tick t s = Ok s'" "ok s'" "view t s' = prune t st"
    unfolding s(2) by blast
  then have "agree t s' st"
    using view_later [OF s'(2)] unfolding agree_def by (metis prune_prune)
  with s' show ?thesis by blast
qed

theorem history_agrees:
  "agree now s st \<Longrightarrow> sorted (now # map event_time evs) \<Longrightarrow> admissible exec tick fits evs s \<Longrightarrow>
   \<exists>rs s'. history exec tick evs s = Ok (rs, s') \<and>
           list_all2 answers (fst (spec_history evs st)) rs \<and>
           agree (last (now # map event_time evs)) s' (snd (spec_history evs st))"
proof (induction evs arbitrary: now s st)
  case Nil
  then show ?case by simp
next
  case (Cons ev evs)
  show ?case
  proof (cases ev)
    case (Run t c)
    with Cons.prems(2,3) have "now \<le> t" "fits t c s"
      and later: "sorted (t # map event_time evs)"
      by simp_all
    with agree_exec [OF Cons.prems(1)] obtain r s' where r: "exec t c s = Ok (r, s')"
        "answers (spec_reply t c (prune t st)) r" "agree t s' (spec_step t c (prune t st))"
      by blast
    have "admissible exec tick fits evs s'"
      using Cons.prems(3) Run r(1) by simp
    from Cons.IH [OF r(3) later this] show ?thesis
      using Run r(1,2) by (auto simp: Let_def split_beta)
  next
    case (Tick t)
    with Cons.prems(2) have "now \<le> t"
      and later: "sorted (t # map event_time evs)"
      by simp_all
    with agree_tick [OF Cons.prems(1)] obtain s' where s': "tick t s = Ok s'" "agree t s' st"
      by blast
    have "admissible exec tick fits evs s'"
      using Cons.prems(3) Tick s'(1) by simp
    from Cons.IH [OF s'(2) later this] show ?thesis
      using Tick s'(1) by auto
  qed
qed

end

end
