(* ===== verification/Shard_Refinement.thy ===== *)
theory Shard_Refinement
  imports Shard_Invariants Store_Spec
begin

text \<open>
  A shard refines the abstract store: at time \<open>t\<close> a client sees the entries that are not
  expired at \<open>t\<close>. The commands act on this view as the specification says, provided the keys
  that \<open>DEL\<close> and \<open>EXPIRE\<close> name are not expired entries still waiting for their collection,
  and the background expiration cannot be seen.
\<close>

section \<open>What a client sees\<close>

definition view :: "instant \<Rightarrow> shard \<Rightarrow> store" where
  "view t s = (\<lambda>k. alive t (map_option (\<lambda>e. (entry_value e, entry_expiry e)) (hm_get (data s) k)))"

lemma view_None: "hm_get (data s) k = None \<Longrightarrow> view t s k = None"
  by (simp add: view_def)

lemma view_Some:
  "hm_get (data s) k = Some e \<Longrightarrow>
   view t s k = (if is_expired t e then None else Some (entry_value e, entry_expiry e))"
  by (cases "entry_expiry e") (simp_all add: view_def is_expired_def)

lemma view_cong: "data s' = data s \<Longrightarrow> view t s' = view t s"
  by (simp add: view_def)

lemma prune_view [simp]: "prune t (view t s) = view t s"
  by (simp add: prune_def view_def)

lemma view_later: "t \<le> u \<Longrightarrow> view u s = prune u (view t s)"
  by (simp add: prune_def view_def)

lemma view_remove:
  "hm_wf (data s) \<Longrightarrow> data s' = hm_remove k (data s) \<Longrightarrow> view t s' = (view t s)(k := None)"
  by (auto simp: view_def)

lemma view_remove_expired:
  "hm_wf (data s) \<Longrightarrow> data s' = hm_remove k (data s) \<Longrightarrow> hm_get (data s) k = Some e \<Longrightarrow>
   is_expired t e \<Longrightarrow> view t s' = view t s"
  by (auto simp: view_remove view_Some)

lemma view_insert:
  "hm_wf (data s) \<Longrightarrow> data s' = hm_insert k e (data s) \<Longrightarrow>
   view t s' = prune t ((view t s)(k \<mapsto> (entry_value e, entry_expiry e)))"
  by (auto simp: view_def prune_def)

lemma view_only_expired_gone:
  assumes "only_expired_gone now (data s) (data s')" and "now \<le> t"
  shows "view t s' = view t s"
proof (rule ext)
  fix k
  show "view t s' k = view t s k"
  proof (cases "hm_get (data s') k = hm_get (data s) k")
    case True
    then show ?thesis by (simp add: view_def)
  next
    case False
    with assms(1) obtain e where "hm_get (data s') k = None" "hm_get (data s) k = Some e"
        "is_expired now e"
      unfolding only_expired_gone_def by metis
    with assms(2) show ?thesis
      by (auto simp: view_None view_Some is_expired_iff)
  qed
qed

section \<open>Which SETs are refused\<close>

text \<open>The limits, in exact arithmetic.\<close>

definition set_refusal :: "build \<Rightarrow> key \<Rightarrow> val \<Rightarrow> shard \<Rightarrow> bytes option" where
  "set_refusal b k v s =
     (if MAX_KEY_SIZE < length k then Some (ascii ''ERR key too large'')
      else if MAX_VALUE_SIZE < value_size_bytes v then Some (ascii ''ERR value too large'')
      else if hm_get (data s) k = None \<and> hm_len (data s) = max_keys s
      then Some (ascii ''ERR shard full'')
      else if max_memory_bytes s < used_memory s + entry_size_bytes b k v -
                (case hm_get (data s) k of
                   None \<Rightarrow> 0 | Some e \<Rightarrow> entry_size_bytes b k (entry_value e))
      then Some oom_message
      else None)"

lemma cmd_set_refused:
  assumes "shard_ok b s" and "deadline t ttl = Ok exp" and "set_refusal b k v s = Some msg"
  shows "cmd_set b t t' k v ttl s = Ok (RError msg, s)"
proof (cases "length k \<le> MAX_KEY_SIZE \<and> value_size_bytes v \<le> MAX_VALUE_SIZE \<and>
    (hm_contains_key (data s) k \<or> hm_len (data s) < max_keys s)")
  case True
  with cmd_set_stored [OF assms(1,2), of k v t'] assms(3) show ?thesis
    by (auto simp: set_refusal_def hm_contains_key_def hm.weight_at_def split: if_splits option.splits)
next
  case False
  with assms show ?thesis
    by (auto simp: set_refusal_def hm_contains_key_def cmd_set_def shard_ok_def keys_ok_def
        split: if_splits)
qed

lemma cmd_set_accepted:
  assumes "shard_ok b s" and "deadline t ttl = Ok exp" and "set_refusal b k v s = None"
  shows "\<exists>s'. cmd_set b t t' k v ttl s = Ok (ROk, s') \<and> set_stored b t' k v exp s s'"
proof -
  have "hm_contains_key (data s) k \<or> hm_len (data s) < max_keys s"
    using assms(1,3)
    by (auto simp: set_refusal_def hm_contains_key_def shard_ok_def keys_ok_def split: if_splits)
  with cmd_set_stored [OF assms(1,2), of k v t'] assms(3) show ?thesis
    by (auto simp: set_refusal_def hm.weight_at_def split: if_splits option.splits)
qed

section \<open>Commands against the specification\<close>

text \<open>The key is expired and still stored; no key a \<open>DEL\<close> or an \<open>EXPIRE\<close> names is.\<close>

definition stale :: "instant \<Rightarrow> shard \<Rightarrow> key \<Rightarrow> bool" where
  "stale t s k = (case hm_get (data s) k of None \<Rightarrow> False | Some e \<Rightarrow> is_expired t e)"

definition settled :: "instant \<Rightarrow> command \<Rightarrow> shard \<Rightarrow> bool" where
  "settled t c s =
     (case c of
        Del ks \<Rightarrow> list_all (\<lambda>k. \<not> stale t s k) ks
      | Expire k n \<Rightarrow> \<not> stale t s k
      | _ \<Rightarrow> True)"

definition accepted :: "build \<Rightarrow> command \<Rightarrow> shard \<Rightarrow> bool" where
  "accepted b c s \<longleftrightarrow> (case c of Set k v ttl \<Rightarrow> set_refusal b k v s = None | _ \<Rightarrow> True)"

definition shard_fits :: "build \<Rightarrow> instant \<Rightarrow> command \<Rightarrow> shard \<Rightarrow> bool" where
  "shard_fits b t c s \<longleftrightarrow> deadline_fits t c \<and> accepted b c s \<and> settled t c s"

lemma as_secs_i64: "x < instant_limit \<Longrightarrow> as_i64 (as_secs (x - t)) = int (as_secs (x - t))"
  by (intro as_i64_small)
     (auto simp: as_secs_def instant_limit_def less_mult_imp_div_less)

lemma cmd_get_view:
  assumes "shard_ok b s"
  shows "\<exists>s'. cmd_get b t k s = Ok (RValue (map_option fst (view t s k)), s') \<and> view t s' = view t s"
proof (cases "hm_get (data s) k")
  case None
  then show ?thesis by (simp add: cmd_get_def view_None)
next
  case (Some e)
  with remove_key_Some [OF assms Some] view_remove_expired [OF shard_ok_wf [OF assms]] show ?thesis
    by (auto simp: cmd_get_def view_Some intro: trans [OF view_cong])
qed

lemma cmd_ttl_view:
  assumes "shard_ok b s"
  shows "\<exists>r s'. cmd_ttl b t k s = Ok (r, s') \<and> view t s' = view t s \<and> spec_reply t (Ttl k) (view t s) = Some r"
proof (cases "hm_get (data s) k")
  case None
  then show ?thesis by (simp add: cmd_ttl_def view_None)
next
  case (Some e)
  have lim: "entry_expiry e = Some x \<Longrightarrow> x < instant_limit" for x
    using assms Some by (auto simp: shard_ok_def keys_ok_def)
  from Some remove_key_Some [OF assms Some] view_remove_expired [OF shard_ok_wf [OF assms]] lim
  show ?thesis
    by (cases "entry_expiry e")
       (auto simp: cmd_ttl_def view_Some is_expired_def duration_since_def as_secs_i64
          intro: trans [OF view_cong])
qed

lemma del_loop_result:
  "shard_ok b s \<Longrightarrow> del_loop b ks n s = (n', s') \<Longrightarrow>
   n' = n + int (card {k \<in> set ks. hm_get (data s) k \<noteq> None}) \<and>
   (\<forall>k. hm_get (data s') k = (if k \<in> set ks then None else hm_get (data s) k))"
proof (induction ks arbitrary: n s)
  case Nil
  then show ?case by simp
next
  case (Cons k ks)
  show ?case
  proof (cases "hm_get (data s) k")
    case None
    then have "{j \<in> set (k # ks). hm_get (data s) j \<noteq> None} = {j \<in> set ks. hm_get (data s) j \<noteq> None}"
      by auto
    with Cons.IH [OF Cons.prems(1), of n] Cons.prems(2) None show ?thesis
      by (auto simp: remove_key_None)
  next
    case (Some e)
    with remove_key_Some [OF Cons.prems(1) Some] remove_key_ok [OF Cons.prems(1), of k] obtain s1 where
      s1: "remove_key_update_metrics b k s = (True, s1)" "data s1 = hm_remove k (data s)" "shard_ok b s1"
      by auto
    have get: "hm_get (data s1) j = (if j = k then None else hm_get (data s) j)" for j
      using s1(2) shard_ok_wf [OF Cons.prems(1)] by simp
    have "{j \<in> set (k # ks). hm_get (data s) j \<noteq> None} =
        insert k {j \<in> set ks. hm_get (data s1) j \<noteq> None}"
      using Some by (auto simp: get)
    with Cons.IH [OF s1(3), of "n + 1"] Cons.prems(2) s1(1) get show ?thesis
      by (simp add: card_insert_if)
  qed
qed

lemma cmd_del_view:
  assumes "shard_ok b s" and "settled t (Del ks) s"
  shows "\<exists>s'. cmd_del b ks s = Ok (RInteger (int (card {k \<in> set ks. view t s k \<noteq> None})), s') \<and>
              view t s' = view t s |` (- set ks)"
proof -
  obtain n s' where d: "del_loop b ks 0 s = (n, s')"
    by fastforce
  have live: "k \<in> set ks \<Longrightarrow> hm_get (data s) k \<noteq> None \<longleftrightarrow> view t s k \<noteq> None" for k
    using assms(2)
    by (cases "hm_get (data s) k")
       (auto simp: settled_def stale_def list_all_iff view_None view_Some)
  then have "{k \<in> set ks. hm_get (data s) k \<noteq> None} = {k \<in> set ks. view t s k \<noteq> None}"
    by blast
  moreover have "view t s' = view t s |` (- set ks)"
    using del_loop_result [OF assms(1) d] by (auto simp: view_def restrict_map_def fun_eq_iff)
  ultimately show ?thesis
    using del_loop_result [OF assms(1) d] d by (simp add: cmd_del_def)
qed

lemma cmd_expire_view:
  assumes "shard_ok b s" and "settled t (Expire k n) s" and "t + from_secs n < instant_limit"
  shows "\<exists>s'. cmd_expire t k n s = Ok (RInteger (if view t s k = None then 0 else 1), s') \<and>
              view t s' = spec_step t (Expire k n) (view t s)"
proof (cases rule: cmd_expire_cases [of s k t n])
  case absent
  then show ?thesis by (simp add: view_None spec_step_def)
next
  case overflow
  with assms(3) show ?thesis by simp
next
  case (changed e x)
  then have "view t s k = Some (entry_value e, entry_expiry e)"
    using assms(2) by (auto simp: settled_def stale_def view_Some)
  with changed show ?thesis
    by (auto simp: spec_step_def intro!: view_insert [OF shard_ok_wf [OF assms(1)], THEN trans])
qed

lemma cmd_set_view:
  assumes "shard_ok b s" and "deadline_fits t (Set k v ttl)" and "set_refusal b k v s = None"
  shows "\<exists>s'. cmd_set b t t' k v ttl s = Ok (ROk, s') \<and> view t s' = spec_step t (Set k v ttl) (view t s)"
proof -
  have d: "deadline t ttl = Ok (map_option (\<lambda>n. t + from_secs n) ttl)"
    using assms(2) by (cases ttl) (auto simp: deadline_def deadline_fits_def instant_add_def)
  from cmd_set_accepted [OF assms(1) d assms(3), of t'] show ?thesis
    by (auto simp: set_stored_def spec_step_def intro!: view_insert [OF shard_ok_wf [OF assms(1)], THEN trans])
qed

lemma run_command_view:
  assumes "shard_ok b s" and "shard_fits b t c s"
  shows "\<exists>r s'. run_command b t t' c s = Ok (r, s') \<and> answers (spec_reply t c (view t s)) r \<and>
                view t s' = spec_step t c (view t s)"
proof (cases c)
  case (Ping m)
  then show ?thesis by (cases m) (auto simp: answers_def spec_step_def cmd_ping_def)
next
  case (Set k v ttl)
  with assms cmd_set_view [OF assms(1), of t k v ttl t'] show ?thesis
    by (auto simp: shard_fits_def accepted_def answers_def)
next
  case (Get k)
  with cmd_get_view [OF assms(1), of t k] show ?thesis
    by (auto simp: answers_def spec_step_def)
next
  case (Del ks)
  with cmd_del_view [OF assms(1), of t ks] assms(2) show ?thesis
    by (auto simp: answers_def spec_step_def shard_fits_def prune_def view_def restrict_map_def fun_eq_iff)
next
  case (Expire k n)
  with cmd_expire_view [OF assms(1), of t k n] assms(2) show ?thesis
    by (auto simp: answers_def shard_fits_def deadline_fits_def)
next
  case (Ttl k)
  with cmd_ttl_view [OF assms(1), of t k] show ?thesis
    by (auto simp: answers_def spec_step_def simp del: spec_reply.simps)
next
  case (Info i)
  then show ?thesis by (simp add: answers_def spec_step_def)
qed

lemma execute_view:
  assumes "shard_ok b s" and "shard_fits b t c s"
  shows "\<exists>r s'. execute b t t' c s = Ok (r, s') \<and> shard_ok b s' \<and>
            answers (spec_reply t c (view t s)) r \<and> view t s' = spec_step t c (view t s)"
proof -
  obtain r s' where r: "run_command b t t' c s = Ok (r, s')" "answers (spec_reply t c (view t s)) r"
      "view t s' = spec_step t c (view t s)"
    using run_command_view [OF assms] by blast
  then have e: "execute b t t' c s = Ok (r, s'\<lparr>metrics := record_command (metrics s')\<rparr>)"
    by (simp add: execute_def)
  moreover have "shard_ok b (s'\<lparr>metrics := record_command (metrics s')\<rparr>)"
    using execute_ok [OF assms(1), of t c t'] assms(2) e by (auto simp: shard_fits_def)
  moreover have "view t (s'\<lparr>metrics := record_command (metrics s')\<rparr>) = view t s'"
    by (rule view_cong) simp
  ultimately show ?thesis
    using r by simp
qed

lemma expire_keys_view:
  assumes "shard_ok b s"
  shows "\<exists>s'. expire_keys now s = Ok s' \<and> shard_ok b s' \<and> view now s' = view now s"
proof -
  obtain s' where "expire_keys now s = Ok s'" "only_expired_gone now (data s) (data s')"
    using expire_keys_result [OF shard_ok_wf [OF assms]] by blast
  moreover from this(1) have "shard_ok b s'"
    using expire_keys_memory [OF assms, of now] by auto
  ultimately show ?thesis
    using view_only_expired_gone by blast
qed

interpretation shard_store: store_machine "shard_ok b" view "\<lambda>t. execute b t (clock t)"
    "shard_fits b" expire_keys
  for b :: build and clock :: "instant \<Rightarrow> instant"
  by unfold_locales (rule execute_view expire_keys_view view_later; assumption)+

end
