(* ===== verification/Shard_Properties.thy ===== *)
theory Shard_Properties
  imports Shard_Refinement
begin

text \<open>
  The properties of a shard: its commands are total and keep its invariant, the refusals of
  \<open>SET\<close> are exact, expiration is safe and complete within its budget, whole histories refine
  the abstract store; and what the code does beyond this: the memory of expired keys is never
  given back, expired keys still answer \<open>EXPIRE\<close> and \<open>DEL\<close>, and a large deadline unwinds
  the worker.
\<close>

section \<open>Examples\<close>

definition demo_build :: build where
  "demo_build = \<lparr>entry_size = 80, overflow_checks = True\<rparr>"

definition demo_key :: key where
  "demo_key = ascii ''k''"

definition demo_shard :: shard where
  "demo_shard = Shard_new 0 (ShardId 7)"

lemma demo_shard_ok [simp]: "shard_ok demo_build demo_shard"
  by (simp add: demo_shard_def Shard_new_ok demo_build_def)

text \<open>A shard with one key that expired at one second and is still stored.\<close>

definition demo_stale :: shard where
  "demo_stale = demo_shard\<lparr>data := [(demo_key, Entry_new 0 (String []) (Some (from_secs 1)))],
     ttl_queue := [Expiry (from_secs 1) demo_key],
     metrics := (metrics demo_shard)\<lparr>key_count := 1, memory_bytes := 81\<rparr>\<rparr>"

lemma demo_stale_ok [simp]: "shard_ok demo_build demo_stale"
  by (simp add: shard_ok_def keys_ok_def memory_ok_def demo_stale_def demo_shard_def Shard_new_def
      ShardMetrics_new_def demo_build_def demo_key_def covered_def hm_get_def hm_wf_def hm_len_def
      stored_bytes_def hm.total_def hm_entries_def used_memory_def entry_size_bytes_def
      MAX_KEYS_PER_SHARD_def MAX_MEMORY_PER_SHARD_def MAX_KEY_SIZE_def MAX_VALUE_SIZE_def
      instant_limit_def from_secs_def nanos_def)

lemma demo_stale_get: "hm_get (data demo_stale) demo_key = Some (Entry_new 0 (String []) (Some (from_secs 1)))"
  by (simp add: demo_stale_def hm_get_def)

section \<open>Commands\<close>

text \<open>C3 (shard_commands_total). From a good state every command whose deadline the clock can
  represent returns a response, no counter wraps and no check panics, and the state it leaves
  is good again; what the memory counter holds beyond the stored entries does not change.\<close>

theorem shard_commands_total:
  assumes "shard_ok b s" and "deadline_fits t c"
  shows "\<exists>r s'. execute b t t' c s = Ok (r, s') \<and> shard_ok b s' \<and> leaked b s' = leaked b s"
  by (rule execute_ok [OF assms])

theorem shard_commands_total_witness:
  "\<exists>r s'. execute demo_build 5 6 (Set demo_key (String []) (Some 10)) demo_shard = Ok (r, s') \<and>
     shard_ok demo_build s' \<and> leaked demo_build s' = leaked demo_build demo_shard"
  by (rule shard_commands_total)
     (simp_all add: deadline_fits_def from_secs_def nanos_def instant_limit_def)

lemma deadline_of_fits: "deadline_fits t (Set k v ttl) \<Longrightarrow> deadline t ttl = Ok (map_option (\<lambda>n. t + from_secs n) ttl)"
  by (cases ttl) (auto simp: deadline_def deadline_fits_def instant_add_def)

lemma set_refused:
  assumes "shard_ok b s" and "deadline_fits t (Set k v ttl)" and "set_refusal b k v s = Some msg"
  shows "execute b t t' (Set k v ttl) s = Ok (RError msg, s\<lparr>metrics := record_command (metrics s)\<rparr>)"
  using cmd_set_refused [OF assms(1) deadline_of_fits [OF assms(2)] assms(3), of t'] by (simp add: execute_def)

text \<open>C13 (set_refused_exactly). From a good state \<open>SET\<close> is refused, with the message of the
  first limit it exceeds and with nothing stored, exactly when the key or the value is too
  large, the key is new in a full shard, or the bytes in use plus those of the new entry less
  those of the one it replaces exceed the limit; otherwise it answers \<open>OK\<close>, the key holds
  the value with the deadline, and every other key is as before.\<close>

theorem set_refused_exactly:
  assumes "shard_ok b s" and "deadline_fits t (Set k v ttl)"
  shows "case set_refusal b k v s of
       Some msg \<Rightarrow> execute b t t' (Set k v ttl) s =
                     Ok (RError msg, s\<lparr>metrics := record_command (metrics s)\<rparr>)
     | None \<Rightarrow> (\<exists>s'. execute b t t' (Set k v ttl) s = Ok (ROk, s') \<and>
         (\<forall>j. hm_get (data s') j =
            (if j = k then Some (Entry_new t' v (map_option (\<lambda>n. t + from_secs n) ttl))
             else hm_get (data s) j)))"
proof -
  note wf = shard_ok_wf [OF assms(1)]
  show ?thesis
  proof (cases "set_refusal b k v s")
    case None
    with cmd_set_accepted [OF assms(1) deadline_of_fits [OF assms(2)] None, of t'] wf show ?thesis
      by (auto simp: execute_def set_stored_def)
  next
    case (Some msg)
    with set_refused [OF assms Some, of t'] show ?thesis
      by simp
  qed
qed

lemma demo_set_accepted: "set_refusal demo_build demo_key (String []) demo_shard = None"
  by (simp add: set_refusal_def demo_shard_def Shard_new_def demo_key_def demo_build_def
      ShardMetrics_new_def used_memory_def entry_size_bytes_def hm_len_def MAX_KEYS_PER_SHARD_def
      MAX_MEMORY_PER_SHARD_def MAX_KEY_SIZE_def MAX_VALUE_SIZE_def)

theorem set_refused_exactly_witness:
  "\<exists>s'. execute demo_build 5 6 (Set demo_key (String []) (Some 0)) demo_shard = Ok (ROk, s')"
  using set_refused_exactly [of demo_build demo_shard 5 demo_key "String []" "Some 0" 6]
  by (auto simp: demo_set_accepted deadline_fits_def from_secs_def nanos_def instant_limit_def)

section \<open>Expiration\<close>

text \<open>C14 (expiration_sound_and_complete). A round of expiration ends, removes only entries whose
  deadline has come and at most twenty of them, keeps the invariant, and when it removed
  fewer than twenty it leaves no expired entry behind.\<close>

theorem expiration_sound_and_complete:
  assumes "shard_ok b s"
  shows "\<exists>s'. expire_keys now s = Ok s' \<and> shard_ok b s' \<and>
     (\<forall>k e. hm_get (data s) k = Some e \<longrightarrow> \<not> is_expired now e \<longrightarrow> hm_get (data s') k = Some e) \<and>
     (\<forall>k e. hm_get (data s') k = Some e \<longrightarrow> hm_get (data s) k = Some e) \<and>
     hm_len (data s) \<le> hm_len (data s') + TTL_KEYS_PER_CHECK \<and>
     (hm_len (data s) < hm_len (data s') + TTL_KEYS_PER_CHECK \<longrightarrow>
        (\<forall>k e. hm_get (data s') k = Some e \<longrightarrow> \<not> is_expired now e))"
proof -
  obtain s' where s': "expire_keys now s = Ok s'" "only_expired_gone now (data s) (data s')"
      "hm_len (data s') \<le> hm_len (data s)" "hm_len (data s) - hm_len (data s') \<le> TTL_KEYS_PER_CHECK"
      "covered (data s) (ttl_queue s) \<longrightarrow> covered (data s') (ttl_queue s')"
      "hm_len (data s) - hm_len (data s') < TTL_KEYS_PER_CHECK \<longrightarrow>
        (\<forall>y\<in>#mset (ttl_queue s'). now < expiry_time y)"
    using expire_keys_result [OF shard_ok_wf [OF assms]] by blast
  have ok: "shard_ok b s'"
    using expire_keys_memory [OF assms, of now] s'(1) by auto
  have "\<not> is_expired now e" if "hm_get (data s') k = Some e"
      "hm_len (data s) < hm_len (data s') + TTL_KEYS_PER_CHECK" for k e
  proof
    assume "is_expired now e"
    then obtain x where x: "entry_expiry e = Some x" "x \<le> now"
      by (auto simp: is_expired_iff)
    with ok that(1) have "Expiry x k \<in># mset (ttl_queue s')"
      unfolding shard_ok_def keys_ok_def covered_def by blast
    moreover have "\<forall>y\<in>#mset (ttl_queue s'). now < expiry_time y"
      using s'(3,6) that(2) by simp
    ultimately have "now < expiry_time (Expiry x k)"
      by blast
    with x(2) show False by simp
  qed
  then have complete: "hm_len (data s) < hm_len (data s') + TTL_KEYS_PER_CHECK \<longrightarrow>
      (\<forall>k e. hm_get (data s') k = Some e \<longrightarrow> \<not> is_expired now e)"
    by blast
  have sound: "\<forall>k e. hm_get (data s) k = Some e \<longrightarrow> \<not> is_expired now e \<longrightarrow> hm_get (data s') k = Some e"
    using s'(2) unfolding only_expired_gone_def by (metis option.inject)
  have nothing_new: "\<forall>k e. hm_get (data s') k = Some e \<longrightarrow> hm_get (data s) k = Some e"
    using s'(2) unfolding only_expired_gone_def by (metis option.distinct(1))
  have "hm_len (data s) \<le> hm_len (data s') + TTL_KEYS_PER_CHECK"
    using s'(3,4) by simp
  with s'(1) ok sound nothing_new complete show ?thesis
    by blast
qed

theorem expiration_sound_and_complete_witness:
  "\<exists>s'. expire_keys (from_secs 2) demo_stale = Ok s' \<and> hm_get (data s') demo_key = None"
proof -
  have stale: "is_expired (from_secs 2) (Entry_new 0 (String []) (Some (from_secs 1)))"
    by (simp add: is_expired_def from_secs_def)
  obtain s' where s': "expire_keys (from_secs 2) demo_stale = Ok s'"
      "\<forall>k e. hm_get (data s') k = Some e \<longrightarrow> hm_get (data demo_stale) k = Some e"
      "hm_len (data demo_stale) < hm_len (data s') + TTL_KEYS_PER_CHECK \<longrightarrow>
        (\<forall>k e. hm_get (data s') k = Some e \<longrightarrow> \<not> is_expired (from_secs 2) e)"
    using expiration_sound_and_complete [OF demo_stale_ok, of "from_secs 2"] by blast
  have "hm_len (data demo_stale) < TTL_KEYS_PER_CHECK"
    by (simp add: demo_stale_def hm_len_def TTL_KEYS_PER_CHECK_def)
  with s'(2,3) stale have "hm_get (data s') demo_key \<noteq> Some e" for e
    by (metis demo_stale_get option.inject trans_less_add2)
  with s'(1) show ?thesis by auto
qed

section \<open>Histories\<close>

text \<open>C2 (shard_history_refines). Take a history of commands and expiration rounds at
  non-decreasing times, run by a fresh shard, that is admissible: along the run every deadline
  is representable, every \<open>SET\<close> is within the limits and no \<open>DEL\<close> or \<open>EXPIRE\<close> meets an expired
  key that is not collected yet. Then the shard answers every command as the store with
  deadlines does and shows the same keys from then on.\<close>

theorem shard_history_refines:
  assumes "entry_size b < 2 ^ 32" and "sorted (t0 # map event_time evs)"
    and "admissible (\<lambda>t. execute b t (clock t)) expire_keys (shard_fits b) evs (Shard_new t0 i)"
  shows "\<exists>rs s'. history (\<lambda>t. execute b t (clock t)) expire_keys evs (Shard_new t0 i) = Ok (rs, s') \<and>
     list_all2 answers (fst (spec_history evs (\<lambda>_. None))) rs \<and>
     (\<forall>t\<ge>last (t0 # map event_time evs). view t s' = prune t (snd (spec_history evs (\<lambda>_. None))))"
proof -
  have "view t (Shard_new t0 i) = (\<lambda>_. None)" for t
    by (simp add: view_def Shard_new_def)
  then have "shard_store.agree b t0 (Shard_new t0 i) (\<lambda>_. None)"
    using Shard_new_ok [OF assms(1), of t0 i] by (simp add: shard_store.agree_def prune_def)
  from shard_store.history_agrees [OF this assms(2,3)] show ?thesis
    unfolding shard_store.agree_def by blast
qed

lemmas demo_simps = demo_build_def demo_shard_def demo_key_def Shard_new_def ShardMetrics_new_def
  execute_def cmd_set_def cmd_get_def cmd_ttl_def cmd_expire_def remove_key_update_metrics_def
  deadline_def instant_add_def usize_add_def usize_sub_def hm_insert_def hm_remove_def hm_get_def
  hm_len_def hm_contains_key_def heap_push_def heap_pop_def Entry_new_def is_expired_def
  set_key_count_def count_expired_def record_command_def entry_size_bytes_def expire_keys_def
  expire_loop.simps shard_fits_def deadline_fits_def settled_def accepted_def set_refusal_def
  stale_def used_memory_def MAX_KEY_SIZE_def MAX_VALUE_SIZE_def MAX_KEYS_PER_SHARD_def
  MAX_MEMORY_PER_SHARD_def TTL_KEYS_PER_CHECK_def instant_limit_def from_secs_def nanos_def

definition demo_history :: "event list" where
  "demo_history =
     [Run (from_secs 1) (Set demo_key (String []) (Some 10)), Run (from_secs 2) (Get demo_key),
      Tick (from_secs 12), Run (from_secs 13) (Get demo_key)]"

lemma demo_admissible:
  "admissible (\<lambda>t. execute demo_build t t) expire_keys (shard_fits demo_build) demo_history demo_shard"
  by (simp add: demo_history_def demo_simps)

theorem shard_history_refines_witness:
  "\<exists>rs s'. history (\<lambda>t. execute demo_build t t) expire_keys demo_history demo_shard = Ok (rs, s') \<and>
     rs = [ROk, RValue (Some (String [])), RValue None]"
proof -
  have "sorted (0 # map event_time demo_history)"
    by (simp add: demo_history_def from_secs_def)
  moreover have "entry_size demo_build < 2 ^ 32"
    by (simp add: demo_build_def)
  ultimately obtain rs s' where "history (\<lambda>t. execute demo_build t t) expire_keys demo_history demo_shard = Ok (rs, s')"
      "list_all2 answers (fst (spec_history demo_history (\<lambda>_. None))) rs"
    using shard_history_refines [OF _ _ demo_admissible [unfolded demo_shard_def]]
    unfolding demo_shard_def by blast
  moreover from this(2) have "rs = [ROk, RValue (Some (String [])), RValue None]"
    by (simp add: demo_history_def spec_step_def prune_def answers_def list_all2_Cons1
        from_secs_def nanos_def)
  ultimately show ?thesis by blast
qed

section \<open>Where the code differs from the store\<close>

text \<open>A key that is expired and still stored is absent for \<open>GET\<close>, but
  \<open>EXPIRE\<close> finds it, answers 1 and brings its old value back, and \<open>DEL\<close> counts it.\<close>

theorem stale_keys_answer:
  assumes "shard_ok b s" and "hm_get (data s) k = Some e" and "is_expired t e"
    and "0 < n" and "t + from_secs n < instant_limit"
  shows "view t s k = None \<and>
     (\<exists>s'. execute b t t' (Expire k n) s = Ok (RInteger 1, s') \<and>
           view t s' k = Some (entry_value e, Some (t + from_secs n))) \<and>
     (\<exists>s'. execute b t t' (Del [k]) s = Ok (RInteger 1, s'))"
proof -
  note wf = shard_ok_wf [OF assms(1)]
  have "view t s k = None"
    using assms by (simp add: view_Some)
  moreover have "\<exists>s'. execute b t t' (Expire k n) s = Ok (RInteger 1, s') \<and>
           view t s' k = Some (entry_value e, Some (t + from_secs n))"
    using assms wf
    by (simp add: execute_def cmd_expire_def instant_add_def view_def from_secs_def)
  moreover have "\<exists>s'. execute b t t' (Del [k]) s = Ok (RInteger 1, s')"
    using remove_key_Some [OF assms(1,2)] by (auto simp: execute_def cmd_del_def)
  ultimately show ?thesis by blast
qed

theorem stale_keys_answer_witness:
  "\<exists>s'. execute demo_build (from_secs 2) 0 (Expire demo_key 5) demo_stale = Ok (RInteger 1, s') \<and>
        view (from_secs 2) s' demo_key = Some (String [], Some (from_secs 7))"
  using stale_keys_answer [OF demo_stale_ok demo_stale_get, of "from_secs 2" 5 0]
  by (simp add: is_expired_def from_secs_def nanos_def instant_limit_def)

text \<open>C32 (large_deadline_panics). A client can unwind the worker of any key it stored: once the
  monotonic clock is past its first second, \<open>EXPIRE\<close> with the largest argument the command
  parser accepts overflows \<open>Instant + Duration\<close>, and so does \<open>SET\<close> with the same \<open>EX\<close>.\<close>

theorem large_deadline_panics:
  assumes "nanos \<le> t" and "hm_get (data s) k \<noteq> None"
    and "length k \<le> MAX_KEY_SIZE" and "value_size_bytes v \<le> MAX_VALUE_SIZE"
  shows "from_resp u (request (Expire k (2 ^ 63 - 1))) = Ok (Expire k (2 ^ 63 - 1)) \<and>
     execute b t t' (Expire k (2 ^ 63 - 1)) s = Panic Instant_Overflow \<and>
     from_resp u (request (Set k v (Some (2 ^ 63 - 1)))) = Ok (Set k v (Some (2 ^ 63 - 1))) \<and>
     execute b t t' (Set k v (Some (2 ^ 63 - 1))) s = Panic Instant_Overflow"
proof -
  have over: "(instant_add t (from_secs (2 ^ 63 - 1)) :: instant run) = Panic Instant_Overflow"
    using assms(1) by (simp add: instant_add_def from_secs_def instant_limit_def nanos_def)
  have "from_resp u (request (Expire k (2 ^ 63 - 1))) = Ok (Expire k (2 ^ 63 - 1))"
    by (rule from_resp_request) simp
  moreover have "from_resp u (request (Set k v (Some (2 ^ 63 - 1)))) = Ok (Set k v (Some (2 ^ 63 - 1)))"
    by (rule from_resp_request) simp
  moreover have "execute b t t' (Expire k (2 ^ 63 - 1)) s = Panic Instant_Overflow"
    using assms(2) over by (auto simp: execute_def cmd_expire_def)
  moreover have "execute b t t' (Set k v (Some (2 ^ 63 - 1))) s = Panic Instant_Overflow"
    using assms(2-4) over
    by (auto simp: execute_def cmd_set_def deadline_def hm_contains_key_def not_less)
  ultimately show ?thesis by blast
qed

theorem large_deadline_panics_witness:
  "execute demo_build (from_secs 1) 0 (Expire demo_key (2 ^ 63 - 1)) demo_stale = Panic Instant_Overflow"
proof -
  have "nanos \<le> from_secs 1" "hm_get (data demo_stale) demo_key \<noteq> None"
    "length demo_key \<le> MAX_KEY_SIZE" "value_size_bytes (String []) \<le> MAX_VALUE_SIZE"
    using demo_stale_get by (simp_all add: from_secs_def demo_key_def MAX_KEY_SIZE_def)
  from large_deadline_panics [OF this, of identity_unicode demo_build 0] show ?thesis
    by blast
qed

section \<open>Expired keys keep their memory\<close>

lemma history_append:
  "history exec tick xs s = Ok (rs, s') \<Longrightarrow> history exec tick ys s' = Ok (rs', s'') \<Longrightarrow>
   history exec tick (xs @ ys) s = Ok (rs @ rs', s'')"
proof (induction xs arbitrary: s rs)
  case Nil
  then show ?case by simp
next
  case (Cons ev xs)
  then show ?case by (cases ev) (fastforce simp: and_then_Ok_iff)+
qed

text \<open>Store one entry for a second, and collect it.\<close>

definition churn :: "key \<Rightarrow> val \<Rightarrow> nat \<Rightarrow> event list" where
  "churn k v i =
     [Run (from_secs (2 * i)) (Set k v (Some 1)), Tick (from_secs (2 * i + 1))]"

lemma hm_empty: "(\<And>k. hm_get d k = None) \<Longrightarrow> d = []"
  by (cases d) (force simp: hm_get_def split: if_splits)+

lemma churn_once:
  assumes "shard_ok b s" and "data s = []" and "0 < max_keys s"
    and "used_memory s + entry_size_bytes b k v \<le> max_memory_bytes s"
    and "length k \<le> MAX_KEY_SIZE" and "value_size_bytes v \<le> MAX_VALUE_SIZE"
    and "from_secs (2 * i + 1) < instant_limit"
  shows "\<exists>s'. history (\<lambda>t. execute b t t) expire_keys (churn k v i) s = Ok ([ROk], s') \<and>
     shard_ok b s' \<and> data s' = [] \<and> used_memory s' = used_memory s + entry_size_bytes b k v \<and>
     max_keys s' = max_keys s \<and> max_memory_bytes s' = max_memory_bytes s"
proof -
  let ?t = "from_secs (2 * i)" and ?x = "from_secs (2 * i + 1)"
  have d: "deadline ?t (Some 1) = Ok (Some ?x)"
    using assms(7) by (simp add: deadline_def instant_add_def from_secs_def)
  have "set_refusal b k v s = None"
    using assms(2-6) by (simp add: set_refusal_def hm_len_def)
  from cmd_set_accepted [OF assms(1) d this, of ?t] obtain s1 where
    s1: "cmd_set b ?t ?t k v (Some 1) s = Ok (ROk, s1)" "set_stored b ?t k v (Some ?x) s s1"
    by blast
  define s2 where "s2 = s1\<lparr>metrics := record_command (metrics s1)\<rparr>"
  have ok2: "shard_ok b s2"
    using set_stored_ok [OF assms(1) s1(2)] by (simp add: s2_def)
  have data2: "data s2 = hm_insert k (Entry_new ?t v (Some ?x)) []"
    using s1(2) assms(2) by (simp add: s2_def set_stored_def)
  have rest2: "used_memory s2 = used_memory s + entry_size_bytes b k v" "max_keys s2 = max_keys s"
      "max_memory_bytes s2 = max_memory_bytes s"
    using s1(2) assms(2)
    by (auto simp: s2_def set_stored_def used_memory_def record_command_def hm.weight_at_def)
  from expiration_sound_and_complete [OF ok2, of ?x] obtain s' where
    s': "expire_keys ?x s2 = Ok s'"
      "\<And>j e. hm_get (data s') j = Some e \<Longrightarrow> hm_get (data s2) j = Some e"
      "hm_len (data s2) < hm_len (data s') + TTL_KEYS_PER_CHECK \<longrightarrow>
        (\<forall>j e. hm_get (data s') j = Some e \<longrightarrow> \<not> is_expired ?x e)"
    by blast
  have "hm_len (data s2) < TTL_KEYS_PER_CHECK"
    by (simp add: data2 hm_len_def TTL_KEYS_PER_CHECK_def hm_insert_def)
  with s'(3) have live: "hm_get (data s') j = Some e \<Longrightarrow> \<not> is_expired ?x e" for j e
    by simp
  have "hm_get (data s') j = None" for j
    using s'(2) [of j] live [of j] by (cases "hm_get (data s') j") (auto simp: data2 is_expired_def split: if_splits)
  then have "data s' = []"
    by (rule hm_empty)
  moreover have "shard_ok b s'" "used_memory s' = used_memory s2"
    using expire_keys_memory [OF ok2, of ?x] s'(1) by auto
  moreover have "max_keys s' = max_keys s2" "max_memory_bytes s' = max_memory_bytes s2"
    using expire_keys_result [OF shard_ok_wf [OF ok2], of ?x] s'(1) by auto
  moreover have "history (\<lambda>t. execute b t t) expire_keys (churn k v i) s = Ok ([ROk], s')"
    using s1(1) s'(1) by (simp add: churn_def execute_def s2_def)
  ultimately show ?thesis
    using rest2 by simp
qed

definition churns :: "key \<Rightarrow> val \<Rightarrow> nat \<Rightarrow> event list" where
  "churns k v n = concat (map (churn k v) [0..<n])"

lemma churn_many:
  assumes "entry_size b < 2 ^ 32" "0 < entry_size b"
    and "length k \<le> MAX_KEY_SIZE" and "value_size_bytes v \<le> MAX_VALUE_SIZE"
    and "n * entry_size_bytes b k v \<le> MAX_MEMORY_PER_SHARD"
  shows "\<exists>s'. history (\<lambda>t. execute b t t) expire_keys (churns k v n) (Shard_new 0 i) = Ok (replicate n ROk, s') \<and>
     shard_ok b s' \<and> data s' = [] \<and> used_memory s' = n * entry_size_bytes b k v \<and>
     max_keys s' = MAX_KEYS_PER_SHARD \<and> max_memory_bytes s' = MAX_MEMORY_PER_SHARD"
  using assms(5)
proof (induction n)
  case 0
  show ?case
    using Shard_new_ok [OF assms(1), of 0 i]
    by (simp add: churns_def) (simp add: Shard_new_def ShardMetrics_new_def used_memory_def)
next
  case (Suc n)
  then obtain s where s: "history (\<lambda>t. execute b t t) expire_keys (churns k v n) (Shard_new 0 i)
        = Ok (replicate n ROk, s)"
      "shard_ok b s" "data s = []" "used_memory s = n * entry_size_bytes b k v"
      "max_keys s = MAX_KEYS_PER_SHARD" "max_memory_bytes s = MAX_MEMORY_PER_SHARD"
    by auto
  have "1 \<le> entry_size_bytes b k v"
    using assms(2) by (simp add: entry_size_bytes_def)
  with Suc.prems have "n \<le> MAX_MEMORY_PER_SHARD"
    by (metis le_trans mult.right_neutral mult_le_mono2 Suc_leD)
  then have "from_secs (2 * n + 1) < instant_limit"
    by (simp add: from_secs_def instant_limit_def MAX_MEMORY_PER_SHARD_def)
  from churn_once [OF s(2,3) _ _ assms(3,4) this] s Suc.prems obtain s' where
    s': "history (\<lambda>t. execute b t t) expire_keys (churn k v n) s = Ok ([ROk], s')"
      "shard_ok b s'" "data s' = []" "used_memory s' = Suc n * entry_size_bytes b k v"
      "max_keys s' = MAX_KEYS_PER_SHARD" "max_memory_bytes s' = MAX_MEMORY_PER_SHARD"
    by (auto simp: MAX_KEYS_PER_SHARD_def)
  have "churns k v (Suc n) = churns k v n @ churn k v n"
    by (simp add: churns_def)
  with history_append [OF s(1) s'(1)] s' show ?case
    by (auto simp: replicate_append_same)
qed

text \<open>C20 (expired_keys_fill_memory). The expiration does not give the memory of the entries it
  removes back to the counter: when a client keeps storing one entry with \<open>EX 1\<close> and each is
  collected before the next, then after as many rounds as entries fit in the limit the shard
  is empty, its counter says it is full, and it refuses every \<open>SET\<close> of an entry of at least this
  size, without any effect on the keys or the counter. With the empty key and the empty value
  as the entry this is every \<open>SET\<close>.\<close>

theorem expired_keys_fill_memory:
  assumes "entry_size b < 2 ^ 32" and "0 < entry_size b"
    and "length k \<le> MAX_KEY_SIZE" and "value_size_bytes v \<le> MAX_VALUE_SIZE"
  shows "\<exists>rs s. history (\<lambda>t. execute b t t) expire_keys
            (churns k v (MAX_MEMORY_PER_SHARD div entry_size_bytes b k v)) (Shard_new 0 i) = Ok (rs, s) \<and>
       hm_len (data s) = 0 \<and>
       (\<forall>t t' k' v' ttl. deadline_fits t (Set k' v' ttl) \<and> entry_size_bytes b k v \<le> entry_size_bytes b k' v' \<longrightarrow>
          (\<exists>msg. execute b t t' (Set k' v' ttl) s = Ok (RError msg, s\<lparr>metrics := record_command (metrics s)\<rparr>) \<and>
             (length k' \<le> MAX_KEY_SIZE \<and> value_size_bytes v' \<le> MAX_VALUE_SIZE \<longrightarrow> msg = oom_message)))"
proof -
  let ?size = "entry_size_bytes b k v"
  let ?n = "MAX_MEMORY_PER_SHARD div ?size"
  have pos: "0 < ?size"
    using assms(2) by (simp add: entry_size_bytes_def)
  obtain s where s: "history (\<lambda>t. execute b t t) expire_keys (churns k v ?n) (Shard_new 0 i)
        = Ok (replicate ?n ROk, s)"
      "shard_ok b s" "data s = []" "used_memory s = ?n * ?size"
      "max_keys s = MAX_KEYS_PER_SHARD" "max_memory_bytes s = MAX_MEMORY_PER_SHARD"
    using churn_many [OF assms, of ?n i] by auto
  have full: "MAX_MEMORY_PER_SHARD < ?n * ?size + ?size"
    using pos by (metis add.commute dividend_less_div_times)
  have "\<exists>msg. execute b t t' (Set k' v' ttl) s = Ok (RError msg, s\<lparr>metrics := record_command (metrics s)\<rparr>) \<and>
      (length k' \<le> MAX_KEY_SIZE \<and> value_size_bytes v' \<le> MAX_VALUE_SIZE \<longrightarrow> msg = oom_message)"
    if "deadline_fits t (Set k' v' ttl)" "?size \<le> entry_size_bytes b k' v'" for t t' k' v' ttl
  proof -
    have "MAX_MEMORY_PER_SHARD < used_memory s + entry_size_bytes b k' v'"
      using full that(2) s(4) by simp
    moreover have "hm_get (data s) k' = None" "hm_len (data s) < max_keys s"
      using s(3,5) by (simp_all add: hm_get_def hm_len_def MAX_KEYS_PER_SHARD_def)
    ultimately have "set_refusal b k' v' s =
        Some (if MAX_KEY_SIZE < length k' then ascii ''ERR key too large''
              else if MAX_VALUE_SIZE < value_size_bytes v' then ascii ''ERR value too large'' else oom_message)"
      using s(6) by (simp only: set_refusal_def if_False option.case if_True) simp
    with set_refused [OF s(2) that(1), where t' = t'] show ?thesis
      by auto
  qed
  with s(1,3) show ?thesis
    by (auto simp: hm_len_def)
qed

theorem expired_keys_fill_memory_witness:
  "\<exists>rs s. history (\<lambda>t. execute demo_build t t) expire_keys
            (churns [] (String []) (MAX_MEMORY_PER_SHARD div entry_size_bytes demo_build [] (String [])))
            (Shard_new 0 (ShardId 7)) = Ok (rs, s) \<and>
       hm_len (data s) = 0 \<and>
       (\<forall>t t' k' v' ttl. deadline_fits t (Set k' v' ttl) \<longrightarrow>
          (\<exists>msg. execute demo_build t t' (Set k' v' ttl) s =
             Ok (RError msg, s\<lparr>metrics := record_command (metrics s)\<rparr>)))"
proof -
  have "entry_size_bytes demo_build [] (String []) \<le> entry_size_bytes demo_build k' v'" for k' v'
    by (simp add: entry_size_bytes_def)
  moreover have "entry_size demo_build < 2 ^ 32" "0 < entry_size demo_build"
      "length ([] :: key) \<le> MAX_KEY_SIZE" "value_size_bytes (String []) \<le> MAX_VALUE_SIZE"
    by (simp_all add: demo_build_def)
  note expired_keys_fill_memory [OF this, of "ShardId 7"]
  ultimately show ?thesis
    by meson
qed

end
