(* ===== verification/Snapshot_Format.thy ===== *)
theory Snapshot_Format
  imports Common Interfaces
begin

text \<open>
  \<open>shard/persistence/format.rs\<close>: the 64-byte header of a snapshot file, written and read field
  by field. The crates \<open>byteorder\<close> and \<open>crc\<close> are parameters: a record holds the functions the
  source calls, and \<open>crates_ok\<close> what their documentation says of them.
\<close>

section \<open>The crates\<close>

text \<open>
  \<open>put_le c w n\<close> are the \<open>w\<close> bytes \<open>write_uN::<LittleEndian>\<close> appends, \<open>get_le c bs\<close> is the
  value \<open>read_uN\<close> makes of the bytes it takes, \<open>crc64 c\<close> is \<open>CRC64.checksum\<close>.
\<close>

record crates =
  put_le :: "nat \<Rightarrow> nat \<Rightarrow> bytes"
  get_le :: "bytes \<Rightarrow> nat"
  crc64 :: "bytes \<Rightarrow> u64"

definition crates_ok :: "crates \<Rightarrow> bool" where
  "crates_ok c \<longleftrightarrow>
     (\<forall>w n. length (put_le c w n) = w) \<and>
     (\<forall>w n. get_le c (put_le c w n) = n mod 256 ^ w) \<and>
     (\<forall>bs. put_le c (length bs) (get_le c bs) = bs) \<and>
     (\<forall>w. put_le c w 0 = replicate w 0)"

lemma crates_okD:
  assumes "crates_ok c"
  shows "length (put_le c w n) = w" "get_le c (put_le c w n) = n mod 256 ^ w"
    "put_le c (length bs) (get_le c bs) = bs" "put_le c w 0 = replicate w 0"
  using assms by (simp_all add: crates_ok_def)

text \<open>Little-endian bytes satisfy this, with any checksum.\<close>

definition little_endian :: "(bytes \<Rightarrow> u64) \<Rightarrow> crates" where
  "little_endian crc = \<lparr>put_le = le_bytes, get_le = le_value, crc64 = crc\<rparr>"

lemma le_bytes_0: "le_bytes w 0 = replicate w 0"
  by (induction w) simp_all

lemma little_endian_ok [simp]: "crates_ok (little_endian crc)"
  by (simp add: crates_ok_def little_endian_def wire_simps le_bytes_0)

section \<open>Reading\<close>

datatype io_error = Unexpected_Eof | Os_Error nat

type_synonym 'a io = "('a, io_error) outcome"

text \<open>\<open>read_exact\<close> into a buffer of \<open>n\<close> bytes.\<close>

definition read_exact :: "nat \<Rightarrow> bytes \<Rightarrow> (bytes \<times> bytes) io" where
  "read_exact n cur =
     (if n \<le> length cur then Ok (take n cur, drop n cur) else Err Unexpected_Eof)"

definition read_uint :: "crates \<Rightarrow> nat \<Rightarrow> bytes \<Rightarrow> (nat \<times> bytes) io" where
  "read_uint c w cur = and_then (read_exact w cur) (\<lambda>(bs, cur). Ok (get_le c bs, cur))"

lemma read_exact_append [simp, wire_simps]: "length bs = n \<Longrightarrow> read_exact n (bs @ rest) = Ok (bs, rest)"
  by (simp add: read_exact_def)

lemma read_uint_put [wire_simps]:
  "crates_ok c \<Longrightarrow> read_uint c w (put_le c w n @ rest) = Ok (n mod 256 ^ w, rest)"
  by (simp add: read_uint_def crates_okD)

lemma read_uint_split [wire_simps]:
  "crates_ok c \<Longrightarrow> length bs = w \<Longrightarrow> read_uint c w (bs @ rest) = Ok (get_le c bs, rest)"
  by (simp add: read_uint_def)

section \<open>The header\<close>

definition MAGIC :: bytes where "MAGIC = ascii ''RSDF''"
definition VERSION :: nat where "VERSION = 1"
definition HEADER_SIZE :: nat where "HEADER_SIZE = 64"

text \<open>The integer fields are numbers within their width.\<close>

record snapshot_header =
  hdr_magic :: bytes
  hdr_version :: nat
  hdr_shard_id :: u16
  hdr_reserved1 :: nat
  hdr_key_count :: nat
  hdr_timestamp :: nat
  hdr_data_checksum :: u64
  hdr_header_checksum :: u64
  hdr_reserved2 :: bytes

text \<open>\<open>now_s\<close> is the reading of the system clock, which is not before 1970.\<close>

definition SnapshotHeader_new :: "system_time \<Rightarrow> u16 \<Rightarrow> nat \<Rightarrow> snapshot_header" where
  "SnapshotHeader_new now_s shard_id key_count =
     \<lparr>hdr_magic = MAGIC, hdr_version = VERSION, hdr_shard_id = shard_id, hdr_reserved1 = 0,
      hdr_key_count = key_count, hdr_timestamp = as_secs now_s, hdr_data_checksum = 0,
      hdr_header_checksum = 0, hdr_reserved2 = replicate 20 0\<rparr>"

definition SnapshotHeader_write :: "crates \<Rightarrow> snapshot_header \<Rightarrow> bytes \<Rightarrow> bytes" where
  "SnapshotHeader_write c h writer =
     writer @ hdr_magic h @ put_le c 4 (hdr_version h) @ put_le c 2 (unat (hdr_shard_id h)) @
     put_le c 2 (hdr_reserved1 h) @ put_le c 8 (hdr_key_count h) @ put_le c 8 (hdr_timestamp h) @
     put_le c 8 (unat (hdr_data_checksum h)) @ put_le c 8 (unat (hdr_header_checksum h)) @
     hdr_reserved2 h"

definition SnapshotHeader_read :: "crates \<Rightarrow> bytes \<Rightarrow> (snapshot_header \<times> bytes) io" where
  "SnapshotHeader_read c reader =
     and_then (read_exact 4 reader) (\<lambda>(magic, reader).
     and_then (read_uint c 4 reader) (\<lambda>(version, reader).
     and_then (read_uint c 2 reader) (\<lambda>(shard_id, reader).
     and_then (read_uint c 2 reader) (\<lambda>(reserved1, reader).
     and_then (read_uint c 8 reader) (\<lambda>(key_count, reader).
     and_then (read_uint c 8 reader) (\<lambda>(timestamp, reader).
     and_then (read_uint c 8 reader) (\<lambda>(data_checksum, reader).
     and_then (read_uint c 8 reader) (\<lambda>(header_checksum, reader).
     and_then (read_exact 20 reader) (\<lambda>(reserved2, reader).
       Ok (\<lparr>hdr_magic = magic, hdr_version = version, hdr_shard_id = word_of_nat shard_id,
            hdr_reserved1 = reserved1, hdr_key_count = key_count, hdr_timestamp = timestamp,
            hdr_data_checksum = word_of_nat data_checksum,
            hdr_header_checksum = word_of_nat header_checksum,
            hdr_reserved2 = reserved2\<rparr>, reader))))))))))"

definition header_fits :: "snapshot_header \<Rightarrow> bool" where
  "header_fits h \<longleftrightarrow>
     length (hdr_magic h) = 4 \<and> length (hdr_reserved2 h) = 20 \<and> hdr_version h < 256 ^ 4 \<and>
     hdr_reserved1 h < 256 ^ 2 \<and> hdr_key_count h < 256 ^ 8 \<and> hdr_timestamp h < 256 ^ 8"

lemma unat_u64_mod: "unat x mod 18446744073709551616 = unat x" for x :: u64
  using unat_less_64 [of x] by simp

lemma unat_u16_mod: "unat x mod 65536 = unat x" for x :: u16
proof -
  have "unat x < 2 ^ 16"
    using unsigned_less [of x] by simp
  then show ?thesis by simp
qed

interpretation header: prefix_codec "\<lambda>h. SnapshotHeader_write c h []" "SnapshotHeader_read c"
    "\<lambda>h. crates_ok c \<and> header_fits h" for c
proof (unfold_locales, goal_cases)
  case (1 h rest)
  then have h: "crates_ok c" "header_fits h" by auto
  then show ?case
    by (cases h)
       (simp add: SnapshotHeader_write_def SnapshotHeader_read_def header_fits_def
         read_uint_put unat_u64_mod unat_u16_mod)
qed

lemma header_new_fits:
  "n < 2 ^ 64 \<Longrightarrow> as_secs now_s < 2 ^ 64 \<Longrightarrow> header_fits (SnapshotHeader_new now_s i n)"
  by (simp add: header_fits_def SnapshotHeader_new_def MAGIC_def VERSION_def)

lemma length_header:
  "crates_ok c \<Longrightarrow> header_fits h \<Longrightarrow> length (SnapshotHeader_write c h []) = HEADER_SIZE"
  by (simp add: SnapshotHeader_write_def header_fits_def HEADER_SIZE_def crates_okD)

end
