(* ===== verification/Snapshot.thy ===== *)
theory Snapshot
  imports Snapshot_Format Shard_Refinement
begin

text \<open>
  \<open>shard/snapshot/\<close>: the image of a shard as bytes (\<open>serialize.rs\<close>), the shard of an image
  (\<open>deserialize.rs\<close>) and the loading of a snapshot file (\<open>loader.rs\<close>). \<open>order\<close> is the order in
  which the iteration over the map meets its entries. The clocks are read for every entry:
  \<open>clk\<close> gives the readings, by the key when writing and by the number of entries still to
  be read when loading.
\<close>

section \<open>Writing\<close>

definition estimate_snapshot_size :: "shard \<Rightarrow> nat" where
  "estimate_snapshot_size s = HEADER_SIZE + hm_len (data s) * (20 + 100 + 9)"

fun write_entries ::
    "crates \<Rightarrow> (key \<Rightarrow> instant \<times> system_time) \<Rightarrow> (key \<times> entry) list \<Rightarrow> bytes \<Rightarrow> bytes run" where
  "write_entries c clk [] buf = Ok buf"
| "write_entries c clk ((k, e) # es) buf =
     (let buf = buf @ put_le c 4 (length k) @ k;
          value_bytes = as_bytes (entry_value e);
          buf = buf @ put_le c 4 (length value_bytes) @ value_bytes
      in case entry_expiry e of
           Some expiry \<Rightarrow>
             and_then (instant_to_unix_timestamp (fst (clk k)) (snd (clk k)) expiry) (\<lambda>unix_timestamp.
               write_entries c clk es (buf @ [1] @ put_le c 8 unix_timestamp))
         | None \<Rightarrow> write_entries c clk es (buf @ [0]))"

text \<open>A \<open>Cursor\<close> over a slice writes in place; past the end it fails, and the code unwraps.\<close>

definition write_at :: "nat \<Rightarrow> bytes \<Rightarrow> bytes \<Rightarrow> bytes run" where
  "write_at pos bs buf =
     (if pos + length bs \<le> length buf then Ok (take pos buf @ bs @ drop (pos + length bs) buf)
      else Panic Unwrap_Err)"

text \<open>The panics come first: a capacity beyond \<open>isize::MAX\<close>, then what the clocks cause.\<close>

definition serialize_shard ::
    "crates \<Rightarrow> system_time \<Rightarrow> (key \<Rightarrow> instant \<times> system_time) \<Rightarrow> (key \<times> entry) list \<Rightarrow> shard \<Rightarrow> bytes run" where
  "serialize_shard c now_s clk order s =
     (if isize_max < estimate_snapshot_size s then Panic Capacity_Overflow
      else
        let header = SnapshotHeader_new now_s (shard_index (sid s)) (hm_len (data s));
            buf = SnapshotHeader_write c header [];
            data_start = length buf
        in and_then (write_entries c clk order buf) (\<lambda>buf.
             let data_checksum = crc64 c (drop data_start buf);
                 header_checksum = crc64 c (take 56 buf)
             in and_then (write_at 32 (put_le c 8 (unat data_checksum)) buf) (\<lambda>buf.
                write_at 40 (put_le c 8 (unat header_checksum)) buf)))"

section \<open>Reading\<close>

datatype snapshot_error =
    TooSmall
  | InvalidMagic
  | UnsupportedVersion nat
  | HeaderChecksumMismatch
  | DataChecksumMismatch
  | Io io_error

text \<open>\<open>From<io::Error>\<close>, which \<open>?\<close> applies.\<close>

fun from_io :: "'a io \<Rightarrow> ('a, snapshot_error) outcome" where
  "from_io (Ok x) = Ok x"
| "from_io (Err e) = Err (Io e)"
| "from_io (Panic p) = Panic p"

definition read_bytes32 :: "crates \<Rightarrow> bytes \<Rightarrow> (bytes \<times> bytes) io" where
  "read_bytes32 c cur =
     and_then (read_uint c 4 cur) (\<lambda>(len, cur). read_exact len cur)"

fun read_u8 :: "bytes \<Rightarrow> (byte \<times> bytes) io" where
  "read_u8 [] = Err Unexpected_Eof"
| "read_u8 (b # bs) = Ok (b, bs)"

text \<open>One turn of the loop up to the timestamp: key, value and the timestamp if the flag is 1.\<close>

definition read_entry :: "crates \<Rightarrow> bytes \<Rightarrow> ((key \<times> bytes \<times> nat option) \<times> bytes) io" where
  "read_entry c cur =
     and_then (read_bytes32 c cur) (\<lambda>(key, cur).
     and_then (read_bytes32 c cur) (\<lambda>(value, cur).
     and_then (read_u8 cur) (\<lambda>(flag, cur).
       if flag = 1 then
         and_then (read_uint c 8 cur) (\<lambda>(expiry_timestamp, cur).
           Ok ((key, value, Some expiry_timestamp), cur))
       else Ok ((key, value, None), cur))))"

record clocks =
  now_instant :: instant
  now_system :: system_time
  entry_instant :: instant

text \<open>The rest of the turn: skip an expired key, or insert the entry and queue its deadline.\<close>

definition load_entry ::
    "clocks \<Rightarrow> nat \<Rightarrow> key \<times> bytes \<times> nat option \<Rightarrow> shard \<Rightarrow> (shard, snapshot_error) outcome" where
  "load_entry clk now_unix x s =
     (case x of
        (key, value, None) \<Rightarrow>
          Ok (s\<lparr>data := hm_insert key (Entry_new (entry_instant clk) (String value) None) (data s)\<rparr>)
      | (key, value, Some expiry_timestamp) \<Rightarrow>
          if expiry_timestamp \<le> now_unix then Ok s
          else
            and_then (unix_timestamp_to_instant (now_instant clk) (now_system clk) expiry_timestamp) (\<lambda>expiry.
              Ok (s\<lparr>data := hm_insert key (Entry_new (entry_instant clk) (String value) (Some expiry)) (data s),
                    ttl_queue := heap_push (Expiry expiry key) (ttl_queue s)\<rparr>)))"

fun load_entries ::
    "crates \<Rightarrow> (nat \<Rightarrow> clocks) \<Rightarrow> nat \<Rightarrow> nat \<Rightarrow> bytes \<Rightarrow> shard \<Rightarrow> (shard, snapshot_error) outcome" where
  "load_entries c clk now_unix 0 cur s = Ok s"
| "load_entries c clk now_unix (Suc n) cur s =
     and_then (from_io (read_entry c cur)) (\<lambda>(x, cur).
     and_then (load_entry (clk n) now_unix x s) (\<lambda>s.
       load_entries c clk now_unix n cur s))"

definition deserialize_snapshot ::
    "crates \<Rightarrow> instant \<Rightarrow> system_time \<Rightarrow> (nat \<Rightarrow> clocks) \<Rightarrow> bytes \<Rightarrow> (shard, snapshot_error) outcome" where
  "deserialize_snapshot c now now_s clk bs =
     (if length bs < HEADER_SIZE then Err TooSmall
      else
        and_then (from_io (SnapshotHeader_read c bs)) (\<lambda>(header, cur).
          if hdr_magic header \<noteq> MAGIC then Err InvalidMagic
          else if hdr_version header \<noteq> VERSION then Err (UnsupportedVersion (hdr_version header))
          else if hdr_header_checksum header \<noteq> crc64 c (take 56 bs) then Err HeaderChecksumMismatch
          else if hdr_data_checksum header \<noteq> crc64 c (drop HEADER_SIZE bs) then Err DataChecksumMismatch
          else
            and_then (load_entries c clk (as_secs now_s) (hdr_key_count header) cur
                       (Shard_new now (ShardId (hdr_shard_id header)))) (\<lambda>shard.
              Ok (set_key_count shard))))"

text \<open>\<open>files path\<close> is what \<open>fs::read\<close> finds, \<open>None\<close> when the path does not exist.\<close>

definition snapshot_name :: "shard_id \<Rightarrow> bytes" where
  "snapshot_name i = ascii ''shard'' @ dec_nat (as_usize i) @ ascii ''.snap''"

definition load_snapshot ::
    "crates \<Rightarrow> instant \<Rightarrow> system_time \<Rightarrow> (nat \<Rightarrow> clocks) \<Rightarrow> (bytes \<Rightarrow> bytes io option) \<Rightarrow> shard_id \<Rightarrow>
     (shard, snapshot_error) outcome" where
  "load_snapshot c now now_s clk files i =
     (case files (snapshot_name i) of
        None \<Rightarrow> Ok (Shard_new now i)
      | Some contents \<Rightarrow> and_then (from_io contents) (\<lambda>bs. deserialize_snapshot c now now_s clk bs))"

section \<open>The entry codec\<close>

fun enc_entry :: "crates \<Rightarrow> key \<times> bytes \<times> nat option \<Rightarrow> bytes" where
  "enc_entry c (k, v, ts) =
     put_le c 4 (length k) @ k @ put_le c 4 (length v) @ v @
     (case ts of None \<Rightarrow> [0] | Some t \<Rightarrow> 1 # put_le c 8 t)"

fun entry_fits :: "key \<times> bytes \<times> nat option \<Rightarrow> bool" where
  "entry_fits (k, v, ts) \<longleftrightarrow>
     length k < 2 ^ 32 \<and> length v < 2 ^ 32 \<and> (case ts of None \<Rightarrow> True | Some t \<Rightarrow> t < 2 ^ 64)"

lemma read_bytes32_put [wire_simps]:
  "crates_ok c \<Longrightarrow> length bs < 2 ^ 32 \<Longrightarrow>
   read_bytes32 c (put_le c 4 (length bs) @ bs @ rest) = Ok (bs, rest)"
  by (simp add: read_bytes32_def read_uint_put)

interpretation snap_entry: framed_codec "enc_entry c" "read_entry c"
    "\<lambda>x. crates_ok c \<and> entry_fits x" for c
proof (unfold_locales, goal_cases)
  case (1 x rest)
  obtain k v ts where "x = (k, v, ts)"
    by (cases x)
  with 1 show ?case
    by (auto simp: read_entry_def wire_simps split: option.splits)
next
  case (2 x)
  then show ?case
    by (cases x) (auto split: option.splits)
qed

text \<open>What is written for an entry.\<close>

definition stamp :: "(key \<Rightarrow> instant \<times> system_time) \<Rightarrow> key \<times> entry \<Rightarrow> (key \<times> bytes \<times> nat option) run" where
  "stamp clk x =
     (case x of (k, e) \<Rightarrow>
       (case entry_expiry e of
          None \<Rightarrow> Ok (k, as_bytes (entry_value e), None)
        | Some x \<Rightarrow> and_then (instant_to_unix_timestamp (fst (clk k)) (snd (clk k)) x) (\<lambda>ts.
            Ok (k, as_bytes (entry_value e), Some ts))))"

lemma write_entries_Ok:
  "write_entries c clk es buf = Ok buf' \<Longrightarrow>
   \<exists>xs. list_all2 (\<lambda>e x. stamp clk e = Ok x) es xs \<and> buf' = buf @ concat (map (enc_entry c) xs)"
proof (induction es arbitrary: buf)
  case Nil
  then show ?case by simp
next
  case (Cons p es)
  obtain k e where p: "p = (k, e)" by fastforce
  let ?buf = "buf @ put_le c 4 (length k) @ k @ put_le c 4 (length (as_bytes (entry_value e))) @
    as_bytes (entry_value e)"
  show ?case
  proof (cases "entry_expiry e")
    case None
    with Cons.prems p have "write_entries c clk es (?buf @ [0]) = Ok buf'"
      by (simp add: Let_def)
    from Cons.IH [OF this] None p show ?thesis
      by (force simp: stamp_def intro: exI [of _ "(k, as_bytes (entry_value e), None) # xs" for xs])
  next
    case (Some x)
    with Cons.prems p obtain ts where
      ts: "instant_to_unix_timestamp (fst (clk k)) (snd (clk k)) x = (Ok ts :: nat run)"
      and w: "write_entries c clk es (?buf @ [1] @ put_le c 8 ts) = Ok buf'"
      by (auto simp: Let_def and_then_Ok_iff)
    from Cons.IH [OF w] Some p ts show ?thesis
      by (force simp: stamp_def intro: exI [of _ "(k, as_bytes (entry_value e), Some ts) # xs" for xs])
  qed
qed

section \<open>Loading what was written\<close>

fun load_list ::
    "(nat \<Rightarrow> clocks) \<Rightarrow> nat \<Rightarrow> (key \<times> bytes \<times> nat option) list \<Rightarrow> shard \<Rightarrow> (shard, snapshot_error) outcome" where
  "load_list clk now_unix [] s = Ok s"
| "load_list clk now_unix (x # xs) s =
     and_then (load_entry (clk (length xs)) now_unix x s) (load_list clk now_unix xs)"

lemma load_entries_enc:
  "crates_ok c \<Longrightarrow> list_all entry_fits xs \<Longrightarrow>
   load_entries c clk now_unix (length xs) (concat (map (enc_entry c) xs) @ rest) s = load_list clk now_unix xs s"
proof (induction xs arbitrary: s)
  case Nil
  then show ?case by simp
next
  case (Cons x xs)
  then have "read_entry c (enc_entry c x @ (concat (map (enc_entry c) xs) @ rest)) =
      Ok (x, concat (map (enc_entry c) xs) @ rest)"
    by (intro snap_entry.dec_enc) simp
  with Cons show ?case
    by (auto intro!: arg_cong2 [where f = and_then] ext)
qed

text \<open>The instant of a timestamp, where the clock can represent it.\<close>

definition instant_of :: "clocks \<Rightarrow> nat \<Rightarrow> instant" where
  "instant_of clk ts =
     (if as_secs (now_system clk) < ts then now_instant clk + from_secs (ts - as_secs (now_system clk))
      else now_instant clk)"

text \<open>The monotonic clock started after 1970.\<close>

definition clocks_ok :: "clocks \<Rightarrow> bool" where
  "clocks_ok clk \<longleftrightarrow> now_instant clk \<le> now_system clk \<and> now_instant clk < instant_limit"

lemma instant_of_less:
  assumes "clocks_ok clk" and "ts < 2 ^ 63"
  shows "instant_of clk ts < instant_limit"
proof (cases "as_secs (now_system clk) < ts")
  case True
  let ?u = "as_secs (now_system clk)"
  have "now_system clk < (?u + 1) * nanos"
    by (simp add: as_secs_def dividend_less_div_times add.commute)
  then have "now_instant clk + from_secs (ts - ?u) < (?u + 1) * nanos + (ts - ?u) * nanos"
    using assms(1) by (simp add: from_secs_def clocks_ok_def)
  also have "\<dots> = (ts + 1) * nanos"
    using True by (simp flip: add_mult_distrib)
  also have "\<dots> \<le> instant_limit"
    using assms(2) by (simp add: instant_limit_def nanos_def)
  finally show ?thesis
    using True by (simp add: instant_of_def)
next
  case False
  with assms show ?thesis by (simp add: instant_of_def clocks_ok_def)
qed

lemma unix_timestamp_to_instant_Ok:
  "clocks_ok clk \<Longrightarrow> ts < 2 ^ 63 \<Longrightarrow>
   unix_timestamp_to_instant (now_instant clk) (now_system clk) ts = Ok (instant_of clk ts)"
  using instant_of_less [of clk ts]
  by (auto simp: instant_of_def unix_timestamp_to_instant_def instant_add_def)

lemma instant_to_unix_timestamp_less:
  "instant_to_unix_timestamp now_i now_s x = Ok ts \<Longrightarrow> ts < 2 ^ 63"
  by (auto simp: instant_to_unix_timestamp_def and_then_Ok_iff instant_add_Ok_iff as_secs_def
      instant_limit_def less_mult_imp_div_less)

text \<open>What loading makes of one written entry, where \<open>before\<close> was stored.\<close>

definition loaded ::
    "(nat \<Rightarrow> clocks) \<Rightarrow> nat \<Rightarrow> (bytes \<times> nat option) option \<Rightarrow> entry option \<Rightarrow> entry option \<Rightarrow> bool" where
  "loaded clk now_unix written before after \<longleftrightarrow>
     (case written of
        None \<Rightarrow> after = before
      | Some (v, None) \<Rightarrow>
          (\<exists>e. after = Some e \<and> entry_value e = String v \<and> entry_expiry e = None)
      | Some (v, Some ts) \<Rightarrow>
          if ts \<le> now_unix then after = before
          else \<exists>e n. after = Some e \<and> entry_value e = String v \<and>
                 entry_expiry e = Some (instant_of (clk n) ts))"

lemma load_entry_result:
  assumes "clocks_ok (clk n)" and "\<And>ts. t = Some ts \<Longrightarrow> ts < 2 ^ 63"
    and "hm_wf (data s)" and "covered (data s) (ttl_queue s)"
  shows "\<exists>s'. load_entry (clk n) now_unix (k, v, t) s = Ok s' \<and> hm_wf (data s') \<and>
     covered (data s') (ttl_queue s') \<and> metrics s' = metrics s \<and> sid s' = sid s \<and>
     (\<forall>j. j \<noteq> k \<longrightarrow> hm_get (data s') j = hm_get (data s) j) \<and>
     loaded clk now_unix (Some (v, t)) (hm_get (data s) k) (hm_get (data s') k)"
proof (cases t)
  case None
  with assms show ?thesis
    by (auto simp: load_entry_def loaded_def intro: covered_insert_None)
next
  case (Some ts)
  with assms show ?thesis
    by (auto simp: load_entry_def loaded_def unix_timestamp_to_instant_Ok intro: covered_insert_Some)
qed

lemma load_list_result:
  assumes "\<And>n. clocks_ok (clk n)"
  shows "distinct (map fst xs) \<Longrightarrow> (\<And>k v ts. (k, v, Some ts) \<in> set xs \<Longrightarrow> ts < 2 ^ 63) \<Longrightarrow>
     hm_wf (data s) \<Longrightarrow> covered (data s) (ttl_queue s) \<Longrightarrow>
     \<exists>s'. load_list clk now_unix xs s = Ok s' \<and> hm_wf (data s') \<and>
       covered (data s') (ttl_queue s') \<and> metrics s' = metrics s \<and> sid s' = sid s \<and>
       (\<forall>k. loaded clk now_unix (map_of xs k) (hm_get (data s) k) (hm_get (data s') k))"
proof (induction xs arbitrary: s)
  case Nil
  then show ?case by (simp add: loaded_def)
next
  case (Cons x xs)
  obtain k v t where x: "x = (k, v, t)" by (cases x)
  have "ts < 2 ^ 63" if "t = Some ts" for ts
    using Cons.prems(2) [of k v ts] that x by simp
  from load_entry_result [of clk "length xs" t s now_unix k v, OF assms this Cons.prems(3,4)]
  obtain s1 where s1: "load_entry (clk (length xs)) now_unix (k, v, t) s = Ok s1" "hm_wf (data s1)"
      "covered (data s1) (ttl_queue s1)" "metrics s1 = metrics s" "sid s1 = sid s"
      "\<forall>j. j \<noteq> k \<longrightarrow> hm_get (data s1) j = hm_get (data s) j"
      "loaded clk now_unix (Some (v, t)) (hm_get (data s) k) (hm_get (data s1) k)"
    by blast
  have absent: "map_of xs k = None"
    using Cons.prems(1) x by (simp add: map_of_eq_None_iff)
  have "distinct (map fst xs)"
    using Cons.prems(1) by simp
  moreover have "\<And>k v ts. (k, v, Some ts) \<in> set xs \<Longrightarrow> ts < 2 ^ 63"
    using Cons.prems(2) by (meson list.set_intros(2))
  ultimately obtain s2 where
    s2: "load_list clk now_unix xs s1 = Ok s2" "hm_wf (data s2)" "covered (data s2) (ttl_queue s2)"
      "metrics s2 = metrics s1" "sid s2 = sid s1"
      "\<forall>k. loaded clk now_unix (map_of xs k) (hm_get (data s1) k) (hm_get (data s2) k)"
    using Cons.IH [OF _ _ s1(2,3)] by blast
  have kept: "hm_get (data s2) k = hm_get (data s1) k"
    using spec [OF s2(6), of k] absent by (simp add: loaded_def)
  have all: "loaded clk now_unix (map_of (x # xs) j) (hm_get (data s) j) (hm_get (data s2) j)" for j
  proof (cases "j = k")
    case True
    with kept s1(7) x show ?thesis by simp
  next
    case False
    then have "hm_get (data s1) j = hm_get (data s) j"
      using s1(6) by blast
    with spec [OF s2(6), of j] False x show ?thesis by simp
  qed
  have "load_list clk now_unix (x # xs) s = Ok s2"
    using s1(1) s2(1) x by simp
  then show ?case
    using s1(4,5) s2(2-5) all by metis
qed

end
