(* ===== verification/Snapshot_Properties.thy ===== *)
theory Snapshot_Properties
  imports Snapshot Shard_Properties
begin

text \<open>
  The properties of snapshots: the entries and their deadlines survive writing and loading,
  the header does not (its checksums are written four bytes off the place they are read
  from), a loaded shard's memory counter starts at zero, and a far deadline unwinds the
  worker when the next snapshot is due.
\<close>

section \<open>Deadlines\<close>

text \<open>C23 (deadline_within_a_second). A deadline that is written as a Unix timestamp before it is
  due and read back under other clocks, before the timestamp is due, is kept to less than a second on the wall
  clock: the distances of both deadlines from their clock readings, taken from the wall
  times of these readings, differ by less than a second.\<close>

theorem deadline_within_a_second:
  assumes "now_i \<le> x" and "instant_to_unix_timestamp now_i now_s x = (Ok ts :: nat run)"
    and "as_secs now_s' < ts" and "unix_timestamp_to_instant now_i' now_s' ts = (Ok x' :: instant run)"
  shows "now_s + (x - now_i) < now_s' + (x' - now_i') + nanos \<and>
         now_s' + (x' - now_i') < now_s + (x - now_i) + nanos"
proof -
  let ?w = "now_s + (x - now_i)"
  have ts: "ts = ?w div nanos"
    using assms(1,2)
    by (auto simp: instant_to_unix_timestamp_def and_then_Ok_iff instant_add_Ok_iff
        duration_since_def as_secs_def)
  have x': "x' - now_i' = (ts - now_s' div nanos) * nanos"
    using assms(3,4)
    by (auto simp: unix_timestamp_to_instant_def instant_add_Ok_iff from_secs_def as_secs_def)
  have "now_s' div nanos * nanos + (ts - now_s' div nanos) * nanos = ts * nanos"
    using assms(3) by (simp add: as_secs_def flip: add_mult_distrib)
  then have "now_s' + (x' - now_i') = ts * nanos + now_s' mod nanos"
    using div_mult_mod_eq [of now_s' nanos] x' by linarith
  moreover have "?w = ts * nanos + ?w mod nanos"
    using div_mult_mod_eq [of ?w nanos] ts by simp
  moreover have "?w mod nanos < nanos" "now_s' mod nanos < nanos"
    by simp_all
  ultimately show ?thesis
    by linarith
qed

theorem deadline_within_a_second_witness:
  "(100 :: nat) + (3 * nanos + 7 - 5) < 200 + (3 * nanos + 9 - 9) + nanos"
  using deadline_within_a_second [of 5 "3 * nanos + 7" 100 3 200 9 "3 * nanos + 9"]
  by (simp add: instant_to_unix_timestamp_def unix_timestamp_to_instant_def instant_add_def
      instant_limit_def duration_since_def as_secs_def from_secs_def nanos_def)

section \<open>Entries\<close>

text \<open>How the loaded entry compares with the one in memory, key by key.\<close>

definition survives ::
    "instant \<times> system_time \<Rightarrow> (nat \<Rightarrow> clocks) \<Rightarrow> nat \<Rightarrow> entry option \<Rightarrow> entry option \<Rightarrow> bool" where
  "survives written_at clk now_unix stored after \<longleftrightarrow>
     (case stored of
        None \<Rightarrow> after = None
      | Some e \<Rightarrow>
          (case entry_expiry e of
             None \<Rightarrow> (\<exists>e'. after = Some e' \<and> entry_value e' = entry_value e \<and> entry_expiry e' = None)
           | Some x \<Rightarrow>
               (\<exists>ts. instant_to_unix_timestamp (fst written_at) (snd written_at) x = (Ok ts :: nat run) \<and>
                 (if ts \<le> now_unix then after = None
                  else \<exists>e' n. after = Some e' \<and> entry_value e' = entry_value e \<and>
                    entry_expiry e' = Some (instant_of (clk n) ts)))))"

lemma stamp_props:
  assumes "stamp clk (k, e) = Ok x" and "length k \<le> MAX_KEY_SIZE"
    and "value_size_bytes (entry_value e) \<le> MAX_VALUE_SIZE"
  shows "fst x = k \<and> entry_fits x \<and> (\<forall>ts. snd (snd x) = Some ts \<longrightarrow> ts < 2 ^ 63) \<and>
     (loaded lclk now_unix (Some (snd x)) None after \<longrightarrow> survives (clk k) lclk now_unix (Some e) after)"
proof -
  have v: "String (as_bytes (entry_value e)) = entry_value e" "length (as_bytes (entry_value e)) < 2 ^ 32"
    using assms(3) by (cases "entry_value e"; simp add: MAX_VALUE_SIZE_def)+
  show ?thesis
  proof (cases "entry_expiry e")
    case None
    with assms v show ?thesis
      by (auto simp: stamp_def MAX_KEY_SIZE_def loaded_def survives_def)
  next
    case (Some y)
    with assms(1) obtain ts where
      ts: "instant_to_unix_timestamp (fst (clk k)) (snd (clk k)) y = (Ok ts :: nat run)"
        "x = (k, as_bytes (entry_value e), Some ts)"
      by (auto simp: stamp_def and_then_Ok_iff)
    then have "ts < 2 ^ 63"
      using instant_to_unix_timestamp_less by blast
    with ts Some assms(2) v show ?thesis
      by (auto simp: MAX_KEY_SIZE_def loaded_def survives_def split: if_splits)
  qed
qed

lemma stamped_list:
  assumes "list_all2 (\<lambda>e x. stamp clk e = Ok x) es xs"
    and "\<forall>(k, e)\<in>set es. length k \<le> MAX_KEY_SIZE \<and> value_size_bytes (entry_value e) \<le> MAX_VALUE_SIZE"
  shows "map fst xs = map fst es \<and> list_all entry_fits xs \<and>
     (\<forall>k v ts. (k, v, Some ts) \<in> set xs \<longrightarrow> ts < 2 ^ 63) \<and>
     (\<forall>k after. loaded lclk now_unix (map_of xs k) None after \<longrightarrow>
        survives (clk k) lclk now_unix (map_of es k) after)"
  using assms
proof (induction es xs rule: list_all2_induct)
  case Nil
  then show ?case by (simp add: loaded_def survives_def)
next
  case (Cons p es x xs)
  obtain k e where p: "p = (k, e)" by fastforce
  have lim: "length k \<le> MAX_KEY_SIZE" "value_size_bytes (entry_value e) \<le> MAX_VALUE_SIZE"
    using Cons.prems p by auto
  note x = stamp_props [OF Cons.hyps(1) [unfolded p] lim]
  obtain v t where xv: "x = (k, v, t)"
    using x by (cases x) auto
  have IH: "map fst xs = map fst es" "list_all entry_fits xs"
    "\<And>k v ts. (k, v, Some ts) \<in> set xs \<Longrightarrow> ts < 2 ^ 63"
    "\<And>k after. loaded lclk now_unix (map_of xs k) None after \<Longrightarrow>
       survives (clk k) lclk now_unix (map_of es k) after"
    using Cons.IH Cons.prems by auto
  have "survives (clk j) lclk now_unix (map_of (p # es) j) after"
    if "loaded lclk now_unix (map_of (x # xs) j) None after" for j after
    using that IH(4) [of j after] x [of lclk now_unix after] p xv by (cases "j = k") auto
  moreover have "ts < 2 ^ 63" if "(j, w, Some ts) \<in> set (x # xs)" for j w ts
    using that IH(3) x xv by auto
  ultimately show ?case
    using IH(1,2) x p by auto
qed

text \<open>C18 (entries_survive_a_snapshot). What \<open>serialize_shard\<close> writes for the entries of a good
  shard, in any order of iteration, the loop of \<open>deserialize_snapshot\<close> reads back without an
  error or a panic: exactly the stored keys whose timestamp is not due come back, with their
  values; a key without a deadline has none, the others have the instant of their timestamp,
  and every deadline is in the queue.\<close>

theorem entries_survive_a_snapshot:
  assumes "crates_ok c" and "keys_ok s" and "mset order = hm_entries (data s)"
    and "write_entries c wclk order buf = Ok (buf @ body)" and "\<And>n. clocks_ok (lclk n)"
  shows "\<exists>s'. load_entries c lclk now_unix (hm_len (data s)) body (Shard_new now i) = Ok s' \<and>
     covered (data s') (ttl_queue s') \<and>
     (\<forall>k. survives (wclk k) lclk now_unix (hm_get (data s) k) (hm_get (data s') k))"
proof -
  have wf: "hm_wf (data s)"
    using assms(2) by (simp add: keys_ok_def)
  have perm: "mset order = mset (data s)"
    using assms(3) by (simp add: hm_entries_def)
  have dist: "distinct (map fst order)"
    using wf perm unfolding hm_wf_def by (metis mset_map mset_eq_imp_distinct_iff)
  have "map_of order = map_of (data s)"
    using wf dist mset_eq_setD [OF perm] by (subst map_of_inject_set) (simp_all add: hm_wf_def)
  then have get: "map_of order k = hm_get (data s) k" for k
    by (simp add: hm_get_def)
  have lim: "\<forall>(k, e)\<in>set order. length k \<le> MAX_KEY_SIZE \<and> value_size_bytes (entry_value e) \<le> MAX_VALUE_SIZE"
  proof clarify
    fix k e
    assume "(k, e) \<in> set order"
    then have "hm_get (data s) k = Some e"
      using dist get map_of_is_SomeI by metis
    then show "length k \<le> MAX_KEY_SIZE \<and> value_size_bytes (entry_value e) \<le> MAX_VALUE_SIZE"
      using assms(2) by (simp add: keys_ok_def)
  qed
  obtain xs where xs: "list_all2 (\<lambda>e x. stamp wclk e = Ok x) order xs" "body = concat (map (enc_entry c) xs)"
    using write_entries_Ok [OF assms(4)] by auto
  note st = stamped_list [OF xs(1) lim, of lclk now_unix]
  have len: "hm_len (data s) = length xs"
    using arg_cong [OF perm, of size] list_all2_lengthD [OF xs(1)] by (simp add: hm_len_def)
  have "\<exists>s'. load_list lclk now_unix xs (Shard_new now i) = Ok s' \<and> hm_wf (data s') \<and>
       covered (data s') (ttl_queue s') \<and> metrics s' = metrics (Shard_new now i) \<and> sid s' = sid (Shard_new now i) \<and>
       (\<forall>k. loaded lclk now_unix (map_of xs k) (hm_get (data (Shard_new now i)) k) (hm_get (data s') k))"
  proof (rule load_list_result)
    show "distinct (map fst xs)"
      using dist st by simp
    show "\<And>k v ts. (k, v, Some ts) \<in> set xs \<Longrightarrow> ts < 2 ^ 63"
      using st by blast
  qed (use assms(5) in \<open>simp_all add: Shard_new_def covered_def\<close>)
  then obtain s' where s': "load_list lclk now_unix xs (Shard_new now i) = Ok s'"
      "covered (data s') (ttl_queue s')"
      "\<forall>k. loaded lclk now_unix (map_of xs k) None (hm_get (data s') k)"
    by (auto simp: Shard_new_def)
  moreover have "load_entries c lclk now_unix (hm_len (data s)) body (Shard_new now i) = Ok s'"
    using load_entries_enc [OF assms(1), of xs lclk now_unix "[]"] st s'(1) len xs(2) by simp
  moreover have "\<forall>k. survives (wclk k) lclk now_unix (hm_get (data s) k) (hm_get (data s') k)"
    using s'(3) st get by metis
  ultimately show ?thesis by blast
qed

definition demo_crates :: crates where
  "demo_crates = little_endian (\<lambda>_. 1)"

definition demo_clocks :: clocks where
  "demo_clocks = \<lparr>now_instant = 3, now_system = from_secs 50, entry_instant = 4\<rparr>"

lemma demo_crates_ok [simp]: "crates_ok demo_crates" "clocks_ok demo_clocks"
  by (simp_all add: demo_crates_def demo_clocks_def clocks_ok_def from_secs_def nanos_def instant_limit_def)

lemma demo_stamp:
  "instant_to_unix_timestamp 0 (from_secs 60) (from_secs (Suc 0)) = (Ok 61 :: nat run)"
  by (simp add: instant_to_unix_timestamp_def instant_add_def duration_since_def instant_limit_def
      from_secs_def as_secs_def nanos_def)

lemma demo_written:
  "write_entries demo_crates (\<lambda>_. (0, from_secs 60)) (data demo_stale) [] =
     Ok ([] @ [1, 0, 0, 0, 107, 0, 0, 0, 0, 1, 61, 0, 0, 0, 0, 0, 0, 0])"
  by (simp add: demo_stale_def demo_key_def demo_stamp Let_def demo_crates_def little_endian_def
      le_bytes_numeral)

theorem entries_survive_a_snapshot_witness:
  "\<exists>s' e'. load_entries demo_crates (\<lambda>_. demo_clocks) 50 1
        [1, 0, 0, 0, 107, 0, 0, 0, 0, 1, 61, 0, 0, 0, 0, 0, 0, 0] (Shard_new 3 (ShardId 7)) = Ok s' \<and>
     hm_get (data s') demo_key = Some e' \<and> entry_expiry e' = Some (3 + from_secs 11)"
proof -
  have "keys_ok demo_stale"
    using demo_stale_ok by (simp add: shard_ok_def)
  from entries_survive_a_snapshot [OF demo_crates_ok(1) this _ demo_written, of "\<lambda>_. demo_clocks" 50 3 "ShardId 7"]
  obtain s' where s': "load_entries demo_crates (\<lambda>_. demo_clocks) 50 (hm_len (data demo_stale))
        [1, 0, 0, 0, 107, 0, 0, 0, 0, 1, 61, 0, 0, 0, 0, 0, 0, 0] (Shard_new 3 (ShardId 7)) = Ok s'"
      "\<And>k. survives (0, from_secs 60) (\<lambda>_. demo_clocks) 50 (hm_get (data demo_stale) k) (hm_get (data s') k)"
    by (auto simp: hm_entries_def)
  have "hm_len (data demo_stale) = 1"
    by (simp add: demo_stale_def hm_len_def)
  moreover have "instant_of demo_clocks 61 = 3 + from_secs 11"
    by (simp add: instant_of_def demo_clocks_def)
  ultimately show ?thesis
    using s'(1) s'(2) [of demo_key] by (auto simp: demo_stale_get survives_def demo_stamp)
qed

section \<open>The file as a whole\<close>

text \<open>The bytes of a fresh header: 28 bytes of fields, then 36 zeros.\<close>

definition header_prefix :: "crates \<Rightarrow> system_time \<Rightarrow> u16 \<Rightarrow> nat \<Rightarrow> bytes" where
  "header_prefix c now_s i n =
     MAGIC @ put_le c 4 VERSION @ put_le c 2 (unat i) @ put_le c 2 0 @ put_le c 8 n @ put_le c 8 (as_secs now_s)"

lemma fresh_header:
  "crates_ok c \<Longrightarrow>
   SnapshotHeader_write c (SnapshotHeader_new now_s i n) [] = header_prefix c now_s i n @ replicate 36 0 \<and>
   length (header_prefix c now_s i n) = 28"
  by (simp add: SnapshotHeader_write_def SnapshotHeader_new_def header_prefix_def crates_okD
      MAGIC_def flip: replicate_add)

lemma read_patched_header:
  assumes "crates_ok c" and "length a = 8" and "length b = 8" and "length z = 20"
  shows "\<exists>h. SnapshotHeader_read c (header_prefix c now_s i n @ a @ b @ z @ rest) = Ok (h, rest) \<and>
     hdr_magic h = MAGIC \<and> hdr_version h = VERSION \<and> hdr_data_checksum h = word_of_nat (get_le c a)"
proof -
  have "length MAGIC = 4"
    by (simp add: MAGIC_def)
  with assms show ?thesis
    by (simp add: SnapshotHeader_read_def header_prefix_def read_uint_put read_uint_split VERSION_def)
qed

text \<open>What \<open>serialize_shard\<close> returns: the checksums stand four bytes into their fields.\<close>

lemma serialized_image:
  assumes "crates_ok c" and "serialize_shard c now_s clk order s = Ok bs"
  shows "\<exists>body h. bs = header_prefix c now_s (shard_index (sid s)) (hm_len (data s)) @ replicate 4 0 @
       put_le c 8 (unat (crc64 c body)) @ put_le c 8 h @ replicate 16 0 @ body"
proof -
  let ?p = "header_prefix c now_s (shard_index (sid s)) (hm_len (data s))"
  have p: "length ?p = 28"
    using fresh_header [OF assms(1)] by blast
  obtain buf where buf: "write_entries c clk order (?p @ replicate 36 0) = Ok buf"
    "and_then (write_at 32 (put_le c 8 (unat (crc64 c (drop 64 buf)))) buf)
       (write_at 40 (put_le c 8 (unat (crc64 c (take 56 buf))))) = Ok bs"
    using assms(2) fresh_header [OF assms(1), of now_s "shard_index (sid s)" "hm_len (data s)"]
    by (auto simp: serialize_shard_def Let_def and_then_Ok_iff split: if_splits)
  obtain body where body: "buf = ?p @ replicate 36 0 @ body"
    using write_entries_Ok [OF buf(1)] by auto
  have "replicate 36 (0 :: byte) = replicate 4 0 @ replicate 8 0 @ replicate 8 0 @ replicate 16 0"
    by (simp flip: replicate_add)
  with body p have "bs = ?p @ replicate 4 0 @ put_le c 8 (unat (crc64 c body)) @
      put_le c 8 (unat (crc64 c (take 56 buf))) @ replicate 16 0 @ body"
    using buf(2) by (simp add: write_at_def crates_okD [OF assms(1)] split: if_splits)
  then show ?thesis by blast
qed

lemma get_le_less:
  assumes "crates_ok c" and "length bs = 8"
  shows "get_le c bs < 2 ^ 64"
proof -
  have "get_le c bs = get_le c bs mod 256 ^ 8"
    using crates_okD(2) [OF assms(1), of 8 "get_le c bs"] crates_okD(3) [OF assms(1), of bs] assms(2)
    by simp
  moreover have "get_le c bs mod 256 ^ 8 < 256 ^ 8"
    by (rule mod_less_divisor) simp
  ultimately show ?thesis by simp
qed

text \<open>A value whose bytes are shifted by four can equal the value only when it is zero.\<close>

lemma shifted_field:
  assumes "crates_ok c" and "word_of_nat (get_le c (replicate 4 0 @ take 4 (put_le c 8 (unat d)))) = (d :: u64)"
  shows "d = 0"
proof -
  let ?D = "put_le c 8 (unat d)" and ?F = "replicate 4 0 @ take 4 (put_le c 8 (unat d))"
  have len: "length ?D = 8" "length ?F = 8"
    by (simp_all add: crates_okD [OF assms(1)])
  have "unat d = get_le c ?F"
    using assms(2) get_le_less [OF assms(1) len(2)] by (metis unat_of_nat_64)
  then have D: "?D = ?F"
    using crates_okD(3) [OF assms(1), of ?F] len(2) by simp
  have "take 4 ?D = replicate 4 0"
    by (subst D) simp
  then have "?F = replicate 8 0"
    by (simp flip: replicate_add)
  then have "get_le c ?F = 0"
    using crates_okD(2) [OF assms(1), of 8 0] crates_okD(4) [OF assms(1), of 8] by simp
  with \<open>unat d = get_le c ?F\<close> show ?thesis
    by (simp add: unat_eq_0)
qed

text \<open>C19 (snapshot_file_rejected). \<open>serialize_shard\<close> patches the checksums at the offsets 32 and 40,
  the header has them at 28 and 36, and the checksum of the header is taken before the patch
  and verified after it. So an image whose data checksum is not zero, whatever the checksum
  function, is never loaded: \<open>deserialize_snapshot\<close> reports a mismatch.\<close>

theorem snapshot_file_rejected:
  assumes "crates_ok c" and "serialize_shard c now_s wclk order s = Ok bs"
    and "crc64 c (drop HEADER_SIZE bs) \<noteq> 0"
  shows "deserialize_snapshot c now now_s' lclk bs \<in>
           {Err HeaderChecksumMismatch, Err DataChecksumMismatch}"
proof -
  let ?p = "header_prefix c now_s (shard_index (sid s)) (hm_len (data s))"
  obtain body h where bs: "bs = ?p @ replicate 4 0 @ put_le c 8 (unat (crc64 c body)) @ put_le c 8 h @
      replicate 16 0 @ body"
    using serialized_image [OF assms(1,2)] by blast
  let ?D = "put_le c 8 (unat (crc64 c body))" and ?E = "put_le c 8 h"
  have len: "length ?p = 28" "length ?D = 8" "length ?E = 8"
    using fresh_header [OF assms(1)] by (simp_all add: crates_okD [OF assms(1)])
  let ?f = "replicate 4 0 @ take 4 ?D" and ?g = "drop 4 ?D @ take 4 ?E" and ?z = "drop 4 ?E @ replicate 16 0"
  have split: "bs = ?p @ ?f @ ?g @ ?z @ body"
    unfolding bs by (metis append.assoc append_take_drop_id)
  have body: "drop HEADER_SIZE bs = body"
    unfolding bs HEADER_SIZE_def using len by simp
  have "length ?f = 8" "length ?g = 8" "length ?z = 20"
    using len by simp_all
  from read_patched_header [OF assms(1) this, of now_s _ _ body] obtain hd where
    hd: "SnapshotHeader_read c bs = Ok (hd, body)" "hdr_magic hd = MAGIC" "hdr_version hd = VERSION"
      "hdr_data_checksum hd = word_of_nat (get_le c ?f)"
    unfolding split by blast
  have "hdr_data_checksum hd \<noteq> crc64 c body"
    using shifted_field [OF assms(1), of "crc64 c body"] assms(3) hd(4) body by auto
  moreover have "\<not> length bs < HEADER_SIZE"
    unfolding bs HEADER_SIZE_def using len by simp
  ultimately show ?thesis
    using hd(1-3) body by (simp add: deserialize_snapshot_def)
qed

theorem snapshot_file_rejected_witness:
  "\<exists>bs. serialize_shard demo_crates (from_secs 60) (\<lambda>_. (0, from_secs 60)) [] demo_shard = Ok bs \<and>
     deserialize_snapshot demo_crates 0 (from_secs 70) (\<lambda>_. demo_clocks) bs \<in>
       {Err HeaderChecksumMismatch, Err DataChecksumMismatch}"
proof -
  obtain bs where bs: "serialize_shard demo_crates (from_secs 60) (\<lambda>_. (0, from_secs 60)) [] demo_shard = Ok bs"
    by (simp add: serialize_shard_def demo_shard_def Shard_new_def estimate_snapshot_size_def
        HEADER_SIZE_def isize_max_def hm_len_def fresh_header write_at_def crates_okD Let_def)
  have "crc64 demo_crates (drop HEADER_SIZE bs) \<noteq> 0"
    by (simp add: demo_crates_def little_endian_def)
  from snapshot_file_rejected [OF demo_crates_ok(1) bs this] bs show ?thesis
    by blast
qed

section \<open>What loading and writing do to the rest of the shard\<close>

lemma load_entry_frame:
  "load_entry clk now_unix x s = Ok s' \<Longrightarrow>
   metrics s' = metrics s \<and> max_memory_bytes s' = max_memory_bytes s \<and> max_keys s' = max_keys s \<and>
   (hm_wf (data s) \<longrightarrow> hm_wf (data s'))"
  by (auto simp: load_entry_def and_then_Ok_iff split: prod.splits option.splits if_splits)

lemma load_entries_frame:
  "load_entries c clk now_unix n cur s = Ok s' \<Longrightarrow>
   metrics s' = metrics s \<and> max_memory_bytes s' = max_memory_bytes s \<and> max_keys s' = max_keys s \<and>
   (hm_wf (data s) \<longrightarrow> hm_wf (data s'))"
proof (induction n arbitrary: cur s)
  case 0
  then show ?case by simp
next
  case (Suc n)
  then obtain x rest s1 where "load_entry (clk n) now_unix x s = Ok s1"
      "load_entries c clk now_unix n rest s1 = Ok s'"
    by (auto simp: and_then_Ok_iff)
  with Suc.IH [of rest s1] load_entry_frame [of "clk n" now_unix x s s1] show ?case
    by auto
qed

lemma deserialize_frame:
  assumes "deserialize_snapshot c now now_s clk bs = Ok s"
  shows "memory_bytes (metrics s) = 0 \<and> max_memory_bytes s = MAX_MEMORY_PER_SHARD \<and>
     max_keys s = MAX_KEYS_PER_SHARD \<and> hm_wf (data s)"
proof -
  obtain i n rest s0 where "load_entries c clk (as_secs now_s) n rest (Shard_new now i) = Ok s0"
      "s = set_key_count s0"
    using assms by (auto simp: deserialize_snapshot_def and_then_Ok_iff split: if_splits)
  with load_entries_frame [of c clk "as_secs now_s" n rest "Shard_new now i" s0] show ?thesis
    by (simp add: Shard_new_def ShardMetrics_new_def set_key_count_def)
qed

text \<open>C33 (loaded_entries_unaccounted). Loading stores entries without counting their bytes: the
  memory counter of a loaded shard is zero. Overwriting a loaded key with a smaller value then
  subtracts more than the counter holds: a build with overflow checks panics, a build without
  wraps around and refuses the \<open>SET\<close> as out of memory.\<close>

theorem loaded_entries_unaccounted:
  assumes "deserialize_snapshot c now now_s clk bs = Ok s" and "hm_get (data s) k = Some e"
    and "length k \<le> MAX_KEY_SIZE" and "value_size_bytes (entry_value e) \<le> MAX_VALUE_SIZE"
    and "value_size_bytes v < value_size_bytes (entry_value e)" and "entry_size b < 2 ^ 32"
  shows "used_memory s = 0 \<and>
     execute b t t' (Set k v None) s =
       (if overflow_checks b then Panic Arith_Overflow
        else Ok (RError oom_message, s\<lparr>metrics := record_command (metrics s)\<rparr>))"
proof -
  note f = deserialize_frame [OF assms(1)]
  let ?new = "entry_size_bytes b k v" and ?old = "entry_size_bytes b k (entry_value e)"
  have sizes: "?new < ?old" "?old < 2 ^ 33"
    using assms(3-6) by (simp_all add: entry_size_bytes_def MAX_KEY_SIZE_def MAX_VALUE_SIZE_def)
  then have words: "unat (word_of_nat ?new :: usize) = ?new" "unat (word_of_nat ?old :: usize) = ?old"
    by simp_all
  have less: "(word_of_nat ?new :: usize) < word_of_nat ?old"
    using sizes words by (simp add: word_less_nat_alt)
  have "unat (word_of_nat ?new - word_of_nat ?old :: usize) = 2 ^ 64 + ?new - ?old"
    using sizes words less by (simp add: unat_sub_if_size word_size not_le)
  then have big: "max_memory_bytes s < unat (word_of_nat ?new - word_of_nat ?old :: usize)"
    using sizes(2) f by (simp add: MAX_MEMORY_PER_SHARD_def)
  show ?thesis
    using assms(2-5) f less big
    by (simp add: execute_def cmd_set_def deadline_def usize_add_def usize_sub_def Let_def
        hm_contains_key_def used_memory_def)
qed

definition demo_header :: snapshot_header where
  "demo_header = (SnapshotHeader_new 0 7 1)\<lparr>hdr_data_checksum := 1, hdr_header_checksum := 1\<rparr>"

definition demo_image :: bytes where
  "demo_image = SnapshotHeader_write demo_crates demo_header [] @ enc_entry demo_crates (demo_key, [65], None)"

lemma demo_loaded:
  "\<exists>s e. deserialize_snapshot demo_crates 0 0 (\<lambda>_. demo_clocks) demo_image = Ok s \<and>
     hm_get (data s) demo_key = Some e \<and> entry_value e = String [65]"
proof -
  have fits: "header_fits demo_header"
    by (simp add: demo_header_def header_fits_def SnapshotHeader_new_def MAGIC_def VERSION_def as_secs_def)
  then have "SnapshotHeader_read demo_crates demo_image =
      Ok (demo_header, enc_entry demo_crates (demo_key, [65], None))"
    unfolding demo_image_def by (intro header.dec_enc) simp
  moreover have "\<not> length demo_image < HEADER_SIZE"
    using length_header [OF demo_crates_ok(1) fits] by (simp add: demo_image_def)
  moreover have "read_entry demo_crates (enc_entry demo_crates (demo_key, [65], None) @ []) = Ok ((demo_key, [65], None), [])"
    by (rule snap_entry.dec_enc) (simp add: demo_key_def)
  moreover have "crc64 demo_crates x = 1" for x
    by (simp add: demo_crates_def little_endian_def)
  ultimately show ?thesis
    by (simp add: deserialize_snapshot_def demo_header_def SnapshotHeader_new_def load_entry_def
        Shard_new_def)
qed

theorem loaded_entries_unaccounted_witness:
  "\<exists>s. deserialize_snapshot demo_crates 0 0 (\<lambda>_. demo_clocks) demo_image = Ok s \<and>
     execute demo_build 5 6 (Set demo_key (String []) None) s = Panic Arith_Overflow"
proof -
  obtain s e where s: "deserialize_snapshot demo_crates 0 0 (\<lambda>_. demo_clocks) demo_image = Ok s"
      "hm_get (data s) demo_key = Some e" "entry_value e = String [65]"
    using demo_loaded by blast
  have "used_memory s = 0 \<and>
     execute demo_build 5 6 (Set demo_key (String []) None) s =
       (if overflow_checks demo_build then Panic Arith_Overflow
        else Ok (RError oom_message, s\<lparr>metrics := record_command (metrics s)\<rparr>))"
    by (rule loaded_entries_unaccounted [OF s(1,2)])
       (simp_all add: s(3) demo_key_def demo_build_def MAX_KEY_SIZE_def MAX_VALUE_SIZE_def)
  with s(1) show ?thesis
    by (auto simp: demo_build_def)
qed

lemma write_entries_panics:
  assumes "(k, e) \<in> set es" and "entry_expiry e = Some x"
    and "fst (clk k) \<le> x" and "instant_limit \<le> snd (clk k) + (x - fst (clk k))"
  shows "write_entries c clk es buf = Panic Instant_Overflow"
  using assms(1)
proof (induction es arbitrary: buf)
  case Nil
  then show ?case by simp
next
  case (Cons p es)
  obtain j f where p: "p = (j, f)" by fastforce
  have bad: "instant_to_unix_timestamp (fst (clk k)) (snd (clk k)) x = (Panic Instant_Overflow :: nat run)"
    using assms(3,4) by (simp add: instant_to_unix_timestamp_def duration_since_def instant_add_def)
  show ?case
  proof (cases "p = (k, e)")
    case True
    with assms(2) bad show ?thesis by (simp add: Let_def)
  next
    case False
    with Cons.prems have "(k, e) \<in> set es" by simp
    from Cons.IH [OF this] p show ?thesis
      by (auto simp: Let_def instant_to_unix_timestamp_def instant_add_def split: option.splits)
  qed
qed

text \<open>A deadline the monotonic clock can represent and the
  system clock cannot, which \<open>EXPIRE\<close> accepts, panics the worker when the next snapshot is
  taken.\<close>

theorem far_deadline_panics_snapshot:
  assumes "crates_ok c" and "keys_ok s" and "max_keys s \<le> MAX_KEYS_PER_SHARD"
    and "mset order = hm_entries (data s)"
    and "hm_get (data s) k = Some e" and "entry_expiry e = Some x"
    and "fst (clk k) \<le> x" and "instant_limit \<le> snd (clk k) + (x - fst (clk k))"
  shows "x < instant_limit \<and> serialize_shard c now_s clk order s = Panic Instant_Overflow"
proof -
  have "x < instant_limit"
    using assms(2,5,6) by (simp add: keys_ok_def)
  have "(k, e) \<in># hm_entries (data s)"
    using assms(2,5) by (simp add: keys_ok_def hm.get_entries)
  then have "(k, e) \<in> set order"
    using assms(4) by (metis set_mset_mset)
  then have "write_entries c clk order buf = Panic Instant_Overflow" for buf
    by (rule write_entries_panics) (rule assms(6-8))+
  moreover have "\<not> isize_max < estimate_snapshot_size s"
    using assms(2,3)
    by (simp add: keys_ok_def estimate_snapshot_size_def isize_max_def HEADER_SIZE_def MAX_KEYS_PER_SHARD_def)
  ultimately show ?thesis
    using \<open>x < instant_limit\<close> by (simp add: serialize_shard_def)
qed

theorem far_deadline_panics_snapshot_witness:
  "serialize_shard demo_crates 0 (\<lambda>_. (0, instant_limit)) (data demo_stale) demo_stale = Panic Instant_Overflow"
proof -
  have "keys_ok demo_stale"
    using demo_stale_ok by (simp add: shard_ok_def)
  from far_deadline_panics_snapshot [OF demo_crates_ok(1) this _ _ demo_stale_get, of "data demo_stale"
      "from_secs 1" "\<lambda>_. (0, instant_limit)" 0]
  show ?thesis
    by (simp add: hm_entries_def) (simp add: demo_stale_def demo_shard_def Shard_new_def)
qed

end
