(* ===== verification/Persistence.thy ===== *)
theory Persistence
  imports Snapshot
begin

text \<open>
  \<open>shard/persistence/writer.rs\<close> and the snapshot channel of \<open>common/channels.rs\<close>: the task that
  takes snapshot images off its channel and replaces the snapshot file, as a step relation on
  the channel, the files of the snapshot directory and the point the task has reached. Every
  system call may fail, a write may stop half way, and the process may stop in any state: what
  is on disk then is what the state shows.
\<close>

section \<open>Files\<close>

type_synonym files = "bytes \<Rightarrow> bytes option"

definition temp_name :: "shard_id \<Rightarrow> bytes" where
  "temp_name i = snapshot_name i @ ascii ''.tmp''"

text \<open>
  \<open>Path::extension\<close> of a directory entry: what follows the last dot (46), when something
  stands before it.
\<close>

definition extension :: "bytes \<Rightarrow> bytes option" where
  "extension name =
     (let after = takeWhile (\<lambda>c. c \<noteq> 46) (rev name)
      in if length after + 1 < length name then Some (rev after) else None)"

text \<open>
  \<open>listing\<close> is what \<open>read_dir\<close> returns, \<open>None\<close> when it fails; \<open>removable\<close> says for which
  paths \<open>remove_file\<close> succeeds. Its result is ignored.
\<close>

definition cleanup_temp_files :: "bytes list option \<Rightarrow> (bytes \<Rightarrow> bool) \<Rightarrow> files \<Rightarrow> files" where
  "cleanup_temp_files listing removable fs =
     (case listing of
        None \<Rightarrow> fs
      | Some names \<Rightarrow>
          foldl (\<lambda>fs name.
            if extension name = Some (ascii ''tmp'') then
              (if removable name then fs(name := None) else fs)
            else fs) fs names)"

section \<open>The snapshot channel\<close>

record snapshot_request =
  req_shard :: shard_id
  req_data :: bytes

text \<open>A bounded \<open>tokio\<close> channel: the requests queued, whether a sender and the receiver live.\<close>

record snapshot_channel =
  queued :: "snapshot_request list"
  sender_alive :: bool
  receiver_alive :: bool

datatype try_send_result = Sent | Full | Closed

definition try_send :: "snapshot_request \<Rightarrow> snapshot_channel \<Rightarrow> try_send_result \<times> snapshot_channel" where
  "try_send r ch =
     (if \<not> receiver_alive ch then (Closed, ch)
      else if SNAPSHOT_CHANNEL_CAPACITY \<le> length (queued ch) then (Full, ch)
      else (Sent, ch\<lparr>queued := queued ch @ [r]\<rparr>))"

section \<open>The writer task\<close>

text \<open>Where the task is; \<open>Writing\<close> holds the bytes still to be written.\<close>

datatype writer_at =
    Waiting
  | Creating snapshot_request
  | Writing snapshot_request bytes
  | Syncing snapshot_request
  | Renaming snapshot_request
  | Finished

record writer =
  channel :: snapshot_channel
  files :: files
  at :: writer_at

definition temp_of :: "snapshot_request \<Rightarrow> bytes" where
  "temp_of r = temp_name (req_shard r)"

definition final_of :: "snapshot_request \<Rightarrow> bytes" where
  "final_of r = snapshot_name (req_shard r)"

text \<open>
  One step of \<open>run_snapshot_writer\<close>. An error of any call is logged and the loop goes on with
  the next request; so it does when the blocking task panics.
\<close>

inductive writer_step :: "writer \<Rightarrow> writer \<Rightarrow> bool" where
  receive: "at w = Waiting \<Longrightarrow> queued (channel w) = r # rs \<Longrightarrow>
     writer_step w (w\<lparr>channel := (channel w)\<lparr>queued := rs\<rparr>, at := Creating r\<rparr>)"
| disconnected: "at w = Waiting \<Longrightarrow> queued (channel w) = [] \<Longrightarrow> \<not> sender_alive (channel w) \<Longrightarrow>
     writer_step w (w\<lparr>channel := (channel w)\<lparr>receiver_alive := False\<rparr>, at := Finished\<rparr>)"
| create_file: "at w = Creating r \<Longrightarrow>
     writer_step w (w\<lparr>files := (files w)(temp_of r \<mapsto> []), at := Writing r (req_data r)\<rparr>)"
| write_some: "at w = Writing r (xs @ ys) \<Longrightarrow> xs \<noteq> [] \<Longrightarrow> files w (temp_of r) = Some zs \<Longrightarrow>
     writer_step w (w\<lparr>files := (files w)(temp_of r \<mapsto> zs @ xs), at := Writing r ys\<rparr>)"
| write_done: "at w = Writing r [] \<Longrightarrow> writer_step w (w\<lparr>at := Syncing r\<rparr>)"
| sync_file: "at w = Syncing r \<Longrightarrow> writer_step w (w\<lparr>at := Renaming r\<rparr>)"
| rename_file: "at w = Renaming r \<Longrightarrow> files w (temp_of r) = Some bs \<Longrightarrow>
     writer_step w (w\<lparr>files := (files w)(temp_of r := None, final_of r \<mapsto> bs), at := Waiting\<rparr>)"
| call_fails: "at w \<in> {Creating r, Writing r ys, Syncing r, Renaming r} \<Longrightarrow>
     writer_step w (w\<lparr>at := Waiting\<rparr>)"

inductive_cases writer_stepE: "writer_step w w'"

section \<open>Names\<close>

lemma extension_temp: "extension (temp_name i) = Some (ascii ''tmp'')"
  by (simp add: extension_def temp_name_def snapshot_name_def Let_def)

lemma extension_snapshot: "extension (snapshot_name i) = Some (ascii ''snap'')"
  by (simp add: extension_def snapshot_name_def Let_def)

lemma temp_not_final [simp]: "temp_name i \<noteq> snapshot_name j" "snapshot_name j \<noteq> temp_name i"
  using extension_temp [of i] extension_snapshot [of j] by force+

lemma snapshot_name_inj: "snapshot_name i = snapshot_name j \<longleftrightarrow> i = j"
proof
  assume "snapshot_name i = snapshot_name j"
  then have eq: "dec_nat (as_usize i) = dec_nat (as_usize j)"
    by (simp add: snapshot_name_def)
  have small: "in_i64 (int (as_usize i))" for i
  proof (rule in_i64_of_nat)
    have "unat (shard_index i) < 2 ^ 16"
      using unsigned_less [of "shard_index i"] by simp
    then show "as_usize i < 2 ^ 63"
      by (simp add: as_usize_def)
  qed
  have "parse_digits False 0 (dec_nat (as_usize i)) = Some (int (as_usize i))" for i
    using parse_digits_dec_nat [of False "as_usize i"] small [of i] by (simp only: if_False simp_thms)
  from this [of i] this [of j] eq have "as_usize i = as_usize j"
    by (metis of_nat_eq_iff option.inject)
  then show "i = j"
    by (rule iffD1 [OF as_usize_inj])
qed simp

section \<open>The snapshot file\<close>

text \<open>
  The task writes only names of the requests it holds, and until the rename the temporary
  file holds the part of the image that is written.
\<close>

fun holds :: "writer_at \<Rightarrow> snapshot_request option" where
  "holds (Creating r) = Some r"
| "holds (Writing r ys) = Some r"
| "holds (Syncing r) = Some r"
| "holds (Renaming r) = Some r"
| "holds _ = None"

definition progress :: "writer \<Rightarrow> bool" where
  "progress w \<longleftrightarrow>
     (case at w of
        Writing r ys \<Rightarrow> (\<exists>xs. files w (temp_of r) = Some xs \<and> xs @ ys = req_data r)
      | Syncing r \<Rightarrow> files w (temp_of r) = Some (req_data r)
      | Renaming r \<Rightarrow> files w (temp_of r) = Some (req_data r)
      | _ \<Rightarrow> True)"

lemma progress_step: "writer_step w w' \<Longrightarrow> progress w \<Longrightarrow> progress w'"
  by (induction rule: writer_step.induct) (auto simp: progress_def split: writer_at.splits)

text \<open>The requests the task may still save: those queued and the one it holds.\<close>

definition pending :: "writer \<Rightarrow> snapshot_request list" where
  "pending w = (case holds (at w) of None \<Rightarrow> [] | Some r \<Rightarrow> [r]) @ queued (channel w)"

lemma pending_step: "writer_step w w' \<Longrightarrow> set (pending w') \<subseteq> set (pending w)"
  by (induction rule: writer_step.induct) (auto simp: pending_def split: option.splits)

lemma final_step:
  "writer_step w w' \<Longrightarrow> progress w \<Longrightarrow>
   files w' (snapshot_name i) = files w (snapshot_name i) \<or>
   (\<exists>r\<in>set (pending w). req_shard r = i \<and> files w' (snapshot_name i) = Some (req_data r))"
proof (induction rule: writer_step.induct)
  case (rename_file w r bs)
  then show ?case
    by (auto simp: progress_def pending_def temp_of_def final_of_def snapshot_name_inj)
qed (auto simp: temp_of_def)

end
