(* ===== verification/Worker.thy ===== *)
theory Worker
  imports Persistence Shard_Invariants
begin

text \<open>
  \<open>shard/worker.rs\<close>: the task that owns a shard. Its \<open>select!\<close> loop takes whichever of a command,
  the TTL tick and the snapshot tick is ready; the step relation lets it take any, with any
  clock readings and any order of iteration over the map. The steps of the environment
  (commands arrive, the senders go away) and of the writer task interleave with them.
\<close>

definition COMMAND_CHANNEL_CAPACITY :: nat where
  "COMMAND_CHANNEL_CAPACITY = 1024"

datatype phase = Serving | Closing | Down | Unwound panic

record node =
  inbox :: "command list"
  senders_alive :: bool
  state :: shard
  replies :: "response list"
  phase :: phase
  saver :: writer

section \<open>Steps\<close>

definition trigger_snapshot ::
    "crates \<Rightarrow> system_time \<Rightarrow> (key \<Rightarrow> instant \<times> system_time) \<Rightarrow> (key \<times> entry) list \<Rightarrow>
     shard \<Rightarrow> snapshot_channel \<Rightarrow> snapshot_channel run" where
  "trigger_snapshot c now_s clk order s ch =
     and_then (serialize_shard c now_s clk order s) (\<lambda>snapshot_data.
       let req = \<lparr>req_shard = sid s, req_data = snapshot_data\<rparr> in Ok (snd (try_send req ch)))"

text \<open>The task ends: its receiver and its sender are dropped.\<close>

definition ended :: "phase \<Rightarrow> node \<Rightarrow> node" where
  "ended p n = n\<lparr>phase := p, inbox := [],
     saver := (saver n)\<lparr>channel := (channel (saver n))\<lparr>sender_alive := False\<rparr>\<rparr>\<rparr>"

definition with_channel :: "snapshot_channel \<Rightarrow> node \<Rightarrow> node" where
  "with_channel ch n = n\<lparr>saver := (saver n)\<lparr>channel := ch\<rparr>\<rparr>"

inductive worker_step :: "build \<Rightarrow> crates \<Rightarrow> node \<Rightarrow> node \<Rightarrow> bool" for b c where
  serve: "phase n = Serving \<Longrightarrow> inbox n = cmd # rest \<Longrightarrow> execute b t t' cmd (state n) = Ok (r, s') \<Longrightarrow>
     worker_step b c n (n\<lparr>inbox := rest, state := s', replies := replies n @ [r]\<rparr>)"
| serve_panics: "phase n = Serving \<Longrightarrow> inbox n = cmd # rest \<Longrightarrow> execute b t t' cmd (state n) = Panic p \<Longrightarrow>
     worker_step b c n (ended (Unwound p) n)"
| ttl_tick: "phase n = Serving \<Longrightarrow> expire_keys now (state n) = Ok s' \<Longrightarrow>
     worker_step b c n (n\<lparr>state := s'\<rparr>)"
| ttl_panics: "phase n = Serving \<Longrightarrow> expire_keys now (state n) = Panic p \<Longrightarrow>
     worker_step b c n (ended (Unwound p) n)"
| snapshot_tick: "phase n = Serving \<Longrightarrow> mset order = hm_entries (data (state n)) \<Longrightarrow>
     trigger_snapshot c now_s clk order (state n) (channel (saver n)) = Ok ch \<Longrightarrow>
     worker_step b c n (with_channel ch n)"
| snapshot_panics: "phase n \<in> {Serving, Closing} \<Longrightarrow> mset order = hm_entries (data (state n)) \<Longrightarrow>
     trigger_snapshot c now_s clk order (state n) (channel (saver n)) = Panic p \<Longrightarrow>
     worker_step b c n (ended (Unwound p) n)"
| closed: "phase n = Serving \<Longrightarrow> inbox n = [] \<Longrightarrow> \<not> senders_alive n \<Longrightarrow>
     worker_step b c n (n\<lparr>phase := Closing\<rparr>)"
| final_snapshot: "phase n = Closing \<Longrightarrow> mset order = hm_entries (data (state n)) \<Longrightarrow>
     trigger_snapshot c now_s clk order (state n) (channel (saver n)) = Ok ch \<Longrightarrow>
     worker_step b c n (ended Down (with_channel ch n))"
| arrive: "senders_alive n \<Longrightarrow> phase n = Serving \<Longrightarrow> length (inbox n) < COMMAND_CHANNEL_CAPACITY \<Longrightarrow>
     worker_step b c n (n\<lparr>inbox := inbox n @ [cmd]\<rparr>)"
| senders_gone: "worker_step b c n (n\<lparr>senders_alive := False\<rparr>)"
| save: "writer_step (saver n) w \<Longrightarrow> worker_step b c n (n\<lparr>saver := w\<rparr>)"

inductive_cases worker_stepE: "worker_step b c n n'"

text \<open>The start: \<open>run_shard_worker\<close> makes an empty shard, whatever the files hold.\<close>

definition started :: "instant \<Rightarrow> shard_id \<Rightarrow> files \<Rightarrow> node" where
  "started now i fs =
     \<lparr>inbox = [], senders_alive = True, state = Shard_new now i, replies = [], phase = Serving,
      saver = \<lparr>channel = \<lparr>queued = [], sender_alive = True, receiver_alive = True\<rparr>, files = fs,
               at = Waiting\<rparr>\<rparr>"

inductive reachable :: "build \<Rightarrow> crates \<Rightarrow> node \<Rightarrow> node \<Rightarrow> bool" for b c n0 where
  start: "reachable b c n0 n0"
| step: "reachable b c n0 n \<Longrightarrow> worker_step b c n n' \<Longrightarrow> reachable b c n0 n'"

section \<open>What never changes\<close>

definition frame :: "shard \<Rightarrow> shard \<Rightarrow> bool" where
  "frame s s' \<longleftrightarrow> sid s' = sid s \<and> max_keys s' = max_keys s \<and> max_memory_bytes s' = max_memory_bytes s"

lemma frame_refl [simp]: "frame s s"
  by (simp add: frame_def)

lemma frame_trans: "frame s s' \<Longrightarrow> frame s' s'' \<Longrightarrow> frame s s''"
  by (simp add: frame_def)

lemma frame_metrics [simp]:
  "frame s (set_key_count s') = frame s s'" "frame s (count_expired n s') = frame s s'"
  "frame s (s'\<lparr>metrics := m\<rparr>) = frame s s'" "frame s (s'\<lparr>data := d\<rparr>) = frame s s'"
  "frame s (s'\<lparr>ttl_queue := q\<rparr>) = frame s s'"
  by (simp_all add: frame_def set_key_count_def count_expired_def)

lemma frame_remove: "frame s (snd (remove_key_update_metrics b k s))"
  by (auto simp: remove_key_update_metrics_def Let_def split: option.split)

lemma frame_del_loop: "frame s (snd (del_loop b ks n s))"
proof (induction ks arbitrary: n s)
  case (Cons k ks)
  then show ?case
    using frame_remove [of s b k]
    by (auto simp: Let_def split: prod.split intro: frame_trans)
qed simp

lemma frame_run_command:
  "run_command b t t' c s = Ok (r, s') \<Longrightarrow> frame s s'"
proof (cases c)
  case (Set k v ttl)
  moreover assume "run_command b t t' c s = Ok (r, s')"
  ultimately show ?thesis
    by (auto simp: cmd_set_def Let_def and_then_Ok_iff split: if_splits option.splits)
next
  case (Get k)
  moreover assume "run_command b t t' c s = Ok (r, s')"
  ultimately show ?thesis
    by (auto simp: cmd_get_def frame_remove split: if_splits option.splits)
next
  case (Del ks)
  moreover assume "run_command b t t' c s = Ok (r, s')"
  ultimately show ?thesis
    using frame_del_loop [of s b ks 0] by (auto simp: cmd_del_def split: prod.splits)
next
  case (Expire k n)
  moreover assume "run_command b t t' c s = Ok (r, s')"
  ultimately show ?thesis
    by (auto simp: cmd_expire_def and_then_Ok_iff split: option.splits)
next
  case (Ttl k)
  moreover assume "run_command b t t' c s = Ok (r, s')"
  ultimately show ?thesis
    by (auto simp: cmd_ttl_def frame_remove split: if_splits option.splits)
qed auto

lemma frame_execute: "execute b t t' c s = Ok (r, s') \<Longrightarrow> frame s s'"
  by (auto simp: execute_def and_then_Ok_iff dest: frame_run_command)

lemma frame_expire: "shard_ok b s \<Longrightarrow> expire_keys now s = Ok s' \<Longrightarrow> frame s s'"
  using expire_keys_result [OF shard_ok_wf, of b s now] by (auto simp: frame_def)

section \<open>Which panics there are\<close>

lemma write_entries_cases:
  "(\<exists>buf'. write_entries c clk es buf = Ok buf') \<or> write_entries c clk es buf = Panic Instant_Overflow"
proof (induction es arbitrary: buf)
  case (Cons p es)
  then show ?case
    by (cases p) (auto simp: Let_def instant_to_unix_timestamp_def instant_add_def split: option.splits)
qed simp

lemma serialize_cases:
  assumes "crates_ok c" and "shard_ok b s" and "max_keys s \<le> MAX_KEYS_PER_SHARD"
  obtains (ok) bs where "serialize_shard c now_s clk order s = Ok bs"
  | (overflow) "serialize_shard c now_s clk order s = Panic Instant_Overflow"
proof -
  have size: "\<not> isize_max < estimate_snapshot_size s"
    using assms(2,3)
    by (simp add: shard_ok_def keys_ok_def estimate_snapshot_size_def isize_max_def HEADER_SIZE_def
        MAX_KEYS_PER_SHARD_def)
  let ?h = "SnapshotHeader_write c (SnapshotHeader_new now_s (shard_index (sid s)) (hm_len (data s))) []"
  have len: "length ?h = 64"
    by (simp add: SnapshotHeader_write_def SnapshotHeader_new_def MAGIC_def crates_okD [OF assms(1)])
  show ?thesis
  proof (cases "\<exists>buf. write_entries c clk order ?h = Ok buf")
    case True
    then obtain buf where buf: "write_entries c clk order ?h = Ok buf" by blast
    have "64 \<le> length buf"
      using write_entries_Ok [OF buf] len by auto
    then show ?thesis
      using ok size buf by (auto simp: serialize_shard_def Let_def write_at_def crates_okD [OF assms(1)])
  next
    case False
    then have "write_entries c clk order ?h = Panic Instant_Overflow"
      using write_entries_cases by blast
    then show ?thesis
      using overflow size by (auto simp: serialize_shard_def Let_def)
  qed
qed

text \<open>Without a condition on the deadline: a command keeps the invariant or unwinds the task.\<close>

lemma run_command_cases:
  assumes "shard_ok b s"
  shows "(\<exists>r s'. run_command b t t' c s = Ok (r, s') \<and> shard_ok b s') \<or>
         run_command b t t' c s = Panic Instant_Overflow"
proof (cases "deadline_fits t c")
  case True
  with run_command_ok [OF assms, of t c t'] show ?thesis by blast
next
  case False
  then obtain k n v where "c = Set k v (Some n) \<or> c = Expire k n"
    by (auto simp: deadline_fits_def split: command.splits option.splits)
  then show ?thesis
  proof
    assume c: "c = Set k v (Some n)"
    from assms show ?thesis
      by (cases rule: cmd_set_cases [of b s t t' k v "Some n"])
         (use assms c set_stored_ok in auto)
  next
    assume c: "c = Expire k n"
    show ?thesis
      by (cases rule: cmd_expire_cases [of s k t n]) (use assms c set_deadline_ok in auto)
  qed
qed

lemma execute_panic: "shard_ok b s \<Longrightarrow> execute b t t' c s = Panic p \<Longrightarrow> p = Instant_Overflow"
  using run_command_cases [of b s t t' c] by (auto simp: execute_def)

lemma execute_keeps_ok: "shard_ok b s \<Longrightarrow> execute b t t' c s = Ok (r, s') \<Longrightarrow> shard_ok b s'"
  using run_command_cases [of b s t t' c] by (auto simp: execute_def)

end
