(* ===== verification/Worker_Properties.thy ===== *)
theory Worker_Properties
  imports Worker Snapshot_Properties
begin

text \<open>
  The invariant of a worker and its snapshot writer over all interleavings of their steps, and
  what it gives: a worker keeps its shard good, only an unrepresentable deadline unwinds it,
  the snapshot channel never holds more than one image, and the snapshot file is at every
  moment the old one or a complete image of a good state of this shard.
\<close>

section \<open>The invariant\<close>

definition image_of :: "build \<Rightarrow> crates \<Rightarrow> shard_id \<Rightarrow> bytes \<Rightarrow> bool" where
  "image_of b c i bs \<longleftrightarrow>
     (\<exists>s now_s clk order. shard_ok b s \<and> sid s = i \<and> mset order = hm_entries (data s) \<and>
        serialize_shard c now_s clk order s = Ok bs)"

definition shard_inv :: "build \<Rightarrow> shard_id \<Rightarrow> shard \<Rightarrow> bool" where
  "shard_inv b i s \<longleftrightarrow> shard_ok b s \<and> sid s = i \<and> max_keys s = MAX_KEYS_PER_SHARD"

definition saver_inv :: "build \<Rightarrow> crates \<Rightarrow> shard_id \<Rightarrow> files \<Rightarrow> writer \<Rightarrow> bool" where
  "saver_inv b c i fs w \<longleftrightarrow>
     progress w \<and> length (queued (channel w)) \<le> SNAPSHOT_CHANNEL_CAPACITY \<and>
     (\<forall>r\<in>set (pending w). req_shard r = i \<and> image_of b c i (req_data r)) \<and>
     (\<forall>j. files w (snapshot_name j) = fs (snapshot_name j) \<or>
          j = i \<and> (\<exists>bs. image_of b c i bs \<and> files w (snapshot_name j) = Some bs))"

definition node_inv :: "build \<Rightarrow> crates \<Rightarrow> shard_id \<Rightarrow> files \<Rightarrow> node \<Rightarrow> bool" where
  "node_inv b c i fs n \<longleftrightarrow>
     shard_inv b i (state n) \<and> saver_inv b c i fs (saver n) \<and>
     (\<forall>p. phase n = Unwound p \<longrightarrow> p = Instant_Overflow)"

lemma shard_inv_execute:
  "shard_inv b i s \<Longrightarrow> execute b t t' cmd s = Ok (r, s') \<Longrightarrow> shard_inv b i s'"
  using execute_keeps_ok [of b s t t' cmd r s'] frame_execute [of b t t' cmd s r s']
  by (auto simp: shard_inv_def frame_def)

lemma shard_inv_expire:
  "shard_inv b i s \<Longrightarrow> expire_keys now s = Ok s' \<Longrightarrow> shard_inv b i s'"
  using expire_keys_memory [of b s now] frame_expire [of b s now s']
  by (auto simp: shard_inv_def frame_def)

lemma expire_no_panic: "shard_inv b i s \<Longrightarrow> expire_keys now s \<noteq> Panic p"
  using expire_keys_memory [of b s now] by (auto simp: shard_inv_def)

lemma channel_only [simp]:
  "progress (w\<lparr>channel := ch\<rparr>) = progress w"
  "pending (w\<lparr>channel := ch\<rparr>) = (case holds (at w) of None \<Rightarrow> [] | Some r \<Rightarrow> [r]) @ queued ch"
  by (cases "at w"; simp add: progress_def pending_def temp_of_def)+

lemma saver_inv_writer:
  assumes "saver_inv b c i fs w" and "writer_step w w'"
  shows "saver_inv b c i fs w'"
proof -
  have "length (queued (channel w')) \<le> length (queued (channel w))"
    using assms(2) by (induction rule: writer_step.induct) auto
  moreover have "set (pending w') \<subseteq> set (pending w)"
    by (rule pending_step [OF assms(2)])
  moreover have "files w' (snapshot_name j) = fs (snapshot_name j) \<or>
      j = i \<and> (\<exists>bs. image_of b c i bs \<and> files w' (snapshot_name j) = Some bs)" for j
    using final_step [OF assms(2), of j] assms(1) unfolding saver_inv_def by metis
  ultimately show ?thesis
    using assms progress_step [OF assms(2)] by (auto simp: saver_inv_def)
qed

lemma saver_inv_trigger:
  assumes "saver_inv b c i fs w" and "shard_inv b i s" and "mset order = hm_entries (data s)"
    and "trigger_snapshot c now_s clk order s (channel w) = Ok ch"
  shows "saver_inv b c i fs (w\<lparr>channel := ch\<rparr>)"
proof -
  obtain bs where bs: "serialize_shard c now_s clk order s = Ok bs"
      "ch = snd (try_send \<lparr>req_shard = sid s, req_data = bs\<rparr> (channel w))"
    using assms(4) by (auto simp: trigger_snapshot_def and_then_Ok_iff)
  have "image_of b c i bs"
    using assms(2,3) bs(1) by (auto simp: image_of_def shard_inv_def)
  with assms(1,2) bs(2) show ?thesis
    by (auto simp: saver_inv_def try_send_def shard_inv_def pending_def)
qed

lemma saver_inv_ended [simp]: "saver_inv b c i fs (w\<lparr>channel := (channel w)\<lparr>sender_alive := x\<rparr>\<rparr>) = saver_inv b c i fs w"
  by (simp add: saver_inv_def) (simp add: pending_def)

lemma trigger_panic:
  assumes "crates_ok c" and "shard_inv b i s" and "trigger_snapshot c now_s clk order s ch = Panic p"
  shows "p = Instant_Overflow"
proof -
  have "max_keys s \<le> MAX_KEYS_PER_SHARD" "shard_ok b s"
    using assms(2) by (simp_all add: shard_inv_def)
  then show ?thesis
    by (cases rule: serialize_cases [OF assms(1), of b s now_s clk order])
       (use assms(3) in \<open>auto simp: trigger_snapshot_def Let_def\<close>)
qed

lemma node_inv_step:
  assumes "worker_step b c n n'" and "node_inv b c i fs n" and "crates_ok c"
  shows "node_inv b c i fs n'"
  using assms
proof (induction rule: worker_step.induct)
  case (serve n cmd rest t t' r s')
  then show ?case
    using shard_inv_execute by (auto simp: node_inv_def)
next
  case (serve_panics n cmd rest t t' p)
  then show ?case
    using execute_panic by (auto simp: node_inv_def ended_def shard_inv_def)
next
  case (ttl_tick n now s')
  then show ?case
    using shard_inv_expire by (auto simp: node_inv_def)
next
  case (ttl_panics n now p)
  then show ?case
    using expire_no_panic by (auto simp: node_inv_def)
next
  case (snapshot_tick n order now_s clk ch)
  then show ?case
    using saver_inv_trigger by (auto simp: node_inv_def with_channel_def)
next
  case (snapshot_panics n order now_s clk p)
  then show ?case
    using trigger_panic by (fastforce simp: node_inv_def ended_def)
next
  case (final_snapshot n order now_s clk ch)
  then have "saver_inv b c i fs (saver n\<lparr>channel := ch\<rparr>)"
    by (intro saver_inv_trigger) (auto simp: node_inv_def)
  with final_snapshot show ?case
    using saver_inv_ended [of b c i fs False "saver n\<lparr>channel := ch\<rparr>"]
    by (auto simp: node_inv_def with_channel_def ended_def)
next
  case (save n w)
  then show ?case
    using saver_inv_writer by (auto simp: node_inv_def)
qed (auto simp: node_inv_def)

lemma node_inv_started:
  "entry_size b < 2 ^ 32 \<Longrightarrow> node_inv b c i fs (started now i fs)"
  using Shard_new_ok [of b now i]
  by (simp add: node_inv_def started_def shard_inv_def saver_inv_def progress_def pending_def)
     (simp add: Shard_new_def)

lemma node_inv_reachable:
  "reachable b c (started now i fs) n \<Longrightarrow> entry_size b < 2 ^ 32 \<Longrightarrow> crates_ok c \<Longrightarrow> node_inv b c i fs n"
  by (induction rule: reachable.induct) (auto intro: node_inv_started node_inv_step)

section \<open>Properties\<close>

text \<open>C5 (worker_keeps_its_shard). In every state a worker reaches, by any interleaving of commands,
  ticks, snapshots and the writer's steps, its shard satisfies the invariant and keeps its
  identity, the snapshot channel holds at most one image, and if the task was unwound the
  cause is a deadline the clock cannot represent.\<close>

theorem worker_keeps_its_shard:
  assumes "reachable b c (started now i fs) n" and "entry_size b < 2 ^ 32" and "crates_ok c"
  shows "shard_ok b (state n) \<and> sid (state n) = i \<and>
     length (queued (channel (saver n))) \<le> SNAPSHOT_CHANNEL_CAPACITY \<and>
     phase n \<in> {Serving, Closing, Down, Unwound Instant_Overflow}"
  using node_inv_reachable [OF assms]
  by (cases "phase n") (auto simp: node_inv_def shard_inv_def saver_inv_def)

definition demo_node :: node where
  "demo_node = started 0 (ShardId 7) (\<lambda>_. None)"

lemma demo_reached:
  "reachable demo_build demo_crates demo_node (demo_node\<lparr>inbox := [Get demo_key]\<rparr>)"
proof (rule reachable.step [OF reachable.start])
  have "worker_step demo_build demo_crates demo_node (demo_node\<lparr>inbox := inbox demo_node @ [Get demo_key]\<rparr>)"
    by (rule worker_step.arrive) (simp_all add: demo_node_def started_def COMMAND_CHANNEL_CAPACITY_def)
  then show "worker_step demo_build demo_crates demo_node (demo_node\<lparr>inbox := [Get demo_key]\<rparr>)"
    by (simp add: demo_node_def started_def)
qed

theorem worker_keeps_its_shard_witness:
  "shard_ok demo_build (state (demo_node\<lparr>inbox := [Get demo_key]\<rparr>))"
  using worker_keeps_its_shard [OF demo_reached [unfolded demo_node_def]]
  unfolding demo_node_def by (simp add: demo_build_def)

text \<open>Whatever system calls fail and wherever the writer stops, the
  snapshot file of the shard is the one found at the start or a complete image that
  \<open>serialize_shard\<close> made of a good state of this shard, and the snapshot files of the other
  shards are untouched.\<close>

theorem snapshot_file_intact:
  assumes "reachable b c (started now i fs) n" and "entry_size b < 2 ^ 32" and "crates_ok c"
  shows "(files (saver n) (snapshot_name i) = fs (snapshot_name i) \<or>
          (\<exists>s now_s clk order bs. shard_ok b s \<and> sid s = i \<and> mset order = hm_entries (data s) \<and>
             serialize_shard c now_s clk order s = Ok bs \<and> files (saver n) (snapshot_name i) = Some bs)) \<and>
     (\<forall>j. j \<noteq> i \<longrightarrow> files (saver n) (snapshot_name j) = fs (snapshot_name j))"
  using node_inv_reachable [OF assms] unfolding node_inv_def saver_inv_def image_of_def by metis

theorem snapshot_file_intact_witness:
  "files (saver (demo_node\<lparr>inbox := [Get demo_key]\<rparr>)) (snapshot_name (ShardId 8)) = None"
proof -
  have "entry_size demo_build < 2 ^ 32"
    by (simp add: demo_build_def)
  from snapshot_file_intact [OF demo_reached [unfolded demo_node_def] this demo_crates_ok(1)]
  show ?thesis
    unfolding demo_node_def by simp
qed

lemma progress_reachable: "reachable b c (started now i fs) n \<Longrightarrow> progress (saver n)"
proof (induction rule: reachable.induct)
  case start
  then show ?case by (simp add: started_def progress_def)
next
  case (step n n')
  from step.hyps(2) step.IH show ?case
    by (induction rule: worker_step.induct) (auto simp: with_channel_def ended_def progress_step)
qed

text \<open>After the worker's task has ended only its writer still works, on what it was left.\<close>

lemma down_step:
  "worker_step b c n n' \<Longrightarrow> phase n = Down \<Longrightarrow>
   phase n' = Down \<and> (saver n' = saver n \<or> writer_step (saver n) (saver n'))"
  by (induction rule: worker_step.induct) auto

definition left_over :: "writer \<Rightarrow> writer \<Rightarrow> bool" where
  "left_over w w' \<longleftrightarrow>
     progress w' \<and> set (pending w') \<subseteq> set (pending w) \<and>
     (\<forall>j. files w' (snapshot_name j) = files w (snapshot_name j) \<or>
          (\<exists>r\<in>set (pending w). req_shard r = j \<and> files w' (snapshot_name j) = Some (req_data r)))"

lemma left_over_step:
  assumes "left_over w v" and "writer_step v v'"
  shows "left_over w v'"
proof -
  have "files v' (snapshot_name j) = files w (snapshot_name j) \<or>
      (\<exists>r\<in>set (pending w). req_shard r = j \<and> files v' (snapshot_name j) = Some (req_data r))" for j
    using final_step [OF assms(2), of j] assms(1) unfolding left_over_def by (metis subsetD)
  then show ?thesis
    using assms progress_step [OF assms(2)] pending_step [OF assms(2)] unfolding left_over_def by blast
qed

lemma down_reachable:
  "reachable b c n n' \<Longrightarrow> phase n = Down \<Longrightarrow> left_over w (saver n) \<Longrightarrow> phase n' = Down \<and> left_over w (saver n')"
  by (induction rule: reachable.induct) (auto dest: down_step left_over_step)

lemma final_step_full:
  assumes "worker_step b c n n'" and "phase n = Closing" and "phase n' = Down"
    and "queued (channel (saver n)) \<noteq> []"
  shows "saver n' = (saver n)\<lparr>channel := (channel (saver n))\<lparr>sender_alive := False\<rparr>\<rparr>"
  using assms
proof (induction rule: worker_step.induct)
  case (final_snapshot n order now_s clk ch)
  then have "ch = channel (saver n)"
    by (auto simp: trigger_snapshot_def and_then_Ok_iff try_send_def SNAPSHOT_CHANNEL_CAPACITY_def Suc_le_eq)
  then show ?case
    by (simp add: ended_def with_channel_def)
qed (auto simp: ended_def)

text \<open>C34 (final_snapshot_dropped). The snapshot a worker takes when it shuts down is offered to the
  channel once. When an earlier image is still in the channel at that moment, the task ends with
  the channel's content as it was, and from then on, whatever else happens, each snapshot file
  holds what it held or an image that was pending before: the final state is not saved.\<close>

theorem final_snapshot_dropped:
  assumes "reachable b c (started now i fs) n" and "phase n = Closing" and "queued (channel (saver n)) \<noteq> []"
    and "worker_step b c n n'" and "phase n' = Down" and "reachable b c n' n''"
  shows "phase n'' = Down \<and> queued (channel (saver n')) = queued (channel (saver n)) \<and>
     (\<forall>j. files (saver n'') (snapshot_name j) = files (saver n) (snapshot_name j) \<or>
          (\<exists>r\<in>set (pending (saver n)). req_shard r = j \<and> files (saver n'') (snapshot_name j) = Some (req_data r)))"
proof -
  note saver = final_step_full [OF assms(4,2,5,3)]
  have "left_over (saver n) (saver n')"
    using progress_reachable [OF assms(1)] unfolding saver left_over_def by (simp add: pending_def)
  with down_reachable [OF assms(6,5)] have "phase n'' = Down" "left_over (saver n) (saver n'')"
    by blast+
  then show ?thesis
    unfolding saver by (simp add: left_over_def)
qed

lemma demo_serialized:
  "\<exists>bs. serialize_shard demo_crates (from_secs 60) (\<lambda>_. (0, from_secs 60)) [] demo_shard = Ok bs"
  by (simp add: serialize_shard_def demo_shard_def Shard_new_def estimate_snapshot_size_def
      HEADER_SIZE_def isize_max_def hm_len_def fresh_header write_at_def crates_okD Let_def)

text \<open>An image of a shard without keys has the length of the header, and no other has.\<close>

lemma write_at_length: "write_at pos xs buf = Ok buf' \<Longrightarrow> length buf' = length buf"
  by (auto simp: write_at_def split: if_splits)

lemma image_length:
  assumes "crates_ok c" and "serialize_shard c now_s clk order s = Ok bs"
  shows "length bs = 64 \<longleftrightarrow> order = []"
proof -
  let ?h = "SnapshotHeader_write c (SnapshotHeader_new now_s (shard_index (sid s)) (hm_len (data s))) []"
  have h: "length ?h = 64"
    by (simp add: SnapshotHeader_write_def SnapshotHeader_new_def MAGIC_def crates_okD [OF assms(1)])
  obtain buf where buf: "write_entries c clk order ?h = Ok buf" "length bs = length buf"
    using assms(2) write_at_length
    by (auto simp: serialize_shard_def Let_def and_then_Ok_iff split: if_splits)
  obtain xs where xs: "list_all2 (\<lambda>e x. stamp clk e = Ok x) order xs" "buf = ?h @ concat (map (enc_entry c) xs)"
    using write_entries_Ok [OF buf(1)] by blast
  have "enc_entry c x \<noteq> []" for x
    by (cases x) (auto simp: crates_okD [OF assms(1)] dest: arg_cong [of _ "[]" length])
  with xs h buf(2) show ?thesis
    by (cases xs) auto
qed

text \<open>The image of the empty shard is still queued when a SET is served and the worker shuts down.\<close>

theorem final_snapshot_dropped_witness:
  "\<exists>n'. reachable demo_build demo_crates demo_node n' \<and> phase n' = Down \<and> hm_get (data (state n')) [107] \<noteq> None \<and>
     (\<forall>n'' now_s clk order. reachable demo_build demo_crates n' n'' \<and> mset order = hm_entries (data (state n')) \<longrightarrow>
        (\<forall>bs. serialize_shard demo_crates now_s clk order (state n') = Ok bs \<longrightarrow>
           files (saver n'') (snapshot_name (ShardId 7)) \<noteq> Some bs))"
proof -
  let ?clk = "\<lambda>_. (0, from_secs 60)" and ?set = "Set [107] (String [118]) None"
  let ?step = "worker_step demo_build demo_crates"
  obtain old where old: "serialize_shard demo_crates (from_secs 60) ?clk [] demo_shard = Ok old"
    using demo_serialized by blast
  obtain s' where s': "execute demo_build 0 0 ?set demo_shard = Ok (ROk, s')"
      "data s' = [([107], Entry_new 0 (String [118]) None)]" "sid s' = ShardId 7"
    by (simp add: demo_simps)
  let ?ch = "\<lparr>queued = [\<lparr>req_shard = ShardId 7, req_data = old\<rparr>], sender_alive = True, receiver_alive = True\<rparr>"
  define n1 where "n1 = demo_node\<lparr>saver := (saver demo_node)\<lparr>channel := ?ch\<rparr>\<rparr>"
  define n2 where "n2 = n1\<lparr>inbox := [?set]\<rparr>"
  define n3 where "n3 = n2\<lparr>inbox := [], state := s', replies := [ROk]\<rparr>"
  define n4 where "n4 = n3\<lparr>senders_alive := False\<rparr>"
  define n5 where "n5 = n4\<lparr>phase := Closing\<rparr>"
  note nodes = n5_def n4_def n3_def n2_def n1_def demo_node_def started_def
  have 1: "?step demo_node n1"
    using worker_step.snapshot_tick [of demo_node "[]" demo_crates "from_secs 60" ?clk ?ch demo_build] old
    by (simp add: nodes with_channel_def trigger_snapshot_def try_send_def SNAPSHOT_CHANNEL_CAPACITY_def
        demo_shard_def Shard_new_def hm_entries_def)
  have 2: "?step n1 n2"
    using worker_step.arrive [of n1 demo_build demo_crates ?set]
    by (simp add: nodes COMMAND_CHANNEL_CAPACITY_def)
  have 3: "?step n2 n3"
    using worker_step.serve [of n2 ?set "[]" demo_build 0 0 ROk s' demo_crates] s'(1)
    by (simp add: nodes demo_shard_def)
  have 4: "?step n3 n4"
    using worker_step.senders_gone [of demo_build demo_crates n3] by (simp add: nodes)
  have 5: "?step n4 n5"
    using worker_step.closed [of n4 demo_build demo_crates] by (simp add: nodes)
  have reached: "reachable demo_build demo_crates demo_node n5"
    by (meson 1 2 3 4 5 reachable.intros)
  have at5: "phase n5 = Closing" "queued (channel (saver n5)) = [\<lparr>req_shard = ShardId 7, req_data = old\<rparr>]"
    "state n5 = s'" "files (saver n5) = (\<lambda>_. None)" "pending (saver n5) = queued (channel (saver n5))"
    by (simp_all add: nodes pending_def)
  have entries: "hm_entries (data s') = {#([107], Entry_new 0 (String [118]) None)#}"
    by (simp add: s'(2) hm_entries_def)
  obtain bs where bs: "serialize_shard demo_crates (from_secs 60) ?clk (data s') s' = Ok bs"
    by (simp add: serialize_shard_def s'(2) estimate_snapshot_size_def HEADER_SIZE_def isize_max_def hm_len_def
        fresh_header write_at_def crates_okD Let_def Entry_new_def)
  have "trigger_snapshot demo_crates (from_secs 60) ?clk (data s') s' (channel (saver n5)) = Ok (channel (saver n5))"
    by (simp add: trigger_snapshot_def bs at5(2) try_send_def SNAPSHOT_CHANNEL_CAPACITY_def nodes)
  then have 6: "?step n5 (ended Down n5)"
    using worker_step.final_snapshot [of n5 "data s'" demo_crates "from_secs 60" ?clk "channel (saver n5)" demo_build] at5
    by (simp add: with_channel_def hm_entries_def)
  have "length old = 64"
    using image_length [OF demo_crates_ok(1) old] by simp
  have never: "files (saver n'') (snapshot_name (ShardId 7)) \<noteq> Some bs'"
    if "reachable demo_build demo_crates (ended Down n5) n''" "mset order = hm_entries (data s')"
      "serialize_shard demo_crates now_s clk order s' = Ok bs'" for n'' now_s clk order bs'
  proof -
    have "order \<noteq> []"
      using that(2) by (auto simp: entries)
    then have "bs' \<noteq> old"
      using image_length [OF demo_crates_ok(1) that(3)] \<open>length old = 64\<close> by auto
    moreover have "files (saver n'') (snapshot_name (ShardId 7)) \<in> {None, Some old}"
      using final_snapshot_dropped [OF reached [unfolded demo_node_def] at5(1) _ 6 _ that(1)] at5
      by (auto simp: ended_def)
    ultimately show ?thesis
      by auto
  qed
  show ?thesis
  proof (intro exI [of _ "ended Down n5"] conjI)
    show "reachable demo_build demo_crates demo_node (ended Down n5)"
      using reached 6 by (rule reachable.step)
    show "hm_get (data (state (ended Down n5))) [107] \<noteq> None"
      by (simp add: ended_def at5(3) s'(2) hm_get_def)
  qed (use never in \<open>auto simp: ended_def at5(3)\<close>)
qed

lemma cleanup_result:
  "cleanup_temp_files (Some names) removable fs name =
     (if name \<in> set names \<and> extension name = Some (ascii ''tmp'') \<and> removable name then None else fs name)"
  unfolding cleanup_temp_files_def option.case
  by (induction names arbitrary: fs) auto

text \<open>\<open>cleanup_temp_files\<close> removes exactly the listed files with the
  extension \<open>tmp\<close> that can be removed: of each shard the temporary file, never the snapshot.\<close>

theorem cleanup_spares_snapshots:
  "cleanup_temp_files (Some names) removable fs (snapshot_name i) = fs (snapshot_name i) \<and>
   cleanup_temp_files (Some names) removable fs (temp_name i) =
     (if temp_name i \<in> set names \<and> removable (temp_name i) then None else fs (temp_name i)) \<and>
   cleanup_temp_files None removable fs = fs"
proof -
  have "cleanup_temp_files None removable fs = fs"
    by (simp add: cleanup_temp_files_def)
  moreover have "extension (snapshot_name i) \<noteq> Some (ascii ''tmp'')"
    by (simp add: extension_snapshot)
  ultimately show ?thesis
    by (simp add: cleanup_result extension_temp del: ascii_Cons)
qed

end
