(* ===== verification/Hash.thy ===== *)
theory Hash
  imports Common
begin

text \<open>
  \<open>common/hash.rs\<close>: the bitwise CRC-16 (polynomial 0x1021, initial value 0) that routes keys
  to shards. The reference is the definition of the checksum: the message as a polynomial over
  the field of two elements, times \<open>x\<close> to the sixteenth, has one remainder by
  \<open>x^16 + x^12 + x^5 + 1\<close>; the bit-serial shift register stands between the two.
\<close>

section \<open>The code's loop\<close>

text \<open>The body of \<open>for _ in 0..8\<close>, one byte, all bytes.\<close>

definition crc16_bit :: "u16 \<Rightarrow> u16" where
  "crc16_bit crc =
     (if crc AND 0x8000 \<noteq> 0 then push_bit 1 crc XOR 0x1021 else push_bit 1 crc)"

definition crc16_byte :: "u16 \<Rightarrow> byte \<Rightarrow> u16" where
  "crc16_byte crc b = (crc16_bit ^^ 8) (crc XOR push_bit 8 (ucast b))"

definition crc16 :: "bytes \<Rightarrow> u16" where
  "crc16 data = foldl crc16_byte 0 data"

section \<open>Linearity over XOR\<close>

lemma top_bit_iff: "crc AND 0x8000 \<noteq> 0 \<longleftrightarrow> bit crc 15" for crc :: u16
  using and_exp_eq_0_iff_not_bit [of crc 15] by simp

lemma crc16_bit_alt: "crc16_bit crc = push_bit 1 crc XOR (if bit crc 15 then 0x1021 else 0)"
  by (simp only: crc16_bit_def top_bit_iff) simp

lemma crc16_bit_xor: "crc16_bit (a XOR b) = crc16_bit a XOR crc16_bit b"
  by (simp add: crc16_bit_alt bit_xor_iff ac_simps)

lemma crc16_bits_xor: "(crc16_bit ^^ n) (a XOR b) = (crc16_bit ^^ n) a XOR (crc16_bit ^^ n) b"
  by (induction n) (simp_all add: crc16_bit_xor)

text \<open>One bit step is injective: the polynomial has a constant term.\<close>

lemma crc16_bit_eq_0: "crc16_bit a = 0 \<Longrightarrow> a = 0"
proof -
  assume 0: "crc16_bit a = 0"
  have "bit (crc16_bit a) 0 = bit a 15"
    unfolding crc16_bit_alt bit_xor_iff bit_push_bit_iff by simp
  with 0 have top: "\<not> bit a 15"
    by simp
  with 0 have "push_bit 1 a = 0"
    by (simp add: crc16_bit_alt)
  show "a = 0"
  proof (rule bit_word_eqI)
    fix n assume n: "n < LENGTH(16)"
    show "bit a n \<longleftrightarrow> bit (0 :: u16) n"
    proof (cases "n = 15")
      case True
      with top show ?thesis by simp
    next
      case False
      with n have "bit (push_bit 1 a) (Suc n) = bit a n"
        unfolding bit_push_bit_iff by auto
      with \<open>push_bit 1 a = 0\<close> show ?thesis by simp
    qed
  qed
qed

lemma crc16_bits_eq_0: "(crc16_bit ^^ n) a = 0 \<Longrightarrow> a = 0"
  by (induction n) (auto dest: crc16_bit_eq_0)

lemma crc16_bits_inj: "(crc16_bit ^^ n) a = (crc16_bit ^^ n) b \<Longrightarrow> a = b"
proof -
  assume "(crc16_bit ^^ n) a = (crc16_bit ^^ n) b"
  then have "(crc16_bit ^^ n) (a XOR b) = 0"
    by (simp add: crc16_bits_xor)
  then show "a = b"
    using crc16_bits_eq_0 xor_eq_0_iff by blast
qed

text \<open>While the top bits are clear a step is a plain shift.\<close>

lemma crc16_bits_low: "n \<le> 8 \<Longrightarrow> (crc16_bit ^^ n) (ucast (b :: byte)) = push_bit n (ucast b)"
proof (induction n)
  case 0
  then show ?case by simp
next
  case (Suc n)
  have "\<not> bit (push_bit n (ucast b) :: u16) 15"
    using Suc.prems bit_imp_le_length [of b "15 - n"] by (auto simp: bit_simps)
  then have "crc16_bit (push_bit n (ucast b)) = push_bit 1 (push_bit n (ucast b))"
    unfolding crc16_bit_alt by (simp only: if_False xor.right_neutral)
  with Suc show ?case
    by (simp only: funpow.simps comp_apply push_bit_push_bit) simp
qed

lemma crc16_byte_xor: "crc16_byte (a XOR b) (x XOR y) = crc16_byte a x XOR crc16_byte b y"
proof -
  have "(a XOR b) XOR push_bit 8 (ucast (x XOR y)) =
      (a XOR push_bit 8 (ucast x)) XOR (b XOR push_bit 8 (ucast y))"
    by (simp only: unsigned_xor_eq push_bit_xor ac_simps)
  then show ?thesis
    unfolding crc16_byte_def by (simp only: crc16_bits_xor [symmetric])
qed

lemma crc16_fold_xor:
  "length xs = length ys \<Longrightarrow>
   foldl crc16_byte (a XOR b) (map2 (XOR) xs ys) = foldl crc16_byte a xs XOR foldl crc16_byte b ys"
  by (induction xs ys arbitrary: a b rule: list_induct2) (simp_all add: crc16_byte_xor)

lemma crc16_xor: "length xs = length ys \<Longrightarrow> crc16 (map2 (XOR) xs ys) = crc16 xs XOR crc16 ys"
  using crc16_fold_xor [of xs ys 0 0] by (simp add: crc16_def)

section \<open>Collisions\<close>

lemma crc16_byte_inj_left: "crc16_byte a x = crc16_byte b x \<Longrightarrow> a = b"
  unfolding crc16_byte_def by (drule crc16_bits_inj) (simp only: xor_right_cancel)

lemma crc16_fold_inj: "foldl crc16_byte a xs = foldl crc16_byte b xs \<Longrightarrow> a = b"
  by (induction xs arbitrary: a b) (auto dest: crc16_byte_inj_left)

lemma ucast_bits_inj: "(push_bit 8 (ucast x) XOR ucast y :: u16) = push_bit 8 (ucast x') XOR ucast y' \<Longrightarrow>
    x = x' \<and> y = (y' :: byte)" for x x' :: byte
proof
  assume eq: "(push_bit 8 (ucast x) XOR ucast y :: u16) = push_bit 8 (ucast x') XOR ucast y'"
  show "x = x'"
  proof (rule bit_word_eqI)
    fix n assume n: "n < LENGTH(8)"
    then have "\<not> bit y (n + 8)" and "\<not> bit y' (n + 8)"
      using bit_imp_le_length by fastforce+
    with n arg_cong [OF eq, of "\<lambda>w. bit w (n + 8)"] show "bit x n = bit x' n"
      by (simp add: bit_simps)
  qed
  show "y = y'"
  proof (rule bit_word_eqI)
    fix n assume n: "n < LENGTH(8)"
    with arg_cong [OF eq, of "\<lambda>w. bit w n"] show "bit y n = bit y' n"
      by (simp add: bit_simps)
  qed
qed

text \<open>Two bytes advance the register by sixteen bit steps of one combined word.\<close>

lemma crc16_two_bytes:
  "crc16_byte (crc16_byte c x) y = (crc16_bit ^^ 16) (c XOR (push_bit 8 (ucast x) XOR ucast y))"
proof -
  have "push_bit 8 (ucast y) = (crc16_bit ^^ 8) (ucast y)"
    by (simp add: crc16_bits_low)
  then have "crc16_byte (crc16_byte c x) y =
      (crc16_bit ^^ 8) ((crc16_bit ^^ 8) (c XOR push_bit 8 (ucast x)) XOR (crc16_bit ^^ 8) (ucast y))"
    by (simp only: crc16_byte_def)
  also have "\<dots> = (crc16_bit ^^ 8) ((crc16_bit ^^ 8) (c XOR push_bit 8 (ucast x) XOR ucast y))"
    by (simp only: crc16_bits_xor xor.assoc)
  also have "\<dots> = (crc16_bit ^^ (8 + 8)) (c XOR push_bit 8 (ucast x) XOR ucast y)"
    by (simp only: funpow_add comp_apply)
  finally show ?thesis
    by (simp add: crc16_bits_xor xor.assoc)
qed

section \<open>The bit-serial shift register\<close>

text \<open>
  The textbook register: it shifts in the message bit by bit, most significant bit first,
  and subtracts the polynomial when the bit shifted out differs from the message bit.
\<close>

definition lfsr_bit :: "u16 \<Rightarrow> bool \<Rightarrow> u16" where
  "lfsr_bit r b = (if bit r 15 \<noteq> b then push_bit 1 r XOR 0x1021 else push_bit 1 r)"

definition msb_bits :: "byte \<Rightarrow> bool list" where
  "msb_bits x = map (\<lambda>i. bit x (7 - i)) [0..<8]"

definition lfsr :: "bool list \<Rightarrow> u16" where
  "lfsr bits = foldl lfsr_bit 0 bits"

lemma lfsr_prefix:
  "i \<le> 8 \<Longrightarrow> (crc16_bit ^^ i) (c XOR push_bit 8 (ucast x)) =
     foldl lfsr_bit c (map (\<lambda>i. bit x (7 - i)) [0..<i]) XOR push_bit (8 + i) (ucast x)"
proof (induction i)
  case 0
  then show ?case by simp
next
  case (Suc i)
  define r where "r = foldl lfsr_bit c (map (\<lambda>i. bit x (7 - i)) [0..<i])"
  from Suc have IH: "(crc16_bit ^^ i) (c XOR push_bit 8 (ucast x)) = r XOR push_bit (8 + i) (ucast x)"
    by (simp only: r_def)
  have "bit (push_bit (8 + i) (ucast x) :: u16) 15 = bit x (7 - i)"
    using Suc.prems unfolding bit_push_bit_iff by (auto simp: bit_simps)
  then have "crc16_bit (r XOR push_bit (8 + i) (ucast x)) =
      lfsr_bit r (bit x (7 - i)) XOR push_bit 1 (push_bit (8 + i) (ucast x))"
    unfolding crc16_bit_alt lfsr_bit_def bit_xor_iff push_bit_xor by (simp add: ac_simps)
  with IH show ?case
    by (simp only: funpow.simps comp_apply upt_Suc map_append foldl_append r_def push_bit_push_bit) simp
qed

lemma crc16_byte_lfsr: "crc16_byte c x = foldl lfsr_bit c (msb_bits x)"
proof -
  have "(push_bit (8 + 8) (ucast x) :: u16) = 0"
    by (rule bit_word_eqI) (simp add: bit_simps)
  then show ?thesis
    using lfsr_prefix [of 8 c x] unfolding crc16_byte_def msb_bits_def by simp
qed

lemma crc16_fold_lfsr: "foldl crc16_byte c data = foldl lfsr_bit c (concat (map msb_bits data))"
  by (induction data arbitrary: c) (simp_all add: crc16_byte_lfsr)

section \<open>Polynomials over two elements\<close>

text \<open>
  A number stands for the polynomial whose coefficients are its bits, \<open>XOR\<close> for the sum, and
  \<open>clmul\<close>, the product without carries, for the product.
\<close>

fun clmul :: "nat \<Rightarrow> nat \<Rightarrow> nat" where
  "clmul a g = (if a = 0 then 0 else (if odd a then g else 0) XOR 2 * clmul (a div 2) g)"

declare clmul.simps [simp del]

definition generator :: nat where
  "generator = 2 ^ 16 + 2 ^ 12 + 2 ^ 5 + 1"

text \<open>The bytes, the first one in the highest place.\<close>

definition message :: "bytes \<Rightarrow> nat" where
  "message data = foldl (\<lambda>m b. m * 256 + unat b) 0 data"

lemma clmul_0 [simp]: "clmul 0 g = 0"
  by (simp add: clmul.simps)

lemma clmul_double: "clmul (2 * a + of_bool b) g = (if b then g else 0) XOR 2 * clmul a g"
  by (cases "2 * a + of_bool b = 0") (auto simp: clmul.simps [of "2 * a + of_bool b"])

lemma xor_cancel_left: "x XOR (x XOR y) = y" for x y :: nat
  by (simp flip: xor.assoc)

lemma double_xor: "2 * (x XOR y) = 2 * x XOR 2 * (y :: nat)"
  using push_bit_xor [of 1 x y] by (simp add: push_bit_eq_mult mult.commute)

lemma double_of_bool_xor:
  "(2 * a + of_bool b) XOR (2 * a' + of_bool b') = 2 * (a XOR a') + (of_bool (b \<noteq> b') :: nat)"
  by (subst xor_rec) simp

lemma clmul_xor: "clmul (a XOR b) g = clmul a g XOR clmul b g"
proof (induction a arbitrary: b rule: less_induct)
  case (less a)
  show ?case
  proof (cases "a = 0")
    case False
    have "a XOR b = 2 * (a div 2 XOR b div 2) + of_bool (odd a \<noteq> odd b)"
      by (subst xor_rec) simp
    then have 1: "clmul (a XOR b) g =
        (if odd a \<noteq> odd b then g else 0) XOR 2 * (clmul (a div 2) g XOR clmul (b div 2) g)"
      using less [of "a div 2" "b div 2"] False by (simp only: clmul_double)
    have 2: "clmul c g = (if odd c then g else 0) XOR 2 * clmul (c div 2) g" for c
      by (simp add: clmul.simps [of c])
    show ?thesis
      unfolding 1 2 [of a] 2 [of b] double_xor
      by (cases "odd a"; cases "odd b"; simp add: ac_simps xor_cancel_left)
  qed simp
qed

text \<open>A multiple of the generator that is not zero has degree sixteen at least.\<close>

lemma high_bits: "2 ^ n \<le> x \<longleftrightarrow> drop_bit n x \<noteq> 0" for x :: nat
  by (simp add: drop_bit_eq_div div_eq_0_iff not_less)

lemma high_xor: "y < 2 ^ n \<Longrightarrow> 2 ^ n \<le> x \<Longrightarrow> 2 ^ n \<le> y XOR (x :: nat)"
proof -
  assume "y < 2 ^ n" and "2 ^ n \<le> x"
  then have "drop_bit n y = 0" and "drop_bit n x \<noteq> 0"
    using high_bits [of n y] high_bits [of n x] by simp_all
  then show "2 ^ n \<le> y XOR x"
    unfolding high_bits by simp
qed

lemma low_xor: "x < 2 ^ n \<Longrightarrow> y < 2 ^ n \<Longrightarrow> x XOR y < 2 ^ n" for x y :: nat
  using high_bits [of n x] high_bits [of n y] high_bits [of n "x XOR y"] by simp

lemma clmul_generator: "0 < a \<Longrightarrow> 2 ^ 16 \<le> clmul a generator"
proof (induction a rule: less_induct)
  case (less a)
  let ?c = "clmul (a div 2) generator"
  have a: "clmul a generator = (if odd a then generator else 0) XOR 2 * ?c"
    using less.prems by (simp add: clmul.simps [of a])
  show ?case
  proof (cases "a div 2 = 0")
    case True
    with less.prems have "a = 1" by (cases a) auto
    then have "clmul a generator = generator"
      by (simp add: clmul.simps [of 1] flip: One_nat_def)
    then show ?thesis
      by (simp add: generator_def)
  next
    case False
    with less.IH [of "a div 2"] less.prems have "2 ^ 17 \<le> 2 * ?c"
      by simp
    moreover have "(if odd a then generator else 0) < 2 ^ 17"
      by (simp add: generator_def)
    ultimately show ?thesis
      unfolding a using high_xor [of _ 17 "2 * ?c"] by fastforce
  qed
qed

text \<open>One bit of the message and one step of the register.\<close>

lemma bit_place: "bit (of_bool P * 2 ^ k :: nat) n \<longleftrightarrow> P \<and> n = k"
  by (cases P) (auto simp: bit_exp_iff)

lemma unat_shift: "2 * unat r = of_bool (bit r 15) * 2 ^ 16 XOR unat (push_bit 1 r)" for r :: u16
proof (rule bit_eqI)
  fix n :: nat
  have 1: "bit (push_bit 1 r) n \<longleftrightarrow> 0 < n \<and> n < 16 \<and> bit r (n - 1)"
    unfolding bit_push_bit_iff by (auto simp: Suc_le_eq)
  have 2: "bit (2 * unat r) n \<longleftrightarrow> 0 < n \<and> n - 1 < 16 \<and> bit r (n - 1)"
    unfolding bit_double_iff bit_unsigned_iff by (auto dest: bit_imp_le_length)
  have 3: "n - 1 < 16 \<longleftrightarrow> n < 16 \<or> n = 16"
    by auto
  show "bit (2 * unat r) n = bit (of_bool (bit r 15) * 2 ^ 16 XOR unat (push_bit 1 r)) n"
    unfolding bit_xor_iff bit_place bit_unsigned_iff 1 2 3 by auto
qed

lemma lfsr_bit_unat:
  "2 * unat r XOR of_bool b * 2 ^ 16 = (if bit r 15 \<noteq> b then generator else 0) XOR unat (lfsr_bit r b)"
proof -
  have g: "generator = 2 ^ 16 XOR 0x1021"
    by (simp add: generator_def)
  have x: "unat (push_bit 1 r XOR 0x1021) = unat (push_bit 1 r) XOR 0x1021"
    by (simp add: unsigned_xor_eq)
  show ?thesis
    unfolding unat_shift lfsr_bit_def g by (cases "bit r 15"; cases b) (simp_all only: x if_True if_False
      simp_thms of_bool_eq mult_1 mult_zero_left xor.left_neutral xor.right_neutral xor_self_eq ac_simps
      xor_cancel_left)
qed

text \<open>The message read bit by bit, in the order the register takes the bits.\<close>

definition shift_in :: "nat \<Rightarrow> bool \<Rightarrow> nat" where
  "shift_in m b = 2 * m + of_bool b"

lemma shift_in_xor: "push_bit 16 (shift_in m b) = 2 * push_bit 16 m XOR of_bool b * 2 ^ 16"
proof -
  have "shift_in m b = 2 * m XOR of_bool b"
    using double_of_bool_xor [of m False 0 b] by (simp add: shift_in_def)
  then show ?thesis
    by (simp only: push_bit_xor) (simp add: push_bit_eq_mult)
qed

lemma shift_in_bits:
  "i \<le> 8 \<Longrightarrow> foldl shift_in m (map (\<lambda>i. bit x (7 - i)) [0..<i]) = m * 2 ^ i + drop_bit (8 - i) (unat x)"
  for x :: byte
proof (induction i)
  case 0
  have "drop_bit 8 (unat x) = 0"
    using unsigned_less [of x, where ?'a = nat] by (simp add: drop_bit_eq_div)
  then show ?case by simp
next
  case (Suc i)
  let ?d = "drop_bit (7 - i) (unat x)"
  have "?d = 2 * (?d div 2) + of_bool (odd ?d)"
    by simp
  moreover have "?d div 2 = drop_bit (8 - i) (unat x)"
  proof -
    have "8 - i = Suc (7 - i)"
      using Suc.prems by simp
    then show ?thesis
      by (simp only: drop_bit_Suc) (simp add: drop_bit_half)
  qed
  moreover have "odd ?d = bit x (7 - i)"
    by (simp add: bit_iff_odd_drop_bit [symmetric] bit_unsigned_iff)
  ultimately show ?case
    using Suc by (simp add: shift_in_def)
qed

lemma shift_in_byte: "foldl shift_in m (msb_bits x) = m * 256 + unat x"
  unfolding msb_bits_def by (simp add: shift_in_bits del: upt_rec_numeral)

lemma message_bits: "message data = foldl shift_in 0 (concat (map msb_bits data))"
proof -
  have "foldl (\<lambda>m b. m * 256 + unat b) m data = foldl shift_in m (concat (map msb_bits data))" for m
    by (induction data arbitrary: m) (simp_all add: shift_in_byte)
  then show ?thesis
    by (simp add: message_def)
qed

text \<open>What has gone into the register is a multiple of the generator and the register.\<close>

lemma lfsr_step_remainder:
  assumes "push_bit 16 m = clmul q generator XOR unat r"
  shows "push_bit 16 (shift_in m b) =
    clmul (2 * q + of_bool (bit r 15 \<noteq> b)) generator XOR unat (lfsr_bit r b)"
proof -
  have "push_bit 16 (shift_in m b) = 2 * clmul q generator XOR (2 * unat r XOR of_bool b * 2 ^ 16)"
    by (simp only: shift_in_xor assms double_xor xor.assoc)
  then show ?thesis
    unfolding lfsr_bit_unat clmul_double by (simp only: ac_simps)
qed

lemma lfsr_remainder:
  "push_bit 16 m = clmul q generator XOR unat r \<Longrightarrow>
   \<exists>q. push_bit 16 (foldl shift_in m bits) = clmul q generator XOR unat (foldl lfsr_bit r bits)"
proof (induction bits arbitrary: m q r)
  case (Cons b bits)
  from Cons.IH [OF lfsr_step_remainder [OF Cons.prems]] show ?case
    by simp
qed auto

lemma remainder_unique:
  assumes "clmul q generator XOR r = clmul q' generator XOR r'" and "r < 2 ^ 16" and "r' < 2 ^ 16"
  shows "r = r'"
proof -
  from assms(1) have "clmul (q XOR q') generator = r XOR r'"
    by (metis clmul_xor xor.assoc xor.commute xor_cancel_left)
  moreover have "r XOR r' < 2 ^ 16"
    using assms by (intro low_xor)
  ultimately have "q XOR q' = 0"
    using clmul_generator [of "q XOR q'"] by (metis not_gr_zero not_le)
  with \<open>clmul (q XOR q') generator = r XOR r'\<close> have "r XOR r' = 0"
    by simp
  then show ?thesis
    using xor_cancel_left [of r r'] by simp
qed

section \<open>Properties\<close>

text \<open>The byte-wise loop of \<open>crc16\<close> computes the bit-serial shift
  register of the polynomial 0x1021 over the message bits, most significant bit first.\<close>

theorem crc16_is_bit_serial: "crc16 data = lfsr (concat (map msb_bits data))"
  by (simp add: crc16_def lfsr_def crc16_fold_lfsr)

text \<open>Two keys that agree everywhere except in two adjacent bytes
  have the same checksum only when these bytes agree too.\<close>

theorem crc16_detects_two_bytes:
  "crc16 (p @ [x, y] @ s) = crc16 (p @ [x', y'] @ s) \<longleftrightarrow> x = x' \<and> y = y'"
proof
  define c where "c = foldl crc16_byte 0 p"
  assume "crc16 (p @ [x, y] @ s) = crc16 (p @ [x', y'] @ s)"
  then have "crc16_byte (crc16_byte c x) y = crc16_byte (crc16_byte c x') y'"
    by (auto simp: crc16_def c_def dest: crc16_fold_inj)
  then have "c XOR (push_bit 8 (ucast x) XOR ucast y) = c XOR (push_bit 8 (ucast x') XOR ucast y')"
    unfolding crc16_two_bytes by (rule crc16_bits_inj)
  then have "(push_bit 8 (ucast x) XOR ucast y :: u16) = push_bit 8 (ucast x') XOR ucast y'"
    by (simp only: xor.commute [of c] xor_right_cancel)
  then show "x = x' \<and> y = y'"
    by (rule ucast_bits_inj)
qed simp

text \<open>C28 (crc16_is_polynomial_remainder). The checksum is the one the standard defines: read the message
  as a polynomial over two elements, most significant bit first; its product with \<open>x^16\<close> has one
  remainder of degree below sixteen by \<open>x^16 + x^12 + x^5 + 1\<close>, and \<open>crc16\<close> computes it.\<close>

theorem crc16_is_polynomial_remainder:
  assumes "r < 2 ^ 16"
  shows "(\<exists>q. push_bit 16 (message data) = clmul q generator XOR r) \<longleftrightarrow> unat (crc16 data) = r"
proof -
  obtain q where q: "push_bit 16 (message data) = clmul q generator XOR unat (crc16 data)"
    using lfsr_remainder [where m = 0 and q = 0 and r = 0 and bits = "concat (map msb_bits data)"]
    by (auto simp: message_bits crc16_def crc16_fold_lfsr)
  moreover have "unat (crc16 data) < 2 ^ 16"
    using unsigned_less [of "crc16 data", where ?'a = nat] by simp
  ultimately show ?thesis
    using remainder_unique assms by metis
qed

theorem crc16_is_polynomial_remainder_witness:
  "(\<exists>q. push_bit 16 (message [0x31, 0x32]) = clmul q generator XOR 0x20b5) \<and> (0x20b5 :: nat) < 2 ^ 16"
proof -
  have "unat (crc16 [0x31, 0x32]) = 0x20b5"
    by code_simp
  then show ?thesis
    using crc16_is_polynomial_remainder [of "0x20b5" "[0x31, 0x32]"] by simp
qed

end
