(* ===== verification/Router.thy ===== *)
theory Router
  imports Hash Rust_Collections
begin

text \<open>
  \<open>frontend/router.rs\<close>: the shard of a key, and the grouping of the keys of a multi-key
  command by shard, with the \<open>HashMap<ShardId, Vec<Vec<u8>>>\<close> of the code.
\<close>

definition route_key :: "key \<Rightarrow> shard_id" where
  "route_key k =
     (let hash = crc16 k;
          sid = (ucast hash :: usize) AND (word_of_nat SHARD_COUNT - 1)
      in ShardId (ucast sid))"

text \<open>One turn of the loop: \<open>grouped.entry(shard_id).or_insert_with(Vec::new).push(key)\<close>.\<close>

definition group_key :: "(shard_id, key list) hashmap \<Rightarrow> key \<Rightarrow> (shard_id, key list) hashmap" where
  "group_key grouped k =
     (let sid = route_key k;
          ks = (case hm_get grouped sid of None \<Rightarrow> [] | Some ks \<Rightarrow> ks)
      in hm_insert sid (ks @ [k]) grouped)"

definition route_keys :: "key list \<Rightarrow> (shard_id, key list) hashmap" where
  "route_keys ks = foldl group_key [] ks"

lemma unat_mask6: "unat (ucast (ucast (h :: u16) AND 63 :: usize) :: u16) = unat h mod 64"
proof -
  have m: "(63 :: usize) = mask 6"
    by (simp add: mask_eq_exp_minus_1)
  have "(ucast (ucast h AND 63 :: usize) :: u16) = take_bit 6 h"
    unfolding m by (rule bit_word_eqI) (auto simp: bit_simps)
  then show ?thesis
    by (simp add: take_bit_eq_mod unat_mod)
qed

lemma as_usize_route_key: "as_usize (route_key k) = unat (crc16 k) mod 64"
  by (simp add: route_key_def as_usize_def SHARD_COUNT_def unat_mask6)

lemma hm_wf_group: "hm_wf g \<Longrightarrow> hm_wf (group_key g k)"
  by (simp add: group_key_def Let_def)

lemma hm_wf_groups: "hm_wf g \<Longrightarrow> hm_wf (foldl group_key g ks)"
  by (induction ks arbitrary: g) (simp_all add: hm_wf_group)

lemma hm_wf_route_keys [simp]: "hm_wf (route_keys ks)"
  by (simp add: route_keys_def hm_wf_groups)

lemma get_group_key:
  "hm_wf g \<Longrightarrow> hm_get (group_key g k) sid =
     (if sid = route_key k then Some ((case hm_get g sid of None \<Rightarrow> [] | Some ks \<Rightarrow> ks) @ [k])
      else hm_get g sid)"
  by (simp add: group_key_def Let_def)

definition keys_of_shard :: "shard_id \<Rightarrow> key list \<Rightarrow> key list" where
  "keys_of_shard sid ks = filter (\<lambda>k. route_key k = sid) ks"

lemma get_groups:
  "hm_wf g \<Longrightarrow> hm_get (foldl group_key g ks) sid =
     (if keys_of_shard sid ks = [] then hm_get g sid
      else Some ((case hm_get g sid of None \<Rightarrow> [] | Some js \<Rightarrow> js) @ keys_of_shard sid ks))"
  by (induction ks arbitrary: g)
     (auto simp: keys_of_shard_def get_group_key hm_wf_group split: option.splits)

text \<open>Every key is routed to one of the 64 shards: the bit mask is the
  remainder of the checksum by the shard count, and the result passes \<open>ShardId::new\<close>.\<close>

theorem route_key_in_range:
  "as_usize (route_key k) = unat (crc16 k) mod SHARD_COUNT \<and>
   ShardId_new (shard_index (route_key k)) = Ok (route_key k)"
  by (cases "route_key k")
     (use as_usize_route_key [of k] in \<open>simp add: ShardId_new_Ok_iff SHARD_COUNT_def as_usize_def\<close>)

text \<open>\<open>route_keys\<close> gives every shard exactly its keys, in the order of
  the request and with repetitions kept, and mentions no shard without keys.\<close>

theorem route_keys_partition:
  "hm_get (route_keys ks) sid =
     (let mine = filter (\<lambda>k. route_key k = sid) ks in if mine = [] then None else Some mine)"
  by (simp add: route_keys_def get_groups keys_of_shard_def Let_def)

end
