(* ===== verification/Handler.thy ===== *)
theory Handler
  imports Command Router
begin

text \<open>
  \<open>frontend/handler.rs\<close>: the task of a connection. It reads chunks, parses requests, sends the
  commands to the shards and passes the replies to the task that writes them. What a shard
  does with a message is the argument \<open>ask\<close>: shard index, command and the environment's state
  give the outcome of sending and waiting, with its two timeouts, and the new state.
\<close>

section \<open>Replies on the wire\<close>

fun response_to_resp :: "response \<Rightarrow> resp_value" where
  "response_to_resp (RValue (Some value)) = BulkString (Some (as_bytes value))"
| "response_to_resp (RValue None) = BulkString None"
| "response_to_resp (RInteger n) = Integer n"
| "response_to_resp ROk = SimpleString (ascii ''OK'')"
| "response_to_resp (RError msg) = Error msg"

section \<open>Sending a command to a shard\<close>

text \<open>How \<open>timeout(SEND_TIMEOUT, send)\<close> and \<open>timeout(SHARD_TIMEOUT, reply_rx)\<close> end.\<close>

datatype send_result =
    Replied response
  | Reply_dropped
  | Reply_timeout
  | Send_closed
  | Send_timeout

type_synonym 'env ask = "nat \<Rightarrow> command \<Rightarrow> 'env \<Rightarrow> send_result \<times> 'env"

fun shard_reply :: "send_result \<Rightarrow> response" where
  "shard_reply (Replied r) = r"
| "shard_reply Reply_dropped = RError (ascii ''ERR shard disconnected'')"
| "shard_reply Reply_timeout = RError (ascii ''ERR shard timeout'')"
| "shard_reply Send_closed = RError (ascii ''ERR shard channel closed'')"
| "shard_reply Send_timeout = RError (ascii ''ERR shard overloaded'')"

text \<open>\<open>shards\<close> is the number of senders in the vector.\<close>

definition send_to_shard :: "nat \<Rightarrow> 'env ask \<Rightarrow> shard_id \<Rightarrow> command \<Rightarrow> 'env \<Rightarrow> response \<times> 'env" where
  "send_to_shard shards ask i c env =
     (if as_usize i < shards then
        (case ask (as_usize i) c env of (res, env') \<Rightarrow> (shard_reply res, env'))
      else (RError (ascii ''ERR invalid shard id''), env))"

section \<open>DEL with keys on several shards\<close>

fun del_reply :: "send_result \<Rightarrow> response" where
  "del_reply (Replied r) = r"
| "del_reply Reply_dropped = RError (ascii ''ERR disconnected'')"
| "del_reply Reply_timeout = RError (ascii ''ERR timeout'')"
| "del_reply Send_closed = RError (ascii ''ERR shard closed'')"
| "del_reply Send_timeout = RError (ascii ''ERR shard overloaded'')"

text \<open>
  The futures of \<open>join_all\<close>: one per group, every group on a shard of its own, so their order
  of execution is of no account; the results come in the order of the groups.
\<close>

fun ask_all :: "'env ask \<Rightarrow> (shard_id \<times> key list) list \<Rightarrow> 'env \<Rightarrow> send_result list \<times> 'env" where
  "ask_all ask [] env = ([], env)"
| "ask_all ask ((i, ks) # groups) env =
     (let (res, env') = ask (as_usize i) (Del ks) env;
          (rest, env'') = ask_all ask groups env'
      in (res # rest, env''))"

text \<open>The loop over the responses: the total and the error messages.\<close>

fun collect_replies :: "response list \<Rightarrow> int \<Rightarrow> bytes list \<Rightarrow> int \<times> bytes list" where
  "collect_replies [] acc errors = (acc, errors)"
| "collect_replies (RInteger n # rs) acc errors = collect_replies rs (acc + n) errors"
| "collect_replies (RError e # rs) acc errors = collect_replies rs acc (errors @ [e])"
| "collect_replies (_ # rs) acc errors = collect_replies rs acc errors"

text \<open>
  \<open>iter\<close> is the order in which the map of groups is consumed. Indexing \<open>shards\<close> out of range
  panics while the futures are built, before any of them runs.
\<close>

definition process_multi_key_del ::
    "((shard_id, key list) hashmap \<Rightarrow> (shard_id \<times> key list) list) \<Rightarrow> nat \<Rightarrow> 'env ask \<Rightarrow> key list \<Rightarrow> 'env \<Rightarrow>
     (response \<times> 'env, 'e) outcome" where
  "process_multi_key_del iter shards ask keys env =
     (let grouped = iter (route_keys keys) in
      if list_ex (\<lambda>(i, ks). shards \<le> as_usize i) grouped then Panic Index_Out_Of_Bounds
      else
        let (responses, env') = ask_all ask grouped env;
            (total_deleted, errors) = collect_replies (map del_reply responses) 0 []
        in Ok (if errors = [] then RInteger total_deleted
               else RError (ascii ''ERR partial failure: '' @ join (ascii '', '') errors), env'))"

section \<open>One command\<close>

fun process_command ::
    "((shard_id, key list) hashmap \<Rightarrow> (shard_id \<times> key list) list) \<Rightarrow> nat \<Rightarrow> 'env ask \<Rightarrow> command \<Rightarrow> 'env \<Rightarrow>
     (response \<times> 'env, 'e) outcome" where
  "process_command iter shards ask (Ping m) env = Ok (send_to_shard shards ask (ShardId 0) (Ping m) env)"
| "process_command iter shards ask (Info i) env = Ok (send_to_shard shards ask (ShardId 0) (Info i) env)"
| "process_command iter shards ask (Get k) env = Ok (send_to_shard shards ask (route_key k) (Get k) env)"
| "process_command iter shards ask (Set k v ttl) env = Ok (send_to_shard shards ask (route_key k) (Set k v ttl) env)"
| "process_command iter shards ask (Expire k n) env = Ok (send_to_shard shards ask (route_key k) (Expire k n) env)"
| "process_command iter shards ask (Ttl k) env = Ok (send_to_shard shards ask (route_key k) (Ttl k) env)"
| "process_command iter shards ask (Del ks) env = process_multi_key_del iter shards ask ks env"

section \<open>The connection\<close>

text \<open>
  The libraries and the build: \<open>size_of::<RespValue>()\<close>, the Unicode tables, the iteration
  order, the shards; \<open>tx_ok sent\<close> says whether the channel to the writing task still has its
  receiver when the responses \<open>sent\<close> have been passed on (the task ends on a write error).
\<close>

record 'env server =
  value_size :: nat
  tables :: unicode
  iteration :: "(shard_id, key list) hashmap \<Rightarrow> (shard_id \<times> key list) list"
  shard_count :: nat
  ask_shard :: "'env ask"
  tx_ok :: "response list \<Rightarrow> bool"

datatype loop_end = Waits | Send_failed | Bad_input parse_error | Unwinds panic

lemma parse_progress:
  "parse sz p = Ok (Some v, p') \<Longrightarrow> length (buffer p') - cursor p' < length (buffer p) - cursor p"
  by (auto simp: parse_def Let_def split: if_splits outcome.splits dest!: parse_length)

definition error_reply :: "unicode \<Rightarrow> command_error \<Rightarrow> response" where
  "error_reply u e = RError (ascii ''ERR '' @ debug_command_error u e)"

text \<open>The inner loop over the requests in the buffer; a failed send leaves this loop only.\<close>

function parse_loop ::
    "'env server \<Rightarrow> resp_parser \<Rightarrow> 'env \<Rightarrow> response list \<Rightarrow> loop_end \<times> resp_parser \<times> 'env \<times> response list" where
  "parse_loop sv p env sent =
     (case parse (value_size sv) p of
        Ok (None, p') \<Rightarrow> (Waits, p', env, sent)
      | Ok (Some resp_value, p') \<Rightarrow>
          (case from_resp (tables sv) resp_value of
             Ok cmd \<Rightarrow>
               (case process_command (iteration sv) (shard_count sv) (ask_shard sv) cmd env of
                  Ok (response, env') \<Rightarrow>
                    if tx_ok sv sent then parse_loop sv p' env' (sent @ [response])
                    else (Send_failed, p', env', sent)
                | Err e \<Rightarrow> (Bad_input e, p', env, sent)
                | Panic q \<Rightarrow> (Unwinds q, p', env, sent))
           | Err e \<Rightarrow>
               parse_loop sv p' env
                 (if tx_ok sv sent then sent @ [error_reply (tables sv) e] else sent)
           | Panic q \<Rightarrow> (Unwinds q, p', env, sent))
      | Err e \<Rightarrow> (Bad_input e, p, env, sent)
      | Panic q \<Rightarrow> (Unwinds q, p, env, sent))"
  by pat_completeness auto
termination
  by (relation "measure (\<lambda>(sv, p, env, sent). length (buffer p) - cursor p)")
     (auto dest: parse_progress)

declare parse_loop.simps [simp del]

text \<open>
  What \<open>read\<close> returns: bytes (none at the end of the stream), at most as many as the buffer has,
  or an error.
\<close>

definition READ_BUFFER :: nat where
  "READ_BUFFER = 8 * 1024"

datatype read_event = Data bytes | Read_error

datatype conn_end =
    Reading                    \<comment> \<open>more input is awaited\<close>
  | Finished_ok                \<comment> \<open>the writing task had ended, \<open>Ok(())\<close>\<close>
  | Awaits_writer              \<comment> \<open>awaits the writing task, which waits for more responses\<close>
  | Input_error parse_error
  | Io_error
  | Unwound_by panic

text \<open>
  The reading loop over the results of \<open>read\<close>. At the end of the stream the task awaits the
  writing task; that task ends when its channel is closed, which the sender held by the
  waiting task prevents, or on a write error. \<open>Connection\<close> has both tasks step by step and
  derives this.
\<close>

fun read_loop ::
    "'env server \<Rightarrow> read_event list \<Rightarrow> resp_parser \<Rightarrow> 'env \<Rightarrow> response list \<Rightarrow> conn_end \<times> 'env \<times> response list" where
  "read_loop sv [] p env sent = (Reading, env, sent)"
| "read_loop sv (Read_error # evs) p env sent = (Io_error, env, sent)"
| "read_loop sv (Data bs # evs) p env sent =
     (if bs = [] then (if tx_ok sv sent then Awaits_writer else Finished_ok, env, sent)
      else
        (case parse_loop sv (feed bs p) env sent of
           (Bad_input e, p', env', sent') \<Rightarrow> (Input_error e, env', sent')
         | (Unwinds q, p', env', sent') \<Rightarrow> (Unwound_by q, env', sent')
         | (_, p', env', sent') \<Rightarrow> read_loop sv evs (compact p') env' sent'))"

definition handle_connection ::
    "'env server \<Rightarrow> read_event list \<Rightarrow> 'env \<Rightarrow> conn_end \<times> 'env \<times> response list" where
  "handle_connection sv evs env = read_loop sv evs RespParser_new env []"

text \<open>The bytes the writing task puts on the socket for the responses it received.\<close>

definition written :: "response list \<Rightarrow> bytes" where
  "written sent = concat (map (\<lambda>r. serialize_resp2 (response_to_resp r)) sent)"

section \<open>Whole requests\<close>

text \<open>What the connection answers to one request value, and to a sequence of them.\<close>

definition serve :: "'env server \<Rightarrow> resp_value \<Rightarrow> 'env \<Rightarrow> (response \<times> 'env, unit) outcome" where
  "serve sv v env =
     (case from_resp (tables sv) v of
        Ok cmd \<Rightarrow> process_command (iteration sv) (shard_count sv) (ask_shard sv) cmd env
      | Err e \<Rightarrow> Ok (error_reply (tables sv) e, env)
      | Panic q \<Rightarrow> Panic q)"

fun serve_all :: "'env server \<Rightarrow> resp_value list \<Rightarrow> 'env \<Rightarrow> (response list \<times> 'env, unit) outcome" where
  "serve_all sv [] env = Ok ([], env)"
| "serve_all sv (v # vs) env =
     and_then (serve sv v env) (\<lambda>(r, env).
       and_then (serve_all sv vs env) (\<lambda>(rs, env). Ok (r # rs, env)))"

text \<open>The iteration visits every group once, and there is a sender for every shard.\<close>

definition server_ok :: "'env server \<Rightarrow> bool" where
  "server_ok sv \<longleftrightarrow> (\<forall>m. mset (iteration sv m) = mset m) \<and> shard_count sv = SHARD_COUNT"

lemma route_less: "as_usize (route_key k) < SHARD_COUNT"
  by (simp add: as_usize_route_key SHARD_COUNT_def)

lemma group_of_shard:
  assumes "(i, js) \<in> set (route_keys ks)"
  shows "js = filter (\<lambda>k. route_key k = i) ks \<and> js \<noteq> [] \<and> as_usize i < SHARD_COUNT"
proof -
  have "hm_get (route_keys ks) i = Some js"
    using assms hm_wf_route_keys [of ks] by (simp add: hm_get_def hm_wf_def)
  then have js: "js = filter (\<lambda>k. route_key k = i) ks" "js \<noteq> []"
    by (auto simp: route_keys_def get_groups keys_of_shard_def split: if_splits)
  then obtain k where "k \<in> set ks" "route_key k = i"
    by (metis (mono_tags, lifting) filter_False)
  with js route_less [of k] show ?thesis by simp
qed

lemma groups_in_range:
  assumes "\<And>m. mset (iter m) = mset m"
  shows "\<not> list_ex (\<lambda>(i, js). SHARD_COUNT \<le> as_usize i) (iter (route_keys ks))"
proof -
  have same: "set (iter (route_keys ks)) = set (route_keys ks)"
    by (rule mset_eq_setD) (rule assms)
  have "as_usize i < SHARD_COUNT" if "(i, js) \<in> set (route_keys ks)" for i js
    using group_of_shard [OF that] by blast
  then show ?thesis
    unfolding list_ex_iff same by fastforce
qed

text \<open>No error value and no panic comes out of a command; the error type is of no account.\<close>

lemma process_command_Ok:
  "\<lbrakk>\<And>m. mset (iter m) = mset m; shards = SHARD_COUNT\<rbrakk> \<Longrightarrow>
   \<exists>r env'. process_command iter shards ask c env = (Ok (r, env') :: (response \<times> 'env, 'e) outcome) \<and>
            process_command iter shards ask c env = (Ok (r, env') :: (response \<times> 'env, unit) outcome)"
  by (cases c)
     (auto simp: process_multi_key_del_def groups_in_range Let_def prod_eq_iff split: prod.split)

lemma extract_no_panic [simp]:
  "extract_bulk_string v \<noteq> Panic q" "extract_integer v \<noteq> Panic q"
  by (cases v rule: extract_bulk_string.cases; simp)
     (cases v rule: extract_integer.cases; simp split: option.split)

lemma parse_set_options_no_panic: "parse_set_options u args i ttl \<noteq> Panic q"
proof (induction u args i ttl rule: parse_set_options.induct)
  case (1 u args i ttl)
  then show ?case
    by (subst parse_set_options.simps) (auto simp: and_then_Panic_iff)
qed

lemma extract_keys_no_panic: "extract_keys ks args \<noteq> Panic q"
  by (induction ks args rule: extract_keys.induct) (auto simp: and_then_Panic_iff)

lemma dispatch_no_panic: "dispatch u name args \<noteq> Panic q"
proof -
  have "parse_ping args \<noteq> Panic q" "parse_get args \<noteq> Panic q" "parse_ttl args \<noteq> Panic q"
    "parse_info args \<noteq> Panic q"
    by (auto simp: parse_ping_def parse_get_def parse_ttl_def parse_info_def and_then_Panic_iff
        split: list.split)
  moreover have "parse_set u args \<noteq> Panic q"
    by (simp add: parse_set_def and_then_Panic_iff parse_set_options_no_panic)
  moreover have "parse_expire args \<noteq> Panic q"
    by (simp add: parse_expire_def and_then_Panic_iff)
  moreover have "parse_del args \<noteq> Panic q"
    by (simp add: parse_del_def and_then_Panic_iff extract_keys_no_panic)
  ultimately show ?thesis
    by (simp add: dispatch_def)
qed

lemma from_resp_no_panic: "from_resp u v \<noteq> Panic q"
  by (cases "(u, v)" rule: from_resp.cases) (simp_all add: dispatch_no_panic)

lemma serve_Ok:
  assumes "server_ok sv"
  obtains r env' where "serve sv v env = Ok (r, env')"
proof (cases "from_resp (tables sv) v")
  case (Ok cmd)
  have "\<exists>r env'. process_command (iteration sv) (shard_count sv) (ask_shard sv) cmd env =
      (Ok (r, env') :: (_, unit) outcome)"
    using process_command_Ok [of "iteration sv" "shard_count sv" "ask_shard sv" cmd env] assms
    unfolding server_ok_def by blast
  with Ok that show ?thesis
    by (auto simp: serve_def)
next
  case (Err e)
  with that show ?thesis by (simp add: serve_def)
next
  case (Panic q)
  with from_resp_no_panic show ?thesis by blast
qed

lemma serve_all_Ok:
  assumes "server_ok sv"
  shows "\<exists>rs env'. serve_all sv vs env = Ok (rs, env') \<and> length rs = length vs"
proof (induction vs arbitrary: env)
  case (Cons v vs)
  obtain r env1 where "serve sv v env = Ok (r, env1)"
    by (rule serve_Ok [OF assms])
  with Cons [of env1] show ?case by auto
qed simp

text \<open>
  How a stream of requests may be cut into reads: each read completes some of them, and what
  it leaves unread is empty or the beginning of a request for whose rest the parser waits.
\<close>

definition rest_waits :: "nat \<Rightarrow> bytes \<Rightarrow> bool" where
  "rest_waits sz r \<longleftrightarrow> r = [] \<or> parse_value sz r = Err Incomplete"

fun clean_reads :: "nat \<Rightarrow> bytes \<Rightarrow> (bytes \<times> resp_value list) list \<Rightarrow> bool" where
  "clean_reads sz r [] \<longleftrightarrow> r = []"
| "clean_reads sz r ((bs, vs) # reads) \<longleftrightarrow>
     bs \<noteq> [] \<and> length bs \<le> READ_BUFFER \<and> list_all (wire_ok sz) vs \<and>
     (let request_bytes = concat (map serialize_resp2 vs); n = length request_bytes in
      take n (r @ bs) = request_bytes \<and> rest_waits sz (drop n (r @ bs)) \<and>
      clean_reads sz (drop n (r @ bs)) reads)"

lemma clean_reads_Cons:
  "clean_reads sz r ((bs, vs) # reads) \<longleftrightarrow>
     bs \<noteq> [] \<and> length bs \<le> READ_BUFFER \<and> list_all (wire_ok sz) vs \<and>
     (\<exists>r'. r @ bs = concat (map serialize_resp2 vs) @ r' \<and> rest_waits sz r' \<and> clean_reads sz r' reads)"
  by (simp only: clean_reads.simps Let_def) (metis append_eq_conv_conj append_take_drop_id)

lemma parse_rest:
  "parser_inv p \<Longrightarrow> rest_waits sz (unread p) \<Longrightarrow> parse sz p = Ok (None, p)"
  by (auto simp: rest_waits_def parse_def unread_def Let_def)

text \<open>The inner loop answers the complete requests in the buffer and then waits.\<close>

lemma parse_loop_requests:
  assumes "server_ok sv" and tx: "\<And>rs. tx_ok sv rs"
  shows "parser_inv p \<Longrightarrow> unread p = concat (map serialize_resp2 vs) @ rest \<Longrightarrow> rest_waits (value_size sv) rest \<Longrightarrow>
     list_all (wire_ok (value_size sv)) vs \<Longrightarrow> serve_all sv vs env = Ok (rs, env') \<Longrightarrow>
     \<exists>p'. parse_loop sv p env sent = (Waits, p', env', sent @ rs) \<and> parser_inv p' \<and> unread p' = rest"
proof (induction vs arbitrary: p env sent rs)
  case Nil
  then have "parse (value_size sv) p = Ok (None, p)"
    by (simp add: parse_rest)
  with Nil show ?case
    by (subst parse_loop.simps) simp
next
  case (Cons v vs)
  let ?sz = "value_size sv"
  from Cons.prems(5) obtain r env1 rs1 where r: "serve sv v env = Ok (r, env1)"
      "serve_all sv vs env1 = Ok (rs1, env')" "rs = r # rs1"
    by (auto simp: and_then_Ok_iff)
  have "parse_value ?sz (unread p) = Ok (v, concat (map serialize_resp2 vs) @ rest)"
    using Cons.prems(2,4) by (simp add: parse_serialized)
  from parse_Some [OF Cons.prems(1) this] obtain p1 where
    p1: "parse ?sz p = Ok (Some v, p1)" "parser_inv p1" "unread p1 = concat (map serialize_resp2 vs) @ rest"
    by blast
  have step: "parse_loop sv p env sent = parse_loop sv p1 env1 (sent @ [r])"
  proof (cases "from_resp (tables sv) v")
    case (Ok cmd)
    with r(1) have "process_command (iteration sv) (shard_count sv) (ask_shard sv) cmd env = (Ok (r, env1) :: (_, unit) outcome)"
      by (simp add: serve_def)
    with process_command_Ok [of "iteration sv" "shard_count sv" "ask_shard sv" cmd env] assms(1)
    have "process_command (iteration sv) (shard_count sv) (ask_shard sv) cmd env = (Ok (r, env1) :: (_, parse_error) outcome)"
      by (auto simp: server_ok_def)
    with Ok p1(1) tx show ?thesis
      by (simp add: parse_loop.simps [of sv p env sent])
  next
    case (Err e)
    with r(1) have "r = error_reply (tables sv) e" "env1 = env"
      by (simp_all add: serve_def)
    with Err p1(1) tx show ?thesis
      by (simp add: parse_loop.simps [of sv p env sent])
  next
    case (Panic q)
    with r(1) show ?thesis by (simp add: serve_def)
  qed
  from Cons.IH [OF p1(2,3) Cons.prems(3) _ r(2), of "sent @ [r]"] Cons.prems(4) step r(3) show ?case
    by simp
qed

lemma serve_all_append:
  assumes ok: "server_ok sv"
  shows "serve_all sv (vs @ ws) env =
     and_then (serve_all sv vs env) (\<lambda>(rs, env).
       and_then (serve_all sv ws env) (\<lambda>(rs', env). Ok (rs @ rs', env)))"
proof (induction vs arbitrary: env)
  case Nil
  obtain rs env' where "serve_all sv ws env = Ok (rs, env')"
    using serve_all_Ok [OF ok] by blast
  then show ?case by simp
next
  case (Cons v vs)
  obtain r env1 where v: "serve sv v env = Ok (r, env1)"
    by (rule serve_Ok [OF ok])
  obtain rs env2 where vs: "serve_all sv vs env1 = Ok (rs, env2)"
    using serve_all_Ok [OF ok] by blast
  obtain rs' env3 where "serve_all sv ws env2 = Ok (rs', env3)"
    using serve_all_Ok [OF ok] by blast
  with v vs Cons [of env1] show ?case by simp
qed

text \<open>One read after another.\<close>

lemma read_loop_requests:
  assumes "server_ok sv" and tx: "\<And>rs. tx_ok sv rs"
  shows "parser_inv p \<Longrightarrow> clean_reads (value_size sv) (unread p) reads \<Longrightarrow>
     serve_all sv (concat (map snd reads)) env = Ok (rs, env') \<Longrightarrow>
     read_loop sv (map (\<lambda>r. Data (fst r)) reads @ [Data []]) p env sent = (Awaits_writer, env', sent @ rs)"
proof (induction reads arbitrary: p env sent rs)
  case Nil
  then show ?case using tx by simp
next
  case (Cons rd reads)
  obtain bs vs where rd: "rd = (bs, vs)" by fastforce
  obtain rest where rest: "unread p @ bs = concat (map serialize_resp2 vs) @ rest"
      "rest_waits (value_size sv) rest" "clean_reads (value_size sv) rest reads"
      and read: "bs \<noteq> []" "list_all (wire_ok (value_size sv)) vs"
    using Cons.prems(2) unfolding rd clean_reads_Cons by blast
  from Cons.prems(3) obtain rs1 env1 rs2 where r: "serve_all sv vs env = Ok (rs1, env1)"
      "serve_all sv (concat (map snd reads)) env1 = Ok (rs2, env')" "rs = rs1 @ rs2"
    by (auto simp: rd serve_all_append [OF assms(1)] and_then_Ok_iff)
  have "\<exists>p'. parse_loop sv (feed bs p) env sent = (Waits, p', env1, sent @ rs1) \<and>
      parser_inv p' \<and> unread p' = rest"
    by (rule parse_loop_requests [OF assms _ _ rest(2) read(2) r(1)]) (use Cons.prems(1) rest(1) in simp_all)
  then show ?case
    using Cons.IH [of _ env1 rs2 "sent @ rs1"] read(1) rest(3) r(2,3) by (auto simp: rd)
qed

end
