(* ===== verification/Cluster.thy ===== *)
theory Cluster
  imports Handler Shard_Refinement
begin

text \<open>
  The shards behind the handler: one shard per index, \<open>None\<close> when its task was unwound. A
  message is executed by its shard and answered; a panic drops the reply and the shard. For
  commands within the limits the whole server is the abstract store again: every key lives
  in the shard the router names, and a \<open>DEL\<close> over many shards counts like one over one store.
\<close>

section \<open>The shards as an environment\<close>

type_synonym cluster = "nat \<Rightarrow> shard option"

definition ask_worker :: "build \<Rightarrow> instant \<Rightarrow> instant \<Rightarrow> cluster ask" where
  "ask_worker b t t' i c cl =
     (case cl i of
        None \<Rightarrow> (Send_closed, cl)
      | Some s \<Rightarrow>
          (case execute b t t' c s of
             Ok (r, s') \<Rightarrow> (Replied r, cl(i \<mapsto> s'))
           | _ \<Rightarrow> (Reply_dropped, cl(i := None))))"

definition serve_command ::
    "((shard_id, key list) hashmap \<Rightarrow> (shard_id \<times> key list) list) \<Rightarrow> build \<Rightarrow> (instant \<Rightarrow> instant) \<Rightarrow>
     instant \<Rightarrow> command \<Rightarrow> cluster \<Rightarrow> (response \<times> cluster, unit) outcome" where
  "serve_command iter b clock t c cl = process_command iter SHARD_COUNT (ask_worker b t (clock t)) c cl"

text \<open>At time \<open>t\<close> the shards \<open>which t\<close> run their expiration.\<close>

definition tick_shards :: "(instant \<Rightarrow> nat set) \<Rightarrow> instant \<Rightarrow> cluster \<Rightarrow> cluster run" where
  "tick_shards which t cl =
     Ok (\<lambda>i. if i \<in> which t then
              (case cl i of
                 None \<Rightarrow> None
               | Some s \<Rightarrow> (case expire_keys t s of Ok s' \<Rightarrow> Some s' | _ \<Rightarrow> None))
            else cl i)"

definition cluster_new :: "instant \<Rightarrow> cluster" where
  "cluster_new now i = (if i < SHARD_COUNT then Some (Shard_new now (ShardId (word_of_nat i))) else None)"

section \<open>The server as one store\<close>

definition home :: "key \<Rightarrow> nat" where
  "home k = as_usize (route_key k)"

definition cluster_ok :: "build \<Rightarrow> cluster \<Rightarrow> bool" where
  "cluster_ok b cl \<longleftrightarrow> (\<forall>i<SHARD_COUNT. \<exists>s. cl i = Some s \<and> shard_ok b s)"

definition cluster_view :: "instant \<Rightarrow> cluster \<Rightarrow> store" where
  "cluster_view t cl k = (case cl (home k) of None \<Rightarrow> None | Some s \<Rightarrow> view t s k)"

text \<open>What a command needs of the shards it goes to.\<close>

definition cluster_fits :: "build \<Rightarrow> instant \<Rightarrow> command \<Rightarrow> cluster \<Rightarrow> bool" where
  "cluster_fits b t c cl =
     (let at_home = (\<lambda>k c. case cl (home k) of None \<Rightarrow> False | Some s \<Rightarrow> shard_fits b t c s)
      in case c of
           Set k v ttl \<Rightarrow> at_home k c
         | Expire k n \<Rightarrow> at_home k c
         | Del ks \<Rightarrow> list_all (\<lambda>k. at_home k (Del [k])) ks
         | _ \<Rightarrow> True)"

lemma home_less: "home k < SHARD_COUNT"
  by (simp add: home_def route_less)

lemma cluster_okD: "cluster_ok b cl \<Longrightarrow> i < SHARD_COUNT \<Longrightarrow> \<exists>s. cl i = Some s \<and> shard_ok b s"
  by (simp add: cluster_ok_def)

lemma cluster_ok_upd: "cluster_ok b cl \<Longrightarrow> shard_ok b s \<Longrightarrow> cluster_ok b (cl(i \<mapsto> s))"
  by (simp add: cluster_ok_def)

lemma view_upd:
  "cl i = Some s \<Longrightarrow> (\<And>k. home k = i \<Longrightarrow> view t s' k = st k) \<Longrightarrow>
   (\<And>k. home k \<noteq> i \<Longrightarrow> cluster_view t cl k = st k) \<Longrightarrow> cluster_view t (cl(i \<mapsto> s')) = st"
  by (rule ext) (simp add: cluster_view_def)

text \<open>A command sent to one good shard that it fits.\<close>

lemma ask_good:
  assumes "cl i = Some s" and "shard_ok b s" and "shard_fits b t c s"
  obtains r s' where "ask_worker b t t' i c cl = (Replied r, cl(i \<mapsto> s'))" "shard_ok b s'"
    "answers (spec_reply t c (view t s)) r" "view t s' = spec_step t c (view t s)"
proof -
  obtain r s' where "execute b t t' c s = Ok (r, s')" "shard_ok b s'"
      "answers (spec_reply t c (view t s)) r" "view t s' = spec_step t c (view t s)"
    using execute_view [OF assms(2,3), of t'] by blast
  with assms(1) show ?thesis
    by (intro that) (simp_all add: ask_worker_def)
qed

text \<open>The specification of a single-key command looks at, and changes, its key only.\<close>

fun key_of :: "command \<Rightarrow> key option" where
  "key_of (Get k) = Some k"
| "key_of (Set k v ttl) = Some k"
| "key_of (Expire k n) = Some k"
| "key_of (Ttl k) = Some k"
| "key_of _ = None"

lemma reply_local: "key_of c = Some k \<Longrightarrow> st k = st' k \<Longrightarrow> spec_reply t c st = spec_reply t c st'"
  by (cases c) auto

lemma step_local: "key_of c = Some k \<Longrightarrow> st k = st' k \<Longrightarrow> spec_step t c st k = spec_step t c st' k"
  by (cases c) (auto simp: spec_step_def prune_def split: option.split)

lemma step_other: "key_of c = Some k \<Longrightarrow> j \<noteq> k \<Longrightarrow> spec_step t c st j = alive t (st j)"
  by (cases c) (auto simp: spec_step_def prune_def split: option.split)

lemma alive_view [simp]: "alive t (view t s k) = view t s k"
  by (simp add: view_def)

lemma alive_cluster_view [simp]: "alive t (cluster_view t cl k) = cluster_view t cl k"
  by (simp add: cluster_view_def split: option.split)

lemma single_key:
  assumes "cluster_ok b cl" and "key_of c = Some k" and "cl (home k) = Some s" and "shard_fits b t c s"
  shows "\<exists>r cl'. send_to_shard SHARD_COUNT (ask_worker b t t') (route_key k) c cl = (r, cl') \<and>
     cluster_ok b cl' \<and> answers (spec_reply t c (cluster_view t cl)) r \<and>
     cluster_view t cl' = spec_step t c (cluster_view t cl)"
proof -
  have s: "shard_ok b s"
    using cluster_okD [OF assms(1) home_less [of k]] assms(3) by simp
  obtain r s' where r: "ask_worker b t t' (home k) c cl = (Replied r, cl(home k \<mapsto> s'))" "shard_ok b s'"
      "answers (spec_reply t c (view t s)) r" "view t s' = spec_step t c (view t s)"
    by (rule ask_good [where cl = cl and i = "home k", OF assms(3) s assms(4)])
  have here: "view t s j = cluster_view t cl j" if "home j = home k" for j
    using that assms(3) by (simp add: cluster_view_def)
  have "cluster_view t (cl(home k \<mapsto> s')) = spec_step t c (cluster_view t cl)"
  proof (rule view_upd [where cl = cl and i = "home k", OF assms(3)])
    fix j
    assume "home j = home k"
    then show "view t s' j = spec_step t c (cluster_view t cl) j"
      using r(4) here [of j] step_local [OF assms(2), of "view t s" "cluster_view t cl" t]
        step_other [OF assms(2), of j t]
      by (cases "j = k") simp_all
  next
    fix j
    assume "home j \<noteq> home k"
    then have "j \<noteq> k" by auto
    then show "cluster_view t cl j = spec_step t c (cluster_view t cl) j"
      using step_other [OF assms(2)] by simp
  qed
  moreover have "spec_reply t c (view t s) = spec_reply t c (cluster_view t cl)"
    using reply_local [OF assms(2)] here by blast
  ultimately show ?thesis
    using r home_less [of k] cluster_ok_upd [OF assms(1) r(2)]
    by (simp add: send_to_shard_def home_def)
qed

section \<open>DEL over several shards\<close>

definition live :: "instant \<Rightarrow> cluster \<Rightarrow> key set \<Rightarrow> key set" where
  "live t cl K = {k \<in> K. cluster_view t cl k \<noteq> None}"

text \<open>Each group is on its shard, and its keys are settled there.\<close>

definition groups_fit :: "build \<Rightarrow> instant \<Rightarrow> (shard_id \<times> key list) list \<Rightarrow> cluster \<Rightarrow> bool" where
  "groups_fit b t groups cl \<longleftrightarrow>
     (\<forall>i js. (i, js) \<in> set groups \<longrightarrow> as_usize i < SHARD_COUNT \<and>
        (\<forall>k\<in>set js. route_key k = i \<and> (\<exists>s. cl (home k) = Some s \<and> \<not> stale t s k)))"

lemma shard_fits_Del: "shard_fits b t (Del ks) s \<longleftrightarrow> list_all (\<lambda>k. \<not> stale t s k) ks"
  by (simp add: shard_fits_def deadline_fits_def accepted_def settled_def)

lemma ask_del:
  assumes "cluster_ok b cl" and "as_usize i < SHARD_COUNT"
    and "\<forall>k\<in>set js. route_key k = i \<and> (\<exists>s. cl (home k) = Some s \<and> \<not> stale t s k)"
  obtains s' where
    "ask_worker b t t' (as_usize i) (Del js) cl = (Replied (RInteger (int (card (live t cl (set js))))), cl(as_usize i \<mapsto> s'))"
    "shard_ok b s'" "cluster_view t (cl(as_usize i \<mapsto> s')) = cluster_view t cl |` (- set js)"
proof -
  obtain s where s: "cl (as_usize i) = Some s" "shard_ok b s"
    using cluster_okD [OF assms(1,2)] by blast
  have home: "home k = as_usize i" if "k \<in> set js" for k
    using assms(3) that by (simp add: home_def)
  have "shard_fits b t (Del js) s"
    unfolding shard_fits_Del using assms(3) s(1) home by (fastforce simp: list_all_iff)
  from ask_good [where cl = cl and i = "as_usize i", OF s this] obtain r s' where
    r: "ask_worker b t t' (as_usize i) (Del js) cl = (Replied r, cl(as_usize i \<mapsto> s'))" "shard_ok b s'"
      "answers (spec_reply t (Del js) (view t s)) r" "view t s' = spec_step t (Del js) (view t s)"
    by blast
  have "{k \<in> set js. view t s k \<noteq> None} = live t cl (set js)"
    using home s(1) by (auto simp: live_def cluster_view_def)
  then have "r = RInteger (int (card (live t cl (set js))))"
    using r(3) by (simp add: answers_def)
  moreover have "cluster_view t (cl(as_usize i \<mapsto> s')) = cluster_view t cl |` (- set js)"
  proof (rule view_upd [where cl = cl and i = "as_usize i", OF s(1)])
    fix k
    assume "home k = as_usize i"
    then show "view t s' k = (cluster_view t cl |` (- set js)) k"
      using s(1) r(4) by (simp add: cluster_view_def spec_step_def prune_def restrict_map_def)
  next
    fix k
    assume "home k \<noteq> as_usize i"
    then show "cluster_view t cl k = (cluster_view t cl |` (- set js)) k"
      using home by (auto simp: restrict_map_def)
  qed
  ultimately show ?thesis
    using that r(1,2) by simp
qed

lemma ask_all_del:
  "cluster_ok b cl \<Longrightarrow> distinct (map fst groups) \<Longrightarrow> groups_fit b t groups cl \<Longrightarrow>
   \<exists>cl'. ask_all (ask_worker b t t') groups cl =
           (map (\<lambda>(i, js). Replied (RInteger (int (card (live t cl (set js)))))) groups, cl') \<and>
         cluster_ok b cl' \<and>
         cluster_view t cl' = cluster_view t cl |` (- (\<Union>(i, js)\<in>set groups. set js))"
proof (induction groups arbitrary: cl)
  case Nil
  then show ?case by simp
next
  case (Cons g groups)
  obtain i js where g: "g = (i, js)" by fastforce
  have fit: "as_usize i < SHARD_COUNT"
    "\<forall>k\<in>set js. route_key k = i \<and> (\<exists>s. cl (home k) = Some s \<and> \<not> stale t s k)"
    using Cons.prems(3) g unfolding groups_fit_def by (meson list.set_intros(1))+
  obtain s' where s': "ask_worker b t t' (as_usize i) (Del js) cl =
        (Replied (RInteger (int (card (live t cl (set js))))), cl(as_usize i \<mapsto> s'))"
      "shard_ok b s'" "cluster_view t (cl(as_usize i \<mapsto> s')) = cluster_view t cl |` (- set js)"
    by (rule ask_del [OF Cons.prems(1) fit])
  let ?cl = "cl(as_usize i \<mapsto> s')"
  have other: "home k \<noteq> as_usize i \<and> k \<notin> set js" if "(j, ks) \<in> set groups" "k \<in> set ks" for j ks k
  proof -
    have "j \<noteq> i"
      using Cons.prems(2) g that(1) by force
    moreover have "route_key k = j"
      using Cons.prems(3) that unfolding groups_fit_def by (meson list.set_intros(2))
    ultimately show ?thesis
      using fit(2) by (auto simp: home_def as_usize_inj)
  qed
  have "groups_fit b t groups ?cl"
    unfolding groups_fit_def
  proof (intro allI impI)
    fix j ks
    assume j: "(j, ks) \<in> set groups"
    then have "as_usize j < SHARD_COUNT \<and>
        (\<forall>k\<in>set ks. route_key k = j \<and> (\<exists>s. cl (home k) = Some s \<and> \<not> stale t s k))"
      using Cons.prems(3) unfolding groups_fit_def by (meson list.set_intros(2))
    with other [OF j] show "as_usize j < SHARD_COUNT \<and>
        (\<forall>k\<in>set ks. route_key k = j \<and> (\<exists>s. ?cl (home k) = Some s \<and> \<not> stale t s k))"
      by simp
  qed
  moreover have "distinct (map fst groups)"
    using Cons.prems(2) by simp
  ultimately obtain cl' where
    cl': "ask_all (ask_worker b t t') groups ?cl =
        (map (\<lambda>(i, js). Replied (RInteger (int (card (live t ?cl (set js)))))) groups, cl')"
      "cluster_ok b cl'"
      "cluster_view t cl' = cluster_view t ?cl |` (- (\<Union>(i, js)\<in>set groups. set js))"
    using Cons.IH [OF cluster_ok_upd [OF Cons.prems(1) s'(2)]] by blast
  have "live t ?cl (set ks) = live t cl (set ks)" if "(j, ks) \<in> set groups" for j ks
    using other [OF that] by (auto simp: live_def s'(3))
  then have "map (\<lambda>(i, js). Replied (RInteger (int (card (live t ?cl (set js)))))) groups =
      map (\<lambda>(i, js). Replied (RInteger (int (card (live t cl (set js)))))) groups"
    by auto
  then show ?case
    using cl' s'(1,3) g by (simp add: Int_commute Compl_Un)
qed

lemma collect_integers: "collect_replies (map RInteger ns) m es = (m + sum_list ns, es)"
  by (induction ns arbitrary: m) simp_all

text \<open>The groups of a request count every key once.\<close>

lemma groups_count:
  assumes "set groups = set (route_keys ks)" and "distinct (map fst groups)"
  shows "(\<Sum>(i, js)\<leftarrow>groups. int (card (live t cl (set js)))) = int (card (live t cl (set ks)))"
    and "(\<Union>(i, js)\<in>set groups. set js) = set ks"
proof -
  let ?A = "live t cl (set ks)"
  have js: "js = filter (\<lambda>k. route_key k = i) ks" if "(i, js) \<in> set groups" for i js
    using group_of_shard that assms(1) by blast
  have all: "route_key k \<in> fst ` set groups" if "k \<in> set ks" for k
  proof -
    have "hm_get (route_keys ks) (route_key k) = Some (filter (\<lambda>j. route_key j = route_key k) ks)"
      using that by (auto simp: route_keys_def get_groups keys_of_shard_def filter_empty_conv)
    then have "(route_key k, filter (\<lambda>j. route_key j = route_key k) ks) \<in> set (route_keys ks)"
      by (simp add: hm_get_def map_of_SomeD)
    with assms(1) show ?thesis by force
  qed
  have "(\<Sum>(i, js)\<leftarrow>groups. int (card (live t cl (set js)))) =
      (\<Sum>i\<leftarrow>map fst groups. int (card {k \<in> ?A. route_key k = i}))"
    unfolding map_map comp_def
  proof (rule arg_cong [where f = sum_list], rule map_cong [OF refl])
    fix g
    assume "g \<in> set groups"
    moreover obtain i js where "g = (i, js)" by fastforce
    ultimately show "(case g of (i, js) \<Rightarrow> int (card (live t cl (set js)))) =
        int (card {k \<in> ?A. route_key k = fst g})"
      using js [of i js] by (auto simp: live_def intro!: arg_cong [where f = card])
  qed
  also have "\<dots> = (\<Sum>i\<in>fst ` set groups. int (card {k \<in> ?A. route_key k = i}))"
    by (simp only: sum_list_distinct_conv_sum_set [OF assms(2)] set_map)
  also have "\<dots> = int (card ?A)"
    using sum.group [of ?A "fst ` set groups" route_key "\<lambda>_. 1 :: nat"] all
    by (force simp: live_def simp flip: of_nat_sum)
  finally show "(\<Sum>(i, js)\<leftarrow>groups. int (card (live t cl (set js)))) = int (card ?A)" .
  show "(\<Union>(i, js)\<in>set groups. set js) = set ks"
    using js all by (force split: prod.splits)
qed

section \<open>The server implements the store\<close>

definition iteration_ok :: "((shard_id, key list) hashmap \<Rightarrow> (shard_id \<times> key list) list) \<Rightarrow> bool" where
  "iteration_ok iter \<longleftrightarrow> (\<forall>m. mset (iter m) = mset m)"

definition serves :: "build \<Rightarrow> instant \<Rightarrow> command \<Rightarrow> cluster \<Rightarrow> (response \<times> cluster, unit) outcome \<Rightarrow> bool" where
  "serves b t c cl res \<longleftrightarrow>
     (\<exists>r cl'. res = Ok (r, cl') \<and> cluster_ok b cl' \<and> answers (spec_reply t c (cluster_view t cl)) r \<and>
        cluster_view t cl' = spec_step t c (cluster_view t cl))"

lemma serve_single:
  assumes "cluster_ok b cl" and "key_of c = Some k" and "\<And>s. cl (home k) = Some s \<Longrightarrow> shard_fits b t c s"
    and "serve_command iter b clock t c cl =
           Ok (send_to_shard SHARD_COUNT (ask_worker b t (clock t)) (route_key k) c cl)"
  shows "serves b t c cl (serve_command iter b clock t c cl)"
proof -
  obtain s where "cl (home k) = Some s"
    using cluster_okD [OF assms(1) home_less] by blast
  from single_key [OF assms(1,2) this assms(3) [OF this], of "clock t"] assms(4) show ?thesis
    by (auto simp: serves_def)
qed

lemma serve_global:
  assumes "cluster_ok b cl" and "c = Ping m \<or> c = Info i"
  shows "serves b t c cl (serve_command iter b clock t c cl)"
proof -
  obtain s where s: "cl 0 = Some s" "shard_ok b s"
    using cluster_okD [OF assms(1), of 0] by (auto simp: SHARD_COUNT_def)
  have "shard_fits b t c s"
    using assms(2) by (auto simp: shard_fits_def deadline_fits_def accepted_def settled_def)
  from ask_good [where cl = cl and i = 0, OF s this] obtain r s' where
    r: "ask_worker b t (clock t) 0 c cl = (Replied r, cl(0 \<mapsto> s'))" "shard_ok b s'"
      "answers (spec_reply t c (view t s)) r" "view t s' = spec_step t c (view t s)"
    by blast
  have step: "spec_step t c st = prune t st" for st
    using assms(2) by (auto simp: spec_step_def)
  have "cluster_view t (cl(0 \<mapsto> s')) = spec_step t c (cluster_view t cl)"
  proof (rule view_upd [where cl = cl and i = 0, OF s(1)])
    fix k
    assume "home k = 0"
    then have "cluster_view t cl k = view t s k"
      using s(1) by (simp add: cluster_view_def)
    then show "view t s' k = spec_step t c (cluster_view t cl) k"
      using r(4) by (simp add: step prune_def)
  qed (simp add: step prune_def)
  moreover have "spec_reply t c (view t s) = spec_reply t c (cluster_view t cl)"
    using assms(2) by (cases m) auto
  moreover have "serve_command iter b clock t c cl = Ok (r, cl(0 \<mapsto> s'))"
    using assms(2) r(1) by (auto simp: serve_command_def send_to_shard_def as_usize_def SHARD_COUNT_def)
  ultimately show ?thesis
    using r cluster_ok_upd [OF assms(1) r(2)] by (auto simp: serves_def)
qed

lemma serve_del:
  assumes "cluster_ok b cl" and "iteration_ok iter" and "cluster_fits b t (Del ks) cl"
  shows "serves b t (Del ks) cl (serve_command iter b clock t (Del ks) cl)"
proof -
  let ?gs = "iter (route_keys ks)"
  have perm: "mset ?gs = mset (route_keys ks)"
    using assms(2) by (simp add: iteration_ok_def)
  have set_eq: "set ?gs = set (route_keys ks)"
    by (rule mset_eq_setD [OF perm])
  have dist: "distinct (map fst ?gs)"
    using hm_wf_route_keys [of ks] perm unfolding hm_wf_def by (metis mset_map mset_eq_imp_distinct_iff)
  have settled: "\<exists>s. cl (home k) = Some s \<and> \<not> stale t s k" if "k \<in> set ks" for k
    using assms(3) that
    by (fastforce simp: cluster_fits_def list_all_iff shard_fits_Del split: option.splits)
  have "groups_fit b t ?gs cl"
    unfolding groups_fit_def
  proof (intro allI impI)
    fix i js
    assume "(i, js) \<in> set ?gs"
    then have "js = filter (\<lambda>k. route_key k = i) ks \<and> js \<noteq> [] \<and> as_usize i < SHARD_COUNT"
      using set_eq group_of_shard by blast
    with settled show "as_usize i < SHARD_COUNT \<and>
        (\<forall>k\<in>set js. route_key k = i \<and> (\<exists>s. cl (home k) = Some s \<and> \<not> stale t s k))"
      by auto
  qed
  from ask_all_del [OF assms(1) dist this, of "clock t"] obtain cl' where
    a: "ask_all (ask_worker b t (clock t)) ?gs cl =
        (map (\<lambda>(i, js). Replied (RInteger (int (card (live t cl (set js)))))) ?gs, cl')"
      "cluster_ok b cl'" "cluster_view t cl' = cluster_view t cl |` (- set ks)"
    unfolding groups_count(2) [OF set_eq dist] by blast
  have "map del_reply (map (\<lambda>(i, js). Replied (RInteger (int (card (live t cl (set js)))))) ?gs) =
      map RInteger (map (\<lambda>(i, js). int (card (live t cl (set js)))) ?gs)"
    by (simp add: split_beta)
  then have "collect_replies (map del_reply (map (\<lambda>(i, js). Replied (RInteger (int (card (live t cl (set js)))))) ?gs)) 0 [] =
      (int (card (live t cl (set ks))), [])"
    unfolding collect_integers groups_count(1) [OF set_eq dist]
    by (simp only: collect_integers groups_count(1) [OF set_eq dist] add_0)
  then have "serve_command iter b clock t (Del ks) cl = Ok (RInteger (int (card (live t cl (set ks)))), cl')"
    using groups_in_range [of iter ks] assms(2) a(1)
    by (simp add: serve_command_def process_multi_key_del_def iteration_ok_def)
  moreover have "cluster_view t cl' = spec_step t (Del ks) (cluster_view t cl)"
    unfolding a(3) by (auto simp: spec_step_def prune_def restrict_map_def)
  ultimately show ?thesis
    using a(2) by (simp add: serves_def answers_def live_def)
qed

lemma serve_refines:
  assumes "cluster_ok b cl" and "iteration_ok iter" and "cluster_fits b t c cl"
  shows "serves b t c cl (serve_command iter b clock t c cl)"
proof (cases c)
  case (Ping m)
  then show ?thesis using serve_global [OF assms(1)] by blast
next
  case (Info i)
  then show ?thesis using serve_global [OF assms(1)] by blast
next
  case (Del ks)
  then show ?thesis using serve_del [OF assms(1,2)] assms(3) by simp
next
  case (Set k v ttl)
  then show ?thesis
    using assms(1,3) by (intro serve_single) (auto simp: cluster_fits_def serve_command_def)
next
  case (Get k)
  then show ?thesis
    using assms(1)
    by (intro serve_single) (auto simp: shard_fits_def deadline_fits_def accepted_def settled_def serve_command_def)
next
  case (Expire k n)
  then show ?thesis
    using assms(1,3) by (intro serve_single) (auto simp: cluster_fits_def serve_command_def)
next
  case (Ttl k)
  then show ?thesis
    using assms(1)
    by (intro serve_single) (auto simp: shard_fits_def deadline_fits_def accepted_def settled_def serve_command_def)
qed

lemma tick_refines:
  assumes "cluster_ok b cl"
  shows "\<exists>cl'. tick_shards which t cl = Ok cl' \<and> cluster_ok b cl' \<and> cluster_view t cl' = cluster_view t cl"
proof -
  let ?cl = "\<lambda>i. if i \<in> which t then
      (case cl i of None \<Rightarrow> None | Some s \<Rightarrow> (case expire_keys t s of Ok s' \<Rightarrow> Some s' | _ \<Rightarrow> None)) else cl i"
  have one: "\<exists>s'. ?cl i = Some s' \<and> shard_ok b s' \<and> view t s' = view t s"
    if "i < SHARD_COUNT" "cl i = Some s" for i s
    using cluster_okD [OF assms that(1)] that(2) expire_keys_view [of b s t] by auto
  have "cluster_ok b ?cl"
    unfolding cluster_ok_def using one cluster_okD [OF assms] by blast
  moreover have "cluster_view t ?cl k = cluster_view t cl k" for k
  proof -
    obtain s where s: "cl (home k) = Some s"
      using cluster_okD [OF assms home_less] by blast
    from one [OF home_less s] obtain s' where "?cl (home k) = Some s'" "view t s' = view t s"
      by blast
    with s show ?thesis
      unfolding cluster_view_def by simp
  qed
  ultimately show ?thesis
    by (auto simp: tick_shards_def)
qed

lemma cluster_view_later: "t \<le> u \<Longrightarrow> cluster_view u cl = prune u (cluster_view t cl)"
  by (rule ext) (simp add: cluster_view_def prune_def view_later [of t u] split: option.split)

interpretation server_store: store_machine "cluster_ok b" cluster_view "serve_command iter b clock"
    "\<lambda>t c cl. iteration_ok iter \<and> cluster_fits b t c cl" "tick_shards which"
  for b :: build and iter and clock :: "instant \<Rightarrow> instant" and which :: "instant \<Rightarrow> nat set"
proof (unfold_locales, goal_cases)
  case (1 cl t c)
  with serve_refines [of b cl iter t c clock] show ?case
    by (auto simp: serves_def)
next
  case (2 cl t)
  then show ?case by (rule tick_refines)
next
  case (3 cl t u)
  then show ?case by (intro cluster_view_later)
qed

lemma cluster_new_ok: "entry_size b < 2 ^ 32 \<Longrightarrow> cluster_ok b (cluster_new now)"
  by (simp add: cluster_ok_def cluster_new_def Shard_new_ok)

lemma cluster_new_view [simp]: "cluster_view t (cluster_new now) = (\<lambda>_. None)"
  by (auto simp: cluster_view_def cluster_new_def view_def Shard_new_def)

end
