(* ===== verification/Multi_Key.thy ===== *)
theory Multi_Key
  imports Handler
begin

text \<open>
  \<open>frontend/multi_key.rs\<close> and \<open>frontend/error_handling.rs\<close>: the executor for commands over many
  shards that the handler is meant to use, and its result.
\<close>

datatype multi_key_result =
    Success int
  | PartialFailure int "shard_id list" "bytes list"
  | TotalFailure bytes

text \<open>
  What a future of \<open>execute_del\<close> returns: a failed (not timed out) send is not looked at, the
  message and with it the reply's sender are dropped, so the reply is \<open>Err\<close>.
\<close>

fun shard_result :: "send_result \<Rightarrow> (int, bytes) outcome" where
  "shard_result (Replied (RInteger n)) = Ok n"
| "shard_result (Replied (RError e)) = Err e"
| "shard_result (Replied _) = Err (ascii ''Unexpected response type'')"
| "shard_result Reply_dropped = Err (ascii ''Shard disconnected'')"
| "shard_result Reply_timeout = Err (ascii ''Shard response timeout'')"
| "shard_result Send_closed = Err (ascii ''Shard disconnected'')"
| "shard_result Send_timeout = Err (ascii ''Shard overloaded (Send timeout)'')"

text \<open>The aggregation loop: total, failed shards, messages.\<close>

fun aggregate ::
    "(shard_id \<times> (int, bytes) outcome) list \<Rightarrow> int \<Rightarrow> shard_id list \<Rightarrow> bytes list \<Rightarrow>
     int \<times> shard_id list \<times> bytes list" where
  "aggregate [] acc failed errors = (acc, failed, errors)"
| "aggregate ((i, Ok n) # rs) acc failed errors = aggregate rs (acc + n) failed errors"
| "aggregate ((i, Err e) # rs) acc failed errors =
     aggregate rs acc (failed @ [i])
       (errors @ [ascii ''Shard '' @ dec_nat (as_usize i) @ ascii '': '' @ e])"
| "aggregate ((i, Panic q) # rs) acc failed errors = aggregate rs acc failed errors"

definition execute_del ::
    "((shard_id, key list) hashmap \<Rightarrow> (shard_id \<times> key list) list) \<Rightarrow> nat \<Rightarrow> 'env ask \<Rightarrow> key list \<Rightarrow> 'env \<Rightarrow>
     (multi_key_result \<times> 'env, 'e) outcome" where
  "execute_del iter shards ask keys env =
     (let grouped = route_keys keys in
      if grouped = [] then Ok (Success 0, env)
      else if list_ex (\<lambda>(i, ks). shards \<le> as_usize i) (iter grouped) then Panic Index_Out_Of_Bounds
      else
        let (results, env') = ask_all ask (iter grouped) env;
            (total_deleted, failed_shards, errors) =
              aggregate (zip (map fst (iter grouped)) (map shard_result results)) 0 [] []
        in Ok (if errors = [] then Success total_deleted
               else if 0 < total_deleted then PartialFailure total_deleted failed_shards errors
               else TotalFailure (join (ascii ''; '') errors), env'))"

text \<open>\<open>{:?}\<close> of a \<open>Vec<ShardId>\<close>.\<close>

definition debug_shards :: "shard_id list \<Rightarrow> bytes" where
  "debug_shards is =
     ascii ''['' @ join (ascii '', '') (map (\<lambda>i. ascii ''ShardId('' @ dec_nat (as_usize i) @ ascii '')'') is) @
     ascii '']''"

fun to_response :: "multi_key_result \<Rightarrow> response" where
  "to_response (Success n) = RInteger n"
| "to_response (PartialFailure succeeded failed_shards errors) =
     RError (ascii ''ERR partial failure: '' @ dec_int succeeded @ ascii '' succeeded, '' @
       dec_nat (length failed_shards) @ ascii '' failed on shards '' @ debug_shards failed_shards @
       ascii '': '' @ join (ascii '', '') errors)"
| "to_response (TotalFailure msg) = RError msg"

section \<open>Agreement with the handler\<close>

lemma length_ask_all: "length (fst (ask_all ask groups env)) = length groups"
  by (induction groups arbitrary: env) (auto simp: Let_def split_beta)

lemma aggregate_integers:
  "length is = length ns \<Longrightarrow>
   aggregate (zip is (map shard_result (map (\<lambda>n. Replied (RInteger n)) ns))) acc failed errors =
     (acc + sum_list ns, failed, errors)"
  by (induction "is" ns arbitrary: acc rule: list_induct2) simp_all

lemma collect_replied:
  "collect_replies (map del_reply (map (\<lambda>n. Replied (RInteger n)) ns)) acc errors = (acc + sum_list ns, errors)"
  by (induction ns arbitrary: acc) simp_all

lemma all_integers:
  "\<forall>x\<in>set xs. \<exists>n. x = Replied (RInteger n) \<Longrightarrow> \<exists>ns. xs = map (\<lambda>n. Replied (RInteger n)) ns"
proof (induction xs)
  case (Cons x xs)
  then obtain n ns where "x = Replied (RInteger n)" "xs = map (\<lambda>n. Replied (RInteger n)) ns"
    by auto
  then show ?case by (intro exI [of _ "n # ns"]) simp
qed simp

lemma collect_errors:
  "snd (collect_replies rs acc errors) = errors @ [e. RError e \<leftarrow> rs]"
  by (induction rs acc errors rule: collect_replies.induct) auto

end
