(* ===== verification/Handler_Properties.thy ===== *)
theory Handler_Properties
  imports Cluster Multi_Key Shard_Properties
begin

text \<open>
  The properties of the server behind the connections: histories on the sharded server refine the
  abstract store, and what becomes of errors.
\<close>

section \<open>The server\<close>

text \<open>C1 (server_history_refines). Take a history of commands and expiration rounds at
  non-decreasing times, run by the server of 64 fresh shards, that is admissible: along the
  run deadlines are representable, every \<open>SET\<close> is within the limits of its shard and no \<open>DEL\<close>
  or \<open>EXPIRE\<close> meets an expired key that is not collected yet. Then the server answers every
  command as one store with deadlines does, in which a \<open>DEL\<close> of many keys is one step, in
  whatever order the map of groups is iterated.\<close>

theorem server_history_refines:
  assumes "entry_size b < 2 ^ 32" and "sorted (t0 # map event_time evs)"
    and "admissible (serve_command iter b clock) (tick_shards which)
           (\<lambda>t c cl. iteration_ok iter \<and> cluster_fits b t c cl) evs (cluster_new t0)"
  shows "\<exists>rs cl. history (serve_command iter b clock) (tick_shards which) evs (cluster_new t0) = Ok (rs, cl) \<and>
     list_all2 answers (fst (spec_history evs (\<lambda>_. None))) rs \<and>
     (\<forall>t\<ge>last (t0 # map event_time evs).
        cluster_view t cl = prune t (snd (spec_history evs (\<lambda>_. None))))"
proof -
  have "server_store.agree b t0 (cluster_new t0) (\<lambda>_. None)"
    using cluster_new_ok [OF assms(1), of t0] by (simp add: server_store.agree_def prune_def)
  from server_store.history_agrees [OF this assms(2,3)] show ?thesis
    unfolding server_store.agree_def by blast
qed

text \<open>Two keys that live on different shards.\<close>

definition demo_events :: "event list" where
  "demo_events =
     [Run 5 (Set [107] (String [118]) None), Run 5 (Set [108] (String [119]) (Some 9)), Tick 6,
      Run 6 (Get [107]), Run 7 (Del [[107], [108], [107]]), Run 7 (Get [108])]"

lemma demo_homes: "as_usize (route_key [107]) = 13" "as_usize (route_key [108]) = 42"
  by code_simp+

lemma demo_events_admissible:
  "admissible (serve_command rev demo_build (\<lambda>t. t)) (tick_shards (\<lambda>_. {13}))
     (\<lambda>t c cl. iteration_ok rev \<and> cluster_fits demo_build t c cl) demo_events (cluster_new 0)"
proof -
  have "route_key [107] \<noteq> route_key [108]"
    using demo_homes by auto
  then show ?thesis
    using demo_homes
    by (simp add: demo_events_def serve_command_def send_to_shard_def ask_worker_def cluster_new_def
        cluster_fits_def home_def iteration_ok_def demo_simps process_multi_key_del_def route_keys_def
        group_key_def SHARD_COUNT_def cmd_del_def tick_shards_def)
qed

theorem server_history_refines_witness:
  "\<exists>rs cl. history (serve_command rev demo_build (\<lambda>t. t)) (tick_shards (\<lambda>_. {13})) demo_events (cluster_new 0) =
       Ok (rs, cl) \<and>
     rs = [ROk, ROk, RValue (Some (String [118])), RInteger 2, RValue None]"
proof -
  have "sorted (0 # map event_time demo_events)"
    by (simp add: demo_events_def)
  moreover have "entry_size demo_build < 2 ^ 32"
    by (simp add: demo_build_def)
  ultimately obtain rs cl where
    "history (serve_command rev demo_build (\<lambda>t. t)) (tick_shards (\<lambda>_. {13})) demo_events (cluster_new 0) = Ok (rs, cl)"
    "list_all2 answers (fst (spec_history demo_events (\<lambda>_. None))) rs"
    using server_history_refines [OF _ _ demo_events_admissible] by blast
  moreover have "{k. k \<noteq> [107] \<longrightarrow> k = [108]} = {[107], [108 :: byte]}"
    by auto
  then have "card {k. k \<noteq> [107] \<longrightarrow> k = [108 :: byte]} = 2"
    by simp
  with \<open>list_all2 answers _ rs\<close> have "rs = [ROk, ROk, RValue (Some (String [118])), RInteger 2, RValue None]"
    by (simp add: demo_events_def spec_step_def prune_def answers_def list_all2_Cons1 from_secs_def nanos_def)
  ultimately show ?thesis by blast
qed

section \<open>Errors\<close>

text \<open>The reply to a \<open>DEL\<close> is the total of the shards' counts when
  none of them failed, and otherwise one error that lists the messages of all that failed, in
  the order of the groups; the keys deleted on the other shards stay deleted.\<close>

theorem del_reports_every_failure:
  assumes "iteration_ok iter"
  shows "process_command iter SHARD_COUNT ask (Del ks) env =
     (let (results, env') = ask_all ask (iter (route_keys ks)) env;
          errors = [e. RError e \<leftarrow> map del_reply results];
          counts = [n. RInteger n \<leftarrow> map del_reply results]
      in (Ok (if errors = [] then RInteger (sum_list counts)
              else RError (ascii ''ERR partial failure: '' @ join (ascii '', '') errors), env') :: (_, unit) outcome))"
proof -
  have fst: "fst (collect_replies rs acc es) = acc + sum_list [n. RInteger n \<leftarrow> rs]" for rs acc es
    by (induction rs acc es rule: collect_replies.induct) auto
  have "collect_replies rs 0 [] = (sum_list [n. RInteger n \<leftarrow> rs], [e. RError e \<leftarrow> rs])" for rs
    using fst [of rs 0 "[]"] collect_errors [of rs 0 "[]"] by (simp add: prod_eq_iff)
  with groups_in_range [of iter ks] assms show ?thesis
    by (simp add: process_multi_key_del_def iteration_ok_def split_beta Let_def)
qed

theorem del_reports_every_failure_witness:
  "process_command id SHARD_COUNT (\<lambda>i c env. (Send_timeout, env)) (Del [[107]]) () =
     (Ok (RError (ascii ''ERR partial failure: '' @ ascii ''ERR shard overloaded''), ()) :: (_, unit) outcome)"
proof -
  have "iteration_ok id"
    by (simp add: iteration_ok_def)
  from del_reports_every_failure [OF this, of "\<lambda>i c env. (Send_timeout, env)" "[[107]]" "()"] show ?thesis
    by (simp add: route_keys_def group_key_def hm_insert_def Let_def del: ascii_Cons)
qed

text \<open>C40 (executors_agree). When every shard answers with a count, the executor written for
  multi-key commands and the handler's own loop give the same reply and leave the same state.\<close>

theorem executors_agree:
  assumes "iteration_ok iter"
    and "\<forall>x\<in>set (fst (ask_all ask (iter (route_keys ks)) env)). \<exists>n. x = Replied (RInteger n)"
  shows "\<exists>m env'. execute_del iter SHARD_COUNT ask ks env = (Ok (m, env') :: (_, unit) outcome) \<and>
     process_command iter SHARD_COUNT ask (Del ks) env = (Ok (to_response m, env') :: (_, unit) outcome)"
proof -
  obtain res env' where a: "ask_all ask (iter (route_keys ks)) env = (res, env')"
    by fastforce
  obtain ns where ns: "res = map (\<lambda>n. Replied (RInteger n)) ns"
    using assms(2) a all_integers by auto
  have len: "length (map fst (iter (route_keys ks))) = length ns"
    using length_ask_all [of ask "iter (route_keys ks)" env] a ns by simp
  have p: "process_command iter SHARD_COUNT ask (Del ks) env = (Ok (RInteger (sum_list ns), env') :: (_, unit) outcome)"
    using groups_in_range [of iter ks] assms(1) a
    unfolding ns by (simp add: process_multi_key_del_def iteration_ok_def collect_replied del: map_map)
  show ?thesis
  proof (cases "route_keys ks = []")
    case True
    then have "iter (route_keys ks) = []"
      using assms(1) by (simp add: iteration_ok_def) (metis mset_zero_iff)
    then have "ns = []" "env' = env"
      using len a by auto
    with True p show ?thesis
      by (simp add: execute_del_def)
  next
    case False
    have "execute_del iter SHARD_COUNT ask ks env = (Ok (Success (sum_list ns), env') :: (_, unit) outcome)"
      using False groups_in_range [of iter ks] assms(1) a aggregate_integers [OF len, of 0 "[]" "[]"]
      unfolding ns by (simp add: execute_del_def iteration_ok_def Let_def del: map_map)
    with p show ?thesis by auto
  qed
qed

theorem executors_agree_witness:
  "\<exists>m. execute_del id SHARD_COUNT (\<lambda>i c env. (Replied (RInteger 2), env)) [[107], [108]] () = (Ok (m, ()) :: (_, unit) outcome)"
proof -
  have "iteration_ok id"
    by (simp add: iteration_ok_def)
  moreover have "\<forall>x\<in>set (fst (ask_all (\<lambda>i c env. (Replied (RInteger 2), env)) gs ())). \<exists>n. x = Replied (RInteger n)" for gs
    by (induction gs) (auto simp: Let_def split_beta)
  ultimately show ?thesis
    using executors_agree [of id "\<lambda>i c env. (Replied (RInteger 2), env)" "[[107], [108]]" "()"] by auto
qed

text \<open>A client cannot inject a line break into the error reply of a
  rejected request, whatever the name of the unknown command: the debug form escapes it, given
  that \<open>char::escape_debug\<close> of characters outside ASCII produces no line break.\<close>

theorem error_replies_are_one_line:
  assumes "\<And>c. 10 \<notin> set (uc_debug u c) \<and> 13 \<notin> set (uc_debug u c)"
  shows "\<exists>msg. error_reply u e = RError msg \<and> 10 \<notin> set msg \<and> 13 \<notin> set msg"
proof -
  have hex: "b \<in> set (hex_nat n) \<Longrightarrow> b \<noteq> 10 \<and> b \<noteq> 13" for b n
  proof (induction n rule: hex_nat.induct)
    case (1 n)
    have "(word_of_nat m :: byte) \<noteq> 10 \<and> (word_of_nat m :: byte) \<noteq> 13" if "48 \<le> m" "m < 256" for m
    proof -
      have "unat (word_of_nat m :: byte) = m"
        using that(2) by (simp add: unsigned_of_nat take_bit_nat_eq_self)
      with that(1) show ?thesis by auto
    qed
    from this [of "48 + n mod 16"] this [of "87 + n mod 16"] 1 show ?case
      by (auto simp: hex_nat.simps [of n] split: if_splits)
  qed
  have byte: "10 \<notin> set (debug_byte b) \<and> 13 \<notin> set (debug_byte b)" for b
    using hex [of _ "unat b"] by (auto simp: debug_byte_def)
  have "10 \<notin> set (debug_char u c) \<and> 13 \<notin> set (debug_char u c)" for c
    using byte assms by (auto simp: debug_char_def split: list.split)
  then have "10 \<notin> set (debug_str u s) \<and> 13 \<notin> set (debug_str u s)" for s
    by (auto simp: debug_str_def)
  then have "10 \<notin> set (debug_command_error u e) \<and> 13 \<notin> set (debug_command_error u e)"
    by (cases e) auto
  then show ?thesis
    by (auto simp: error_reply_def)
qed

theorem error_replies_are_one_line_witness:
  "\<exists>msg. error_reply \<lparr>uc_upper = id, uc_debug = (\<lambda>_. [63])\<rparr> (Cmd_UnknownCommand [13, 10, 43, 79, 75, 13, 10]) =
     RError msg \<and> 10 \<notin> set msg \<and> 13 \<notin> set msg"
  by (rule error_replies_are_one_line) simp

end
