(* ===== verification/Connection.thy ===== *)
theory Connection
  imports Handler
begin

text \<open>
  The two tasks of a connection (\<open>handle_connection\<close> in \<open>frontend/handler.rs\<close>) step by step: the
  reading task with its program points, the bounded channel of responses, and the writing task
  with its socket, whose writes may fail at any byte. The loops of \<open>Handler\<close> are shown to be what
  the reading task does, and how the two tasks come to rest is derived from their steps.
\<close>

section \<open>The tasks\<close>

definition RESPONSE_CHANNEL_CAPACITY :: nat where
  "RESPONSE_CHANNEL_CAPACITY = 32"

text \<open>Where the reading task is: at the read, at the parser, at one of the two sends, at the end.\<close>

datatype reader_at =
    Reads
  | Parses
  | Sends response
  | Sends_error response
  | Joins
  | Returns conn_end

text \<open>The writing task: it awaits a response, has one to write, or has ended.\<close>

datatype writing_at = Receives | Puts response | Stopped

text \<open>
  \<open>coming\<close> is what the next reads will return; \<open>given\<close> records the responses the channel took, and
  \<open>write_failed\<close> that a write or flush failed.
\<close>

record 'env connection =
  coming :: "read_event list"
  received :: resp_parser
  world :: 'env
  reading :: reader_at
  given :: "response list"
  waiting :: "response list"
  writing :: writing_at
  socket :: bytes
  write_failed :: bool

definition connected :: "read_event list \<Rightarrow> 'env \<Rightarrow> 'env connection" where
  "connected evs env =
     \<lparr>coming = evs, received = RespParser_new, world = env, reading = Reads, given = [], waiting = [],
      writing = Receives, socket = [], write_failed = False\<rparr>"

text \<open>
  A send waits while the channel is full, and fails when the writing task, the receiver, is
  gone; for a response this leaves the inner loop, for an error reply it is ignored. The
  channel is closed only when the reading task has returned: \<open>response_tx\<close> lives until then.
\<close>

inductive connection_step :: "'env server \<Rightarrow> 'env connection \<Rightarrow> 'env connection \<Rightarrow> bool" for sv where
  read_some: "reading c = Reads \<Longrightarrow> coming c = Data bs # evs \<Longrightarrow> bs \<noteq> [] \<Longrightarrow> length bs \<le> READ_BUFFER \<Longrightarrow>
     connection_step sv c (c\<lparr>coming := evs, received := feed bs (received c), reading := Parses\<rparr>)"
| read_eof: "reading c = Reads \<Longrightarrow> coming c = Data [] # evs \<Longrightarrow>
     connection_step sv c (c\<lparr>coming := evs, reading := Joins\<rparr>)"
| read_fails: "reading c = Reads \<Longrightarrow> coming c = Read_error # evs \<Longrightarrow>
     connection_step sv c (c\<lparr>coming := evs, reading := Returns Io_error\<rparr>)"
| request_done: "reading c = Parses \<Longrightarrow> parse (value_size sv) (received c) = Ok (Some v, p) \<Longrightarrow>
     from_resp (tables sv) v = Ok cmd \<Longrightarrow>
     process_command (iteration sv) (shard_count sv) (ask_shard sv) cmd (world c) =
       (Ok (r, env) :: (_, parse_error) outcome) \<Longrightarrow>
     connection_step sv c (c\<lparr>received := p, world := env, reading := Sends r\<rparr>)"
| bad_command: "reading c = Parses \<Longrightarrow> parse (value_size sv) (received c) = Ok (Some v, p) \<Longrightarrow>
     from_resp (tables sv) v = Err e \<Longrightarrow>
     connection_step sv c (c\<lparr>received := p, reading := Sends_error (error_reply (tables sv) e)\<rparr>)"
| no_more: "reading c = Parses \<Longrightarrow> parse (value_size sv) (received c) = Ok (None, p) \<Longrightarrow>
     connection_step sv c (c\<lparr>received := compact p, reading := Reads\<rparr>)"
| bad_input: "reading c = Parses \<Longrightarrow> parse (value_size sv) (received c) = Err e \<Longrightarrow>
     connection_step sv c (c\<lparr>reading := Returns (Input_error e)\<rparr>)"
| parser_panics: "reading c = Parses \<Longrightarrow> parse (value_size sv) (received c) = Panic q \<Longrightarrow>
     connection_step sv c (c\<lparr>reading := Returns (Unwound_by q)\<rparr>)"
| request_panics: "reading c = Parses \<Longrightarrow> parse (value_size sv) (received c) = Ok (Some v, p) \<Longrightarrow>
     from_resp (tables sv) v = Ok cmd \<Longrightarrow>
     process_command (iteration sv) (shard_count sv) (ask_shard sv) cmd (world c) =
       (Panic q :: (_, parse_error) outcome) \<Longrightarrow>
     connection_step sv c (c\<lparr>received := p, reading := Returns (Unwound_by q)\<rparr>)"
| send: "reading c \<in> {Sends r, Sends_error r} \<Longrightarrow> writing c \<noteq> Stopped \<Longrightarrow>
     length (waiting c) < RESPONSE_CHANNEL_CAPACITY \<Longrightarrow>
     connection_step sv c (c\<lparr>reading := Parses, given := given c @ [r], waiting := waiting c @ [r]\<rparr>)"
| send_fails: "reading c = Sends r \<Longrightarrow> writing c = Stopped \<Longrightarrow>
     connection_step sv c (c\<lparr>received := compact (received c), reading := Reads\<rparr>)"
| error_unsent: "reading c = Sends_error r \<Longrightarrow> writing c = Stopped \<Longrightarrow>
     connection_step sv c (c\<lparr>reading := Parses\<rparr>)"
| joined: "reading c = Joins \<Longrightarrow> writing c = Stopped \<Longrightarrow>
     connection_step sv c (c\<lparr>reading := Returns Finished_ok\<rparr>)"
| receive: "writing c = Receives \<Longrightarrow> waiting c = r # rs \<Longrightarrow>
     connection_step sv c (c\<lparr>waiting := rs, writing := Puts r\<rparr>)"
| channel_closed: "writing c = Receives \<Longrightarrow> waiting c = [] \<Longrightarrow> reading c = Returns e \<Longrightarrow>
     connection_step sv c (c\<lparr>writing := Stopped\<rparr>)"
| put: "writing c = Puts r \<Longrightarrow>
     connection_step sv c (c\<lparr>writing := Receives, socket := socket c @ written [r]\<rparr>)"
| put_fails: "writing c = Puts r \<Longrightarrow> written [r] = bs @ lost \<Longrightarrow>
     connection_step sv c
       (c\<lparr>waiting := [], writing := Stopped, socket := socket c @ bs, write_failed := True\<rparr>)"

inductive_cases connection_stepE: "connection_step sv c c'"

inductive connection_reachable :: "'env server \<Rightarrow> 'env connection \<Rightarrow> 'env connection \<Rightarrow> bool" for sv c0 where
  start: "connection_reachable sv c0 c0"
| step: "connection_reachable sv c0 c \<Longrightarrow> connection_step sv c c' \<Longrightarrow> connection_reachable sv c0 c'"

section \<open>Every run ends\<close>

text \<open>
  What is left to read and parse, then what is left to write: an iteration of the inner loop
  parses at least one byte, and every response is written once.
\<close>

definition unparsed :: "'env connection \<Rightarrow> nat" where
  "unparsed c = length (buffer (received c)) - cursor (received c)"

fun reader_rank :: "reader_at \<Rightarrow> nat \<Rightarrow> nat" where
  "reader_rank Parses n = 2 * n + 1"
| "reader_rank (Sends r) n = 2 * n + 2"
| "reader_rank (Sends_error r) n = 2 * n + 2"
| "reader_rank Joins n = 1"
| "reader_rank _ n = 0"

fun writer_rank :: "writing_at \<Rightarrow> nat" where
  "writer_rank Receives = 1"
| "writer_rank (Puts r) = 2"
| "writer_rank Stopped = 0"

definition reading_work :: "'env connection \<Rightarrow> nat" where
  "reading_work c = reader_rank (reading c) (unparsed c)"

definition writing_work :: "'env connection \<Rightarrow> nat" where
  "writing_work c = 2 * length (waiting c) + writer_rank (writing c)"

lemma connection_work:
  "connection_step sv c c' \<Longrightarrow>
   (c', c) \<in> measures [\<lambda>c. length (coming c), reading_work, writing_work]"
proof (induction rule: connection_step.induct)
  case (request_done c v p cmd r env)
  with parse_progress [OF request_done.hyps(2)] show ?case
    by (simp add: reading_work_def unparsed_def)
next
  case (bad_command c v p e)
  with parse_progress [OF bad_command.hyps(2)] show ?case
    by (simp add: reading_work_def unparsed_def)
qed (auto simp: reading_work_def writing_work_def unparsed_def)

lemma connection_wf: "wfp (\<lambda>c' c. connection_step sv c c')"
  unfolding wfp_def by (rule wf_subset [OF wf_measures]) (auto dest: connection_work)

section \<open>What the states have in common\<close>

text \<open>What the writing task has not yet written of the responses it was given.\<close>

definition unwritten :: "'env connection \<Rightarrow> response list" where
  "unwritten c = (case writing c of Puts r \<Rightarrow> [r] | _ \<Rightarrow> []) @ waiting c"

definition tasks_inv :: "'env connection \<Rightarrow> bool" where
  "tasks_inv c \<longleftrightarrow>
     (write_failed c \<longrightarrow> writing c = Stopped) \<and>
     (writing c = Stopped \<and> \<not> write_failed c \<longrightarrow> waiting c = [] \<and> (\<exists>e. reading c = Returns e)) \<and>
     (\<forall>bs. Data bs \<in> set (coming c) \<longrightarrow> length bs \<le> READ_BUFFER) \<and>
     (\<not> write_failed c \<longrightarrow> (\<exists>rs. given c = rs @ unwritten c \<and> socket c = written rs)) \<and>
     (reading c = Returns Finished_ok \<longrightarrow> write_failed c) \<and>
     reading c \<notin> {Returns Reading, Returns Awaits_writer}"

lemma written_append [simp]: "written (xs @ ys) = written xs @ written ys"
  by (simp add: written_def)

lemma written_Nil [simp]: "written [] = []"
  by (simp add: written_def)

lemma tasks_inv_step: "connection_step sv c c' \<Longrightarrow> tasks_inv c \<Longrightarrow> tasks_inv c'"
proof (induction rule: connection_step.induct)
  case (put c r)
  then obtain rs where "given c = rs @ r # waiting c" "socket c = written rs" "\<not> write_failed c"
    by (auto simp: tasks_inv_def unwritten_def)
  then have "\<exists>rs. given c = rs @ waiting c \<and> socket c @ written [r] = written rs"
    by (intro exI [of _ "rs @ [r]"]) simp
  with put show ?case
    by (auto simp: tasks_inv_def unwritten_def)
qed (auto simp: tasks_inv_def unwritten_def split: writing_at.splits)

lemma tasks_inv_connected:
  "\<forall>bs. Data bs \<in> set evs \<longrightarrow> length bs \<le> READ_BUFFER \<Longrightarrow> tasks_inv (connected evs env)"
  by (simp add: tasks_inv_def connected_def unwritten_def)

lemma tasks_inv_reachable: "connection_reachable sv c0 c \<Longrightarrow> tasks_inv c0 \<Longrightarrow> tasks_inv c"
  by (induction rule: connection_reachable.induct) (auto intro: tasks_inv_step)

section \<open>The reading task and the loops\<close>

text \<open>The outer loop after the inner one, and what the loops make of a state.\<close>

fun outer_loop ::
    "'env server \<Rightarrow> read_event list \<Rightarrow> loop_end \<times> resp_parser \<times> 'env \<times> response list \<Rightarrow>
     conn_end \<times> 'env \<times> response list" where
  "outer_loop sv evs (Bad_input e, p, env, sent) = (Input_error e, env, sent)"
| "outer_loop sv evs (Unwinds q, p, env, sent) = (Unwound_by q, env, sent)"
| "outer_loop sv evs (_, p, env, sent) = read_loop sv evs (compact p) env sent"

lemma read_loop_Data:
  "bs \<noteq> [] \<Longrightarrow> read_loop sv (Data bs # evs) p env sent = outer_loop sv evs (parse_loop sv (feed bs p) env sent)"
  by (cases "parse_loop sv (feed bs p) env sent"; cases "fst (parse_loop sv (feed bs p) env sent)") auto

fun loops_from :: "'env server \<Rightarrow> 'env connection \<Rightarrow> reader_at \<Rightarrow> conn_end \<times> 'env \<times> response list" where
  "loops_from sv c Reads = read_loop sv (coming c) (received c) (world c) (given c)"
| "loops_from sv c Parses = outer_loop sv (coming c) (parse_loop sv (received c) (world c) (given c))"
| "loops_from sv c (Sends r) =
     (if tx_ok sv (given c)
      then outer_loop sv (coming c) (parse_loop sv (received c) (world c) (given c @ [r]))
      else read_loop sv (coming c) (compact (received c)) (world c) (given c))"
| "loops_from sv c (Sends_error r) =
     outer_loop sv (coming c) (parse_loop sv (received c) (world c)
       (if tx_ok sv (given c) then given c @ [r] else given c))"
| "loops_from sv c Joins = (if tx_ok sv (given c) then Awaits_writer else Finished_ok, world c, given c)"
| "loops_from sv c (Returns e) = (e, world c, given c)"

text \<open>When a function fits the sends that succeeded and failed on the way to a state.\<close>

definition sends_fit :: "(response list \<Rightarrow> bool) \<Rightarrow> 'env connection \<Rightarrow> bool" where
  "sends_fit tx c \<longleftrightarrow>
     (\<forall>n<length (given c). tx (take n (given c))) \<and> (write_failed c \<longrightarrow> \<not> tx (given c))"

lemma sends_fit_before:
  "connection_step sv c c' \<Longrightarrow> tasks_inv c \<Longrightarrow> sends_fit tx c' \<Longrightarrow> sends_fit tx c"
  by (induction rule: connection_step.induct) (auto simp: sends_fit_def tasks_inv_def less_Suc_eq)

lemma stopped_fails:
  "tasks_inv c \<Longrightarrow> sends_fit tx c \<Longrightarrow> writing c = Stopped \<Longrightarrow> (\<And>e. reading c \<noteq> Returns e) \<Longrightarrow> \<not> tx (given c)"
  by (auto simp: tasks_inv_def sends_fit_def)

lemma loops_same:
  "coming c' = coming c \<Longrightarrow> received c' = received c \<Longrightarrow> world c' = world c \<Longrightarrow> given c' = given c \<Longrightarrow>
   reading c' = reading c \<Longrightarrow> loops_from sv c (reading c) = loops_from sv c' (reading c')"
  by (cases "reading c") simp_all

text \<open>One iteration of the inner loop.\<close>

lemma loops_parse:
  "loops_from sv c Parses = outer_loop sv (coming c)
     (case parse (value_size sv) (received c) of
        Ok (None, p) \<Rightarrow> (Waits, p, world c, given c)
      | Ok (Some v, p) \<Rightarrow>
          (case from_resp (tables sv) v of
             Ok cmd \<Rightarrow>
               (case process_command (iteration sv) (shard_count sv) (ask_shard sv) cmd (world c) of
                  Ok (r, env) \<Rightarrow>
                    if tx_ok sv (given c) then parse_loop sv p env (given c @ [r])
                    else (Send_failed, p, env, given c)
                | Err e \<Rightarrow> (Bad_input e, p, world c, given c)
                | Panic q \<Rightarrow> (Unwinds q, p, world c, given c))
           | Err e \<Rightarrow>
               parse_loop sv p (world c)
                 (if tx_ok sv (given c) then given c @ [error_reply (tables sv) e] else given c)
           | Panic q \<Rightarrow> (Unwinds q, p, world c, given c))
      | Err e \<Rightarrow> (Bad_input e, received c, world c, given c)
      | Panic q \<Rightarrow> (Unwinds q, received c, world c, given c))"
  by (simp only: loops_from.simps parse_loop.simps [of sv "received c"])

lemma loops_step:
  assumes "connection_step sv c c'" and "tasks_inv c" and "sends_fit tx c'"
  shows "loops_from (sv\<lparr>tx_ok := tx\<rparr>) c (reading c) = loops_from (sv\<lparr>tx_ok := tx\<rparr>) c' (reading c')"
  using assms sends_fit_before [OF assms]
proof (induction rule: connection_step.induct)
  case (read_some c bs evs)
  then show ?case by (simp add: read_loop_Data del: read_loop.simps)
next
  case (send c r)
  then have "tx (given c)"
    by (auto simp: sends_fit_def less_Suc_eq)
  with send show ?case by auto
next
  case (send_fails c r)
  with stopped_fails [of c tx] show ?case by simp
next
  case (error_unsent c r)
  with stopped_fails [of c tx] show ?case by simp
next
  case (joined c)
  with stopped_fails [of c tx] show ?case by simp
next
  case (receive c r rs)
  show ?case by (rule loops_same) simp_all
next
  case (put c r)
  show ?case by (rule loops_same) simp_all
next
  case (put_fails c r bs lost)
  show ?case by (rule loops_same) simp_all
qed (simp_all add: loops_parse del: loops_from.simps(2))

lemma loops_reachable:
  "connection_reachable sv c0 c \<Longrightarrow> tasks_inv c0 \<Longrightarrow> sends_fit tx c \<Longrightarrow>
   loops_from (sv\<lparr>tx_ok := tx\<rparr>) c0 (reading c0) = loops_from (sv\<lparr>tx_ok := tx\<rparr>) c (reading c)"
proof (induction rule: connection_reachable.induct)
  case (step c c')
  note inv = tasks_inv_reachable [OF step.hyps(1) step.prems(1)]
  show ?case
    using step.IH [OF step.prems(1) sends_fit_before [OF step.hyps(2) inv step.prems(2)]]
      loops_step [OF step.hyps(2) inv step.prems(2)] by (rule trans)
qed simp

section \<open>Rest\<close>

lemma process_command_not_Err: "process_command iter n ask c env \<noteq> Err e"
  by (cases c) (auto simp: process_multi_key_del_def Let_def split: prod.split)

definition quiet_step :: "'env server \<Rightarrow> 'env connection \<Rightarrow> bool" where
  "quiet_step sv c \<longleftrightarrow> (\<exists>c'. connection_step sv c c' \<and> write_failed c' = write_failed c)"

lemma quietI: "connection_step sv c c' \<Longrightarrow> write_failed c' = write_failed c \<Longrightarrow> quiet_step sv c"
  by (auto simp: quiet_step_def)

lemma parses_step:
  assumes at: "reading c = Parses"
  shows "quiet_step sv c"
proof (cases "parse (value_size sv) (received c)")
  case (Ok vp)
  obtain v p where vp: "vp = (v, p)" by fastforce
  show ?thesis
  proof (cases v)
    case None
    from connection_step.no_more [OF at Ok [unfolded vp None]] show ?thesis by (rule quietI) simp
  next
    case (Some w)
    note parsed = Ok [unfolded vp Some]
    show ?thesis
    proof (cases "from_resp (tables sv) w")
      case cmd: (Ok cmd)
      show ?thesis
      proof (cases "process_command (iteration sv) (shard_count sv) (ask_shard sv) cmd (world c) :: (_, parse_error) outcome")
        case (Ok a)
        obtain r env where "a = (r, env)" by fastforce
        from connection_step.request_done [OF at parsed cmd Ok [unfolded this]] show ?thesis by (rule quietI) simp
      next
        case (Panic q)
        from connection_step.request_panics [OF at parsed cmd this] show ?thesis by (rule quietI) simp
      qed (simp add: process_command_not_Err)
    next
      case (Err e)
      from connection_step.bad_command [OF at parsed this] show ?thesis by (rule quietI) simp
    qed (simp add: from_resp_no_panic)
  qed
next
  case (Err e)
  from connection_step.bad_input [OF at this] show ?thesis by (rule quietI) simp
next
  case (Panic q)
  from connection_step.parser_panics [OF at this] show ?thesis by (rule quietI) simp
qed

lemma reads_step:
  assumes at: "reading c = Reads" and "coming c \<noteq> []" and "tasks_inv c"
  shows "quiet_step sv c"
proof -
  obtain ev evs where evs: "coming c = ev # evs"
    using assms(2) by (cases "coming c") auto
  consider "ev = Read_error" | "ev = Data []" | bs where "ev = Data bs" "bs \<noteq> []"
    by (cases ev) auto
  then show ?thesis
  proof cases
    case 1
    from connection_step.read_fails [OF at evs [unfolded 1]] show ?thesis by (rule quietI) simp
  next
    case 2
    from connection_step.read_eof [OF at evs [unfolded 2]] show ?thesis by (rule quietI) simp
  next
    case 3
    then have "length bs \<le> READ_BUFFER"
      using assms(3) evs by (simp add: tasks_inv_def)
    from connection_step.read_some [OF at evs [unfolded 3] 3(2) this] show ?thesis by (rule quietI) simp
  qed
qed

lemma sends_step:
  assumes "reading c \<in> {Sends r, Sends_error r}" and "writing c \<noteq> Stopped" and "waiting c = []"
  shows "quiet_step sv c"
proof -
  have "length (waiting c) < RESPONSE_CHANNEL_CAPACITY"
    using assms(3) by (simp add: RESPONSE_CHANNEL_CAPACITY_def)
  from connection_step.send [OF assms(1,2) this] show ?thesis by (rule quietI) simp
qed

text \<open>In every state but those at rest there is a step in which no write fails.\<close>

definition at_rest :: "'env connection \<Rightarrow> bool" where
  "at_rest c \<longleftrightarrow>
     (writing c = Stopped \<or> writing c = Receives \<and> waiting c = [] \<and> (\<forall>e. reading c \<noteq> Returns e)) \<and>
     (reading c = Reads \<and> coming c = [] \<or> reading c = Joins \<and> writing c = Receives \<or>
      (\<exists>e. reading c = Returns e))"

lemma rest_or_step:
  assumes inv: "tasks_inv c"
  shows "at_rest c \<or> quiet_step sv c"
proof (cases "writing c")
  case (Puts r)
  from connection_step.put [OF this] have "quiet_step sv c" by (rule quietI) simp
  then show ?thesis ..
next
  case Receives
  show ?thesis
  proof (cases "waiting c")
    case (Cons r rs)
    from connection_step.receive [OF Receives this] have "quiet_step sv c" by (rule quietI) simp
    then show ?thesis ..
  next
    case Nil
    show ?thesis
    proof (cases "reading c")
      case (Returns e)
      from connection_step.channel_closed [OF Receives Nil this] have "quiet_step sv c" by (rule quietI) simp
      then show ?thesis ..
    qed (use Receives Nil reads_step [OF _ _ inv] parses_step sends_step [of c] in \<open>auto simp: at_rest_def\<close>)
  qed
next
  case Stopped
  show ?thesis
  proof (cases "reading c")
    case (Sends r)
    from connection_step.send_fails [OF this Stopped] have "quiet_step sv c" by (rule quietI) simp
    then show ?thesis ..
  next
    case (Sends_error r)
    from connection_step.error_unsent [OF this Stopped] have "quiet_step sv c" by (rule quietI) simp
    then show ?thesis ..
  next
    case Joins
    from connection_step.joined [OF this Stopped] have "quiet_step sv c" by (rule quietI) simp
    then show ?thesis ..
  qed (use Stopped reads_step [OF _ _ inv] parses_step in \<open>auto simp: at_rest_def\<close>)
qed

lemma rest_no_step: "at_rest c \<Longrightarrow> \<not> connection_step sv c c'"
  by (auto simp: at_rest_def elim!: connection_stepE)

text \<open>From every state the tasks can come to rest without a further failure.\<close>

lemma rest_reachable:
  "tasks_inv c \<Longrightarrow> \<exists>z. connection_reachable sv c z \<and> at_rest z \<and> write_failed z = write_failed c"
proof (induction c rule: wfp_induct_rule [OF connection_wf [of sv]])
  case (1 c)
  show ?case
  proof (cases "at_rest c")
    case True
    then show ?thesis by (blast intro: connection_reachable.start)
  next
    case False
    then obtain c' where c': "connection_step sv c c'" "write_failed c' = write_failed c"
      using rest_or_step [OF 1(2), of sv] by (auto simp: quiet_step_def)
    then obtain z where z: "connection_reachable sv c' z" "at_rest z" "write_failed z = write_failed c"
      using 1(1) tasks_inv_step [OF c'(1) 1(2)] by metis
    from z(1) have "connection_reachable sv c z"
      by (induction rule: connection_reachable.induct) (auto intro: connection_reachable.intros c'(1))
    with z show ?thesis by blast
  qed
qed

lemma rest_socket:
  assumes "tasks_inv z" and "at_rest z" and "\<not> write_failed z"
  shows "socket z = written (given z)"
proof -
  have "unwritten z = []"
    using assms by (auto simp: unwritten_def at_rest_def tasks_inv_def)
  with assms(1,3) show ?thesis
    by (auto simp: tasks_inv_def)
qed

lemma clean_reads_small: "clean_reads sz r reads \<Longrightarrow> rd \<in> set reads \<Longrightarrow> length (fst rd) \<le> READ_BUFFER"
  by (induction sz r reads rule: clean_reads.induct) (auto simp: Let_def)

lemma serve_all_tx: "serve_all (sv\<lparr>tx_ok := tx\<rparr>) vs env = serve_all sv vs env"
proof (induction vs arbitrary: env)
  case (Cons v vs)
  have "serve (sv\<lparr>tx_ok := tx\<rparr>) v env = serve sv v env"
    by (cases "from_resp (tables sv) v") (simp_all add: serve_def)
  with Cons show ?case by simp
qed simp

text \<open>What the loops say of a connection at rest.\<close>

lemma rest_loops:
  assumes "connection_reachable sv (connected evs env) z" and "at_rest z"
    and small: "\<forall>bs. Data bs \<in> set evs \<longrightarrow> length bs \<le> READ_BUFFER"
  shows "\<exists>tx e. handle_connection (sv\<lparr>tx_ok := tx\<rparr>) evs env = (e, world z, given z) \<and>
     (e = Reading \<and> reading z = Reads \<and> coming z = [] \<or>
      e = Awaits_writer \<and> reading z = Joins \<and> writing z = Receives \<and> waiting z = [] \<or>
      reading z = Returns e \<and> writing z = Stopped \<and> e \<notin> {Reading, Awaits_writer}) \<and>
     (\<not> write_failed z \<longrightarrow> tx = (\<lambda>_. True))"
proof -
  define tx :: "response list \<Rightarrow> bool" where
    "tx = (if write_failed z then \<lambda>rs. length rs < length (given z) else (\<lambda>_. True))"
  have inv: "tasks_inv z"
    using tasks_inv_reachable [OF assms(1) tasks_inv_connected [OF small]] .
  have "sends_fit tx z"
    by (simp add: sends_fit_def tx_def)
  from loops_reachable [OF assms(1) tasks_inv_connected [OF small] this]
  have loops: "handle_connection (sv\<lparr>tx_ok := tx\<rparr>) evs env = loops_from (sv\<lparr>tx_ok := tx\<rparr>) z (reading z)"
    by (simp add: connected_def handle_connection_def del: read_loop.simps)
  have "tx (given z)" if "reading z = Joins"
    using that assms(2) inv by (auto simp: at_rest_def tasks_inv_def tx_def)
  with loops assms(2) inv show ?thesis
    by (intro exI [of _ tx]) (auto simp: at_rest_def tasks_inv_def tx_def)
qed

section \<open>Properties\<close>

text \<open>C25 (connection_tasks_refine_the_loop). Whatever is read, however the two tasks interleave and
  wherever a write fails, every run ends, and what the reading task has then done is what the
  loop of \<open>handle_connection\<close> says for some choice of the sends that fail (for none, when no
  write failed): the same end, state of the shards and responses, and without a failed write
  these responses are the bytes on the socket. At the end of the stream both tasks then wait
  for each other for ever; the task returns \<open>Ok\<close> only after a write has failed.\<close>

theorem connection_tasks_refine_the_loop:
  assumes "\<forall>bs. Data bs \<in> set evs \<longrightarrow> length bs \<le> READ_BUFFER"
    and "connection_reachable sv (connected evs env) z" and "\<nexists>c'. connection_step sv z c'"
  shows "wfp (\<lambda>c' c. connection_step sv c c') \<and>
     (\<exists>tx e. handle_connection (sv\<lparr>tx_ok := tx\<rparr>) evs env = (e, world z, given z) \<and>
        (e = Reading \<and> reading z = Reads \<and> coming z = [] \<or>
         e = Awaits_writer \<and> reading z = Joins \<and> writing z = Receives \<and> waiting z = [] \<or>
         reading z = Returns e \<and> writing z = Stopped \<and> e \<notin> {Reading, Awaits_writer}) \<and>
        (e = Finished_ok \<longrightarrow> write_failed z) \<and>
        (\<not> write_failed z \<longrightarrow> tx = (\<lambda>_. True) \<and> socket z = written (given z)))"
proof -
  have inv: "tasks_inv z"
    using tasks_inv_reachable [OF assms(2) tasks_inv_connected [OF assms(1)]] .
  then have rest: "at_rest z"
    using rest_or_step [of z sv] assms(3) by (auto simp: quiet_step_def)
  have "reading z = Returns Finished_ok \<longrightarrow> write_failed z"
    using inv by (simp add: tasks_inv_def)
  with rest_loops [OF assms(2) rest assms(1)] rest_socket [OF inv rest] connection_wf [of sv] show ?thesis
    by blast
qed

text \<open>C6 (pipelined_requests_answered_in_order). A client sends any request values, valid commands or
  not, in reads that each hold at most what the buffer does and whose cuts leave nothing or a
  beginning the parser waits for, and then closes its side. However the connection's tasks
  interleave, they come to rest, and unless a write fails the socket then holds one reply per
  request, in order, an error reply for an invalid command; the reading task is at the wait
  for the writing task, which waits for a response: neither ever ends. Such an end is
  reached.\<close>

theorem pipelined_requests_answered_in_order:
  assumes "server_ok sv" and "clean_reads (value_size sv) [] reads"
  shows "\<exists>rs env'. serve_all sv (concat (map snd reads)) env = Ok (rs, env') \<and>
     length rs = length (concat (map snd reads)) \<and>
     wfp (\<lambda>c' c. connection_step sv c c') \<and>
     (\<exists>z. connection_reachable sv (connected (map (\<lambda>r. Data (fst r)) reads @ [Data []]) env) z \<and>
        (\<nexists>c'. connection_step sv z c') \<and> \<not> write_failed z) \<and>
     (\<forall>z. connection_reachable sv (connected (map (\<lambda>r. Data (fst r)) reads @ [Data []]) env) z \<and>
        (\<nexists>c'. connection_step sv z c') \<and> \<not> write_failed z \<longrightarrow>
        socket z = written rs \<and> world z = env' \<and>
        reading z = Joins \<and> writing z = Receives \<and> waiting z = [])"
proof -
  let ?evs = "map (\<lambda>r. Data (fst r)) reads @ [Data []]"
  obtain rs env' where s: "serve_all sv (concat (map snd reads)) env = Ok (rs, env')"
      "length rs = length (concat (map snd reads))"
    using serve_all_Ok [OF assms(1)] by blast
  have small: "\<forall>bs. Data bs \<in> set ?evs \<longrightarrow> length bs \<le> READ_BUFFER"
    using clean_reads_small [OF assms(2)] by auto
  let ?sv = "sv\<lparr>tx_ok := \<lambda>_. True\<rparr>"
  have "server_ok ?sv" "serve_all ?sv (concat (map snd reads)) env = Ok (rs, env')"
    using assms(1) s(1) by (simp_all add: server_ok_def serve_all_tx)
  from read_loop_requests [OF this(1) _ parser_inv_new _ this(2), of "[]"] assms(2)
  have loops: "handle_connection ?sv ?evs env = (Awaits_writer, env', rs)"
    by (simp add: handle_connection_def)
  have "socket z = written rs \<and> world z = env' \<and> reading z = Joins \<and> writing z = Receives \<and> waiting z = []"
    if z: "connection_reachable sv (connected ?evs env) z" "\<nexists>c'. connection_step sv z c'" "\<not> write_failed z" for z
  proof -
    have inv: "tasks_inv z"
      using tasks_inv_reachable [OF z(1) tasks_inv_connected [OF small]] .
    then have rest: "at_rest z"
      using rest_or_step [of z sv] z(2) by (auto simp: quiet_step_def)
    then show ?thesis
      using rest_loops [OF z(1) rest small] rest_socket [OF inv rest z(3)] z(3) loops inv
      by (auto simp: tasks_inv_def)
  qed
  moreover obtain z where "connection_reachable sv (connected ?evs env) z" "at_rest z" "\<not> write_failed z"
    using rest_reachable [OF tasks_inv_connected [OF small], of sv env] by (auto simp: connected_def)
  ultimately show ?thesis
    using s connection_wf [of sv] rest_no_step by (intro exI [of _ rs] exI [of _ env'] conjI) blast+
qed

text \<open>
  \<open>PING\<close>, a number, which is no command, and \<open>GET k\<close>, cut behind the \<open>k\<close>; every shard answers \<open>OK\<close>.
\<close>

definition demo_server :: "unit server" where
  "demo_server = \<lparr>value_size = 32, tables = identity_unicode, iteration = id, shard_count = 64,
     ask_shard = (\<lambda>i c env. (Replied ROk, env)), tx_ok = (\<lambda>_. True)\<rparr>"

definition demo_cut :: bytes where
  "demo_cut = 42 # dec_int 2 @ crlf @ serialize_resp2 (BulkString (Some (ascii ''GET''))) @ 36 # dec_int 1 @ crlf @ [107]"

definition demo_reads :: "(bytes \<times> resp_value list) list" where
  "demo_reads =
     [(serialize_resp2 (request (Ping None)) @ serialize_resp2 (Integer 1) @ demo_cut,
       [request (Ping None), Integer 1]),
      (crlf, [request (Get [107])])]"

lemma demo_cut_waits: "rest_waits 32 demo_cut"
  by (simp add: rest_waits_def demo_cut_def parse_value_Cons parse_array.simps read_i64_line_dec in_i64_def
      isize_max_def parse_elements.simps [of _ 2] parse_elements.simps [of _ "Suc 0"]  parse_serialized
      parse_bulk_string_def read_exact_or_incomplete_def Let_def MAX_VALUE_SIZE_def)

lemma demo_reads_clean: "clean_reads (value_size demo_server) [] demo_reads"
proof -
  note digits = dec_int_def dec_nat.simps [of "Suc 0"] dec_nat.simps [of 2] dec_nat.simps [of 3] dec_nat.simps [of 4]
  have whole: "demo_cut @ crlf = serialize_resp2 (request (Get [107]))"
    by (simp add: demo_cut_def request_def bulk_def wire_simps digits)
  have "length (serialize_resp2 (request (Ping None)) @ serialize_resp2 (Integer 1) @ demo_cut) \<le> READ_BUFFER"
    by (simp add: READ_BUFFER_def demo_cut_def request_def bulk_def wire_simps digits)
  then have "clean_reads 32 [] demo_reads"
    unfolding demo_reads_def clean_reads_Cons
    using demo_cut_waits whole serialize_resp2_nonempty [of "Integer 1"]
    by (simp add: request_def bulk_def in_i64_def isize_max_def MAX_VALUE_SIZE_def READ_BUFFER_def rest_waits_def)
  then show ?thesis
    by (simp add: demo_server_def)
qed

lemma demo_served:
  "serve_all demo_server (concat (map snd demo_reads)) () =
     Ok ([ROk, error_reply identity_unicode Cmd_InvalidFormat, ROk], ())"
proof -
  have "from_resp identity_unicode (request (Ping None)) = Ok (Ping None)"
    "from_resp identity_unicode (request (Get [107])) = Ok (Get [107])"
    "from_resp identity_unicode (Integer 1) = Err Cmd_InvalidFormat"
    by code_simp+
  moreover have "as_usize (route_key [107]) < 64"
    using route_less [of "[107]"] by (simp add: SHARD_COUNT_def)
  ultimately show ?thesis
    by (simp add: demo_reads_def serve_def demo_server_def send_to_shard_def as_usize_def)
qed

theorem pipelined_requests_answered_in_order_witness:
  "\<exists>z. connection_reachable demo_server (connected (map (\<lambda>r. Data (fst r)) demo_reads @ [Data []]) ()) z \<and>
     \<not> write_failed z \<and> reading z = Joins \<and> writing z = Receives \<and>
     socket z = written [ROk, error_reply identity_unicode Cmd_InvalidFormat, ROk]"
proof -
  have "server_ok demo_server"
    by (simp add: demo_server_def server_ok_def SHARD_COUNT_def)
  from pipelined_requests_answered_in_order [OF this demo_reads_clean, of "()"] demo_served show ?thesis
    by auto
qed

text \<open>The beginning of a request and then the end of the stream.\<close>

theorem connection_tasks_refine_the_loop_witness:
  "\<exists>z. connection_reachable demo_server (connected [Data demo_cut, Data []] ()) z \<and>
     handle_connection (demo_server\<lparr>tx_ok := \<lambda>_. True\<rparr>) [Data demo_cut, Data []] () = (Awaits_writer, (), []) \<and>
     reading z = Joins \<and> given z = [] \<and> socket z = []"
proof -
  have small: "\<forall>bs. Data bs \<in> set [Data demo_cut, Data []] \<longrightarrow> length bs \<le> READ_BUFFER"
    using clean_reads_small [OF demo_reads_clean, of "hd demo_reads"] by (simp add: demo_reads_def)
  obtain z where z: "connection_reachable demo_server (connected [Data demo_cut, Data []] ()) z" "at_rest z" "\<not> write_failed z"
    using rest_reachable [OF tasks_inv_connected [OF small], of demo_server "()"] by (auto simp: connected_def)
  have "parse 32 (feed demo_cut RespParser_new) = Ok (None, feed demo_cut RespParser_new)"
    using demo_cut_waits by (simp add: parse_rest)
  then have loops: "handle_connection (demo_server\<lparr>tx_ok := \<lambda>_. True\<rparr>) [Data demo_cut, Data []] () = (Awaits_writer, (), [])"
    by (simp add: handle_connection_def parse_loop.simps demo_server_def)
  have "\<nexists>c'. connection_step demo_server z c'"
    using rest_no_step [OF z(2)] by blast
  from connection_tasks_refine_the_loop [OF small z(1) this] z(3) loops show ?thesis
    using z(1) by (intro exI [of _ z]) auto
qed

end
