(* ===== verification/Replies.thy ===== *)
theory Replies
  imports Handler Resp_Codec Worker
begin

text \<open>
  From a shard to the client: every response a shard in a good state gives can be sent, and
  the client reads from the socket exactly the replies, in order.
\<close>

section \<open>Sizes of printed numbers\<close>

lemma length_dec_nat: "n < 10 ^ k \<Longrightarrow> 0 < k \<Longrightarrow> length (dec_nat n) \<le> k"
proof (induction k arbitrary: n)
  case (Suc k)
  show ?case
  proof (cases "n < 10")
    case True
    then show ?thesis by (simp add: dec_nat.simps [of n])
  next
    case False
    with Suc.prems have "0 < k"
      by (cases k) auto
    moreover have "n div 10 < 10 ^ k"
      using Suc.prems(1) by (simp add: less_mult_imp_div_less mult.commute)
    ultimately show ?thesis
      using Suc.IH False by (simp add: dec_nat.simps [of n])
  qed
qed simp

lemma length_info_line: "n < 2 ^ 64 \<Longrightarrow> length (info_line name n) \<le> length name + 23"
proof -
  assume "n < 2 ^ 64"
  then have "n < 10 ^ 20" by simp
  then have "length (dec_nat n) \<le> 20"
    by (rule length_dec_nat) simp
  then show ?thesis
    by (simp add: info_line_def ascii_def)
qed

lemma length_ascii: "length (ascii s) = length s"
  by (simp add: ascii_def)

section \<open>What a shard answers can be sent\<close>

text \<open>
  A message is at most as long as the parser lets in, and the keys of a \<open>DEL\<close> are in memory.
\<close>

fun held :: "command \<Rightarrow> bool" where
  "held (Ping (Some m)) = (length m \<le> MAX_VALUE_SIZE)"
| "held (Del ks) = (length ks \<le> isize_max)"
| "held _ = True"

definition sendable :: "nat \<Rightarrow> response \<Rightarrow> bool" where
  "sendable sz r = wire_ok sz (response_to_resp r)"

lemma sendable_simps [simp]:
  "sendable sz ROk" "sendable sz (RValue None)" "sendable sz (RInteger n) = in_i64 n"
  "sendable sz (RValue (Some (String bs))) = (length bs \<le> MAX_VALUE_SIZE)"
  "sendable sz (RError e) = line_ok e"
  by (simp_all add: sendable_def line_ok_def)

lemma in_i64_as_i64: "in_i64 (as_i64 n)"
  using sint_greater_eq [of "word_of_nat n :: u64"] sint_less [of "word_of_nat n :: u64"]
  by (simp add: in_i64_def as_i64_def)

lemma shard_messages:
  "line_ok (ascii ''ERR key too large'')" "line_ok (ascii ''ERR value too large'')"
  "line_ok (ascii ''ERR shard full'')" "line_ok oom_message" "line_ok (ascii ''ERR unknown section'')"
  by (simp_all add: line_ok_def oom_message_def)

lemma sendable_set:
  "cmd_set b t t' k v ttl s = Ok (r, s') \<Longrightarrow> sendable sz r"
  using shard_messages
  by (auto simp: cmd_set_def and_then_Ok_iff Let_def split: if_splits option.splits simp del: ascii_Cons)

lemma sendable_stored:
  "shard_ok b s \<Longrightarrow> hm_get (data s) k = Some e \<Longrightarrow> sendable sz (RValue (Some (entry_value e)))"
  by (cases "entry_value e") (force simp: shard_ok_def keys_ok_def)

lemma sendable_get: "shard_ok b s \<Longrightarrow> cmd_get b t k s = Ok (r, s') \<Longrightarrow> sendable sz r"
  by (auto simp: cmd_get_def sendable_stored split: if_splits option.splits)

lemma del_loop_count:
  "n \<le> fst (del_loop b ks n s) \<and> fst (del_loop b ks n s) \<le> n + int (length ks)"
proof (induction ks arbitrary: n s)
  case (Cons k ks)
  obtain removed s' where "remove_key_update_metrics b k s = (removed, s')"
    by fastforce
  with Cons [of "n + 1" s'] Cons [of n s'] show ?case
    by simp
qed simp

lemma sendable_del: "length ks \<le> isize_max \<Longrightarrow> cmd_del b ks s = Ok (r, s') \<Longrightarrow> sendable sz r"
  using del_loop_count [of 0 b ks s]
  by (auto simp: cmd_del_def in_i64_def isize_max_def split: prod.splits)

lemma sendable_ttl: "cmd_ttl b t k s = Ok (r, s') \<Longrightarrow> sendable sz r"
  by (auto simp: cmd_ttl_def in_i64_as_i64 in_i64_def [of "- 1"] in_i64_def [of "- 2"]
      split: if_splits option.splits)

lemma sendable_expire: "cmd_expire t k n s = Ok (r, s') \<Longrightarrow> sendable sz r"
  by (auto simp: cmd_expire_def and_then_Ok_iff in_i64_def split: option.splits)

lemma sendable_info:
  assumes "t < instant_limit"
  shows "sendable sz (cmd_info t section s)"
proof -
  have "as_usize (sid s) < 2 ^ 64"
  proof -
    have "unat (shard_index (sid s)) < 2 ^ 16"
      using unsigned_less [of "shard_index (sid s)"] by simp
    then show ?thesis
      by (simp add: as_usize_def)
  qed
  moreover have "uptime_seconds t (metrics s) < 2 ^ 64"
  proof -
    have "uptime_seconds t (metrics s) \<le> t div nanos"
      by (simp add: uptime_seconds_def duration_since_def as_secs_def div_le_mono)
    also have "\<dots> < 2 ^ 63"
      using assms by (simp add: instant_limit_def less_mult_imp_div_less)
    finally show ?thesis by simp
  qed
  ultimately have "length (info_line ''shard_id'' (as_usize (sid s))) \<le> 31"
      "length (info_line ''uptime_seconds'' (uptime_seconds t (metrics s))) \<le> 37"
    using length_info_line [of "as_usize (sid s)" "''shard_id''"]
      length_info_line [of "uptime_seconds t (metrics s)" "''uptime_seconds''"] by simp_all
  moreover have "length (info_line name (unat w)) \<le> length name + 23" for name and w :: u64
    by (rule length_info_line [OF unat_less_64])
  note this [of "''total_commands_processed''" "commands_processed (metrics s)"]
    this [of "''keys_expired''" "keys_expired (metrics s)"] this [of "''used_memory''" "memory_bytes (metrics s)"]
    this [of "''key_count''" "key_count (metrics s)"]
  ultimately show ?thesis
    using shard_messages(5) by (simp add: cmd_info_def MAX_VALUE_SIZE_def length_ascii del: ascii_Cons)
qed

lemma sendable_execute:
  assumes "shard_ok b s" and "held c" and "t < instant_limit" and "execute b t t' c s = Ok (r, s')"
  shows "sendable sz r"
proof -
  obtain s1 where "run_command b t t' c s = Ok (r, s1)"
    using assms(4) by (auto simp: execute_def and_then_Ok_iff)
  with assms(1-3) show ?thesis
    using sendable_set sendable_get sendable_del sendable_ttl sendable_expire sendable_info
    by (cases c rule: held.cases) (auto simp: cmd_ping_def MAX_VALUE_SIZE_def)
qed

section \<open>What the client reads\<close>

text \<open>A client that reads \<open>n\<close> replies from the bytes on the socket.\<close>

fun read_replies :: "nat \<Rightarrow> nat \<Rightarrow> bytes \<Rightarrow> (resp_value list \<times> bytes, parse_error) outcome" where
  "read_replies sz 0 bs = Ok ([], bs)"
| "read_replies sz (Suc n) bs =
     and_then (parse_value sz bs) (\<lambda>(v, bs). and_then (read_replies sz n bs) (\<lambda>(vs, bs). Ok (v # vs, bs)))"

lemma read_written:
  "list_all (sendable sz) rs \<Longrightarrow>
   read_replies sz (length rs) (written rs @ rest) = Ok (map response_to_resp rs, rest)"
proof (induction rs)
  case (Cons r rs)
  have "written (r # rs) @ rest = serialize_resp2 (response_to_resp r) @ written rs @ rest"
    by (simp add: written_def)
  with Cons show ?case
    using resp.dec_enc [of sz "response_to_resp r" "written rs @ rest"] by (simp add: sendable_def)
qed (simp add: written_def)

text \<open>The responses of a shard to a sequence of commands with their clock readings.\<close>

fun run_commands ::
    "build \<Rightarrow> (instant \<times> instant \<times> command) list \<Rightarrow> shard \<Rightarrow> (response list \<times> shard) run" where
  "run_commands b [] s = Ok ([], s)"
| "run_commands b ((t, t', c) # cs) s =
     and_then (execute b t t' c s) (\<lambda>(r, s). and_then (run_commands b cs s) (\<lambda>(rs, s). Ok (r # rs, s)))"

lemma run_commands_sendable:
  "shard_ok b s \<Longrightarrow> list_all (\<lambda>(t, t', c). held c \<and> t < instant_limit) cs \<Longrightarrow>
   run_commands b cs s = Ok (rs, s') \<Longrightarrow> list_all (sendable sz) rs \<and> length rs = length cs"
proof (induction b cs s arbitrary: rs rule: run_commands.induct)
  case (2 b t t' c cs s)
  then obtain r s1 rs' where r: "execute b t t' c s = Ok (r, s1)"
      "run_commands b cs s1 = Ok (rs', s')" "rs = r # rs'"
    by (auto simp: and_then_Ok_iff)
  have "shard_ok b s1"
    by (rule execute_keeps_ok [OF 2(2) r(1)])
  with 2 r show ?case
    using sendable_execute [OF 2(2) _ _ r(1)] by auto
qed simp

text \<open>C22 (replies_read_by_the_client). Whatever commands a shard executes, the client that parses
  the bytes the writing task puts on the socket reads as many replies as there were commands,
  in their order, each the one the shard gave.\<close>

theorem replies_read_by_the_client:
  assumes "shard_ok b s" and "run_commands b cs s = Ok (rs, s')"
    and "list_all (\<lambda>(t, t', c). held c \<and> t < instant_limit) cs"
  shows "read_replies sz (length cs) (written rs @ rest) = Ok (map response_to_resp rs, rest)"
  using read_written run_commands_sendable [OF assms(1,3,2)] by metis

theorem replies_read_by_the_client_witness:
  "\<exists>rs. length rs = 2 \<and>
     read_replies 32 2 (written rs) = Ok ([BulkString None, Integer (- 2)], [])"
proof -
  let ?b = "\<lparr>entry_size = 80, overflow_checks = True\<rparr>"
  let ?cs = "[(0, 0, Get [107]), (1, 1, Ttl [107])]"
  have ok: "shard_ok ?b (Shard_new 0 (ShardId 7))"
    by (rule Shard_new_ok) simp
  obtain s' where run: "run_commands ?b ?cs (Shard_new 0 (ShardId 7)) = Ok ([RValue None, RInteger (- 2)], s')"
    by (simp add: Shard_new_def execute_def cmd_get_def cmd_ttl_def)
  have "list_all (\<lambda>(t, t', c). held c \<and> t < instant_limit) ?cs"
    by (simp add: instant_limit_def nanos_def)
  from replies_read_by_the_client [OF ok run this, of 32 "[]"] show ?thesis
    by (intro exI [of _ "[RValue None, RInteger (- 2)]"]) (simp add: numeral_2_eq_2 del: read_replies.simps)
qed

end
