(* ===== verification/Messages.thy ===== *)
theory Messages
  imports Handler Worker Shard_Properties
begin

text \<open>
  The messages between the connections and one worker: any number of connection tasks send
  commands at the same time (\<open>send_to_shard\<close> of \<open>frontend/handler.rs\<close>, the futures of its
  \<open>DEL\<close>), the channel queues them, the worker (\<open>shard/worker.rs\<close>) takes them one at a time between
  its ticks, and each sender waits at its own reply channel with a timeout. Every message has
  a number, which stands for its reply channel.
\<close>

section \<open>State\<close>

record command_message =
  msg_command :: command
  reply_tx :: nat

text \<open>Where the sender of a message is: it ends with what \<open>send_result\<close> says.\<close>

datatype sender = Unsent | Awaiting_reply | Answered send_result

text \<open>
  What the worker did, with its clock readings: a history that the code does not keep. So is
  \<open>accepted_order\<close>, the order in which the channel took the messages.
\<close>

datatype journal_item = Ran nat instant instant command response | Expired_at instant

record exchange =
  mailbox :: "command_message list"
  worker_shard :: "shard option"
  sender_at :: "nat \<Rightarrow> sender"
  journal :: "journal_item list"
  accepted_order :: "nat list"

section \<open>Steps\<close>

text \<open>The worker's task is unwound: its receiver is dropped with all the messages in it.\<close>

definition unwound :: "exchange \<Rightarrow> exchange" where
  "unwound x = x\<lparr>worker_shard := None, mailbox := [],
     sender_at := (\<lambda>i. if i \<in> reply_tx ` set (mailbox x) \<and> sender_at x i = Awaiting_reply
                       then Answered Reply_dropped else sender_at x i)\<rparr>"

text \<open>
  \<open>asked i\<close> is the command of message \<open>i\<close>. A reply to a sender that gave up is thrown away; a
  message whose sender gave up stays in the channel. A snapshot that succeeds changes nothing
  here, and the channel does not close while there are senders.
\<close>

inductive exchange_step :: "build \<Rightarrow> (nat \<Rightarrow> command) \<Rightarrow> exchange \<Rightarrow> exchange \<Rightarrow> bool" for b asked where
  send: "sender_at x i = Unsent \<Longrightarrow> worker_shard x \<noteq> None \<Longrightarrow> length (mailbox x) < COMMAND_CHANNEL_CAPACITY \<Longrightarrow>
     exchange_step b asked x
       (x\<lparr>mailbox := mailbox x @ [\<lparr>msg_command = asked i, reply_tx = i\<rparr>],
          sender_at := (sender_at x)(i := Awaiting_reply), accepted_order := accepted_order x @ [i]\<rparr>)"
| send_times_out: "sender_at x i = Unsent \<Longrightarrow> worker_shard x \<noteq> None \<Longrightarrow>
     exchange_step b asked x (x\<lparr>sender_at := (sender_at x)(i := Answered Send_timeout)\<rparr>)"
| send_fails: "sender_at x i = Unsent \<Longrightarrow> worker_shard x = None \<Longrightarrow>
     exchange_step b asked x (x\<lparr>sender_at := (sender_at x)(i := Answered Send_closed)\<rparr>)"
| reply_times_out: "sender_at x i = Awaiting_reply \<Longrightarrow>
     exchange_step b asked x (x\<lparr>sender_at := (sender_at x)(i := Answered Reply_timeout)\<rparr>)"
| serve_message: "worker_shard x = Some s \<Longrightarrow> mailbox x = m # ms \<Longrightarrow>
     execute b t t' (msg_command m) s = Ok (r, s') \<Longrightarrow>
     exchange_step b asked x
       (x\<lparr>mailbox := ms, worker_shard := Some s',
          sender_at := (if sender_at x (reply_tx m) = Awaiting_reply
                        then (sender_at x)(reply_tx m := Answered (Replied r)) else sender_at x),
          journal := journal x @ [Ran (reply_tx m) t t' (msg_command m) r]\<rparr>)"
| message_panics: "worker_shard x = Some s \<Longrightarrow> mailbox x = m # ms \<Longrightarrow>
     execute b t t' (msg_command m) s = Panic p \<Longrightarrow> exchange_step b asked x (unwound x)"
| expire_round: "worker_shard x = Some s \<Longrightarrow> expire_keys now s = Ok s' \<Longrightarrow>
     exchange_step b asked x (x\<lparr>worker_shard := Some s', journal := journal x @ [Expired_at now]\<rparr>)"
| snapshot_panics: "worker_shard x = Some s \<Longrightarrow> mset order = hm_entries (data s) \<Longrightarrow>
     serialize_shard c now_s clk order s = Panic p \<Longrightarrow> exchange_step b asked x (unwound x)"

inductive_cases exchange_stepE: "exchange_step b asked x x'"

inductive exchange_reachable :: "build \<Rightarrow> (nat \<Rightarrow> command) \<Rightarrow> exchange \<Rightarrow> exchange \<Rightarrow> bool" for b asked x0 where
  start: "exchange_reachable b asked x0 x0"
| step: "exchange_reachable b asked x0 x \<Longrightarrow> exchange_step b asked x x' \<Longrightarrow> exchange_reachable b asked x0 x'"

definition exchange_start :: "shard \<Rightarrow> exchange" where
  "exchange_start s =
     \<lparr>mailbox = [], worker_shard = Some s, sender_at = (\<lambda>_. Unsent), journal = [], accepted_order = []\<rparr>"

section \<open>Sequential execution\<close>

text \<open>One after the other, without any channel: what the journal claims to be.\<close>

fun replay :: "build \<Rightarrow> journal_item list \<Rightarrow> shard \<Rightarrow> shard option" where
  "replay b [] s = Some s"
| "replay b (Ran i t t' c r # js) s =
     (case execute b t t' c s of
        Ok (r', s') \<Rightarrow> if r' = r then replay b js s' else None
      | _ \<Rightarrow> None)"
| "replay b (Expired_at now # js) s =
     (case expire_keys now s of Ok s' \<Rightarrow> replay b js s' | _ \<Rightarrow> None)"

lemma replay_append:
  "replay b (js @ js') s = (case replay b js s of None \<Rightarrow> None | Some s' \<Rightarrow> replay b js' s')"
  by (induction b js s rule: replay.induct) (auto split: outcome.split)

fun item_id :: "journal_item \<Rightarrow> nat list" where
  "item_id (Ran i t t' c r) = [i]"
| "item_id (Expired_at now) = []"

definition served :: "exchange \<Rightarrow> nat list" where
  "served x = concat (map item_id (journal x))"

lemma served_Ran: "Ran i t t' c r \<in> set (journal x) \<Longrightarrow> i \<in> set (served x)"
  by (force simp: served_def)

section \<open>The invariant\<close>

text \<open>
  The messages served and then those in the channel are, in order, those accepted; when the
  worker is gone some of them are lost.
\<close>

definition order_inv :: "exchange \<Rightarrow> bool" where
  "order_inv x \<longleftrightarrow>
     (\<exists>lost. accepted_order x = served x @ map reply_tx (mailbox x) @ lost \<and>
             (worker_shard x \<noteq> None \<longrightarrow> lost = []))"

text \<open>Each message is accepted once, and none whose sender was told that it was not.\<close>

definition accepted_inv :: "exchange \<Rightarrow> bool" where
  "accepted_inv x \<longleftrightarrow> distinct (accepted_order x) \<and>
     (\<forall>i. sender_at x i \<in> {Unsent, Answered Send_timeout, Answered Send_closed} \<longrightarrow> i \<notin> set (accepted_order x))"

text \<open>A sender waits for a message in the channel, and a reply was computed for its command.\<close>

definition sender_inv :: "(nat \<Rightarrow> command) \<Rightarrow> exchange \<Rightarrow> bool" where
  "sender_inv asked x \<longleftrightarrow>
     (\<forall>m\<in>set (mailbox x). msg_command m = asked (reply_tx m)) \<and>
     (\<forall>i. sender_at x i = Awaiting_reply \<longrightarrow> i \<in> reply_tx ` set (mailbox x)) \<and>
     (\<forall>i r. sender_at x i = Answered (Replied r) \<longrightarrow> (\<exists>t t'. Ran i t t' (asked i) r \<in> set (journal x)))"

text \<open>The shard is what the sequential execution of the journal makes of the first state.\<close>

definition replay_inv :: "build \<Rightarrow> shard \<Rightarrow> exchange \<Rightarrow> bool" where
  "replay_inv b s0 x \<longleftrightarrow>
     (\<exists>s. replay b (journal x) s0 = Some s \<and> (\<forall>s'. worker_shard x = Some s' \<longrightarrow> s' = s))"

lemma order_inv_step: "exchange_step b asked x x' \<Longrightarrow> order_inv x \<Longrightarrow> order_inv x'"
proof (induction rule: exchange_step.induct)
  case (serve_message x s m ms t t' r s')
  then show ?case
    by (auto simp: order_inv_def served_def)
next
  case (expire_round x s now s')
  then show ?case
    by (auto simp: order_inv_def served_def)
qed (auto simp: order_inv_def unwound_def served_def)

lemma accepted_inv_step: "exchange_step b asked x x' \<Longrightarrow> accepted_inv x \<Longrightarrow> accepted_inv x'"
  by (induction rule: exchange_step.induct) (auto simp: accepted_inv_def unwound_def split: if_splits)

lemma sender_inv_step: "exchange_step b asked x x' \<Longrightarrow> sender_inv asked x \<Longrightarrow> sender_inv asked x'"
proof (induction rule: exchange_step.induct)
  case (serve_message x s m ms t t' r s')
  then have "\<forall>m\<in>set ms. msg_command m = asked (reply_tx m)" "msg_command m = asked (reply_tx m)"
    by (simp_all add: sender_inv_def)
  with serve_message(2,4) show ?case
    by (fastforce simp: sender_inv_def)
qed (fastforce simp: sender_inv_def unwound_def)+

lemma replay_inv_step: "exchange_step b asked x x' \<Longrightarrow> replay_inv b s0 x \<Longrightarrow> replay_inv b s0 x'"
  by (induction rule: exchange_step.induct) (auto simp: replay_inv_def replay_append unwound_def)

lemma invs_start:
  "order_inv (exchange_start s)" "accepted_inv (exchange_start s)" "sender_inv asked (exchange_start s)"
  "replay_inv b s (exchange_start s)"
  by (simp_all add: exchange_start_def order_inv_def accepted_inv_def sender_inv_def replay_inv_def served_def)

lemma exchange_invs:
  assumes "exchange_reachable b asked (exchange_start s0) x"
  shows "order_inv x" "accepted_inv x" "sender_inv asked x" "replay_inv b s0 x"
  using assms
  by (induction rule: exchange_reachable.induct)
     (blast intro: invs_start order_inv_step accepted_inv_step sender_inv_step replay_inv_step)+

text \<open>A run: the message goes out, its sender may give up, the worker serves it.\<close>

lemma served_anyway:
  assumes "execute b t t' (asked i) s = Ok (r, s')"
  shows "\<exists>x. exchange_reachable b asked (exchange_start s) x \<and>
     sender_at x i = Answered (if gives_up then Reply_timeout else Replied r) \<and>
     worker_shard x = Some s' \<and> journal x = [Ran i t t' (asked i) r]"
proof -
  let ?m = "\<lparr>msg_command = asked i, reply_tx = i\<rparr>"
  let ?x1 = "(exchange_start s)\<lparr>mailbox := mailbox (exchange_start s) @ [?m],
     sender_at := (sender_at (exchange_start s))(i := Awaiting_reply), accepted_order := accepted_order (exchange_start s) @ [i]\<rparr>"
  let ?x2 = "if gives_up then ?x1\<lparr>sender_at := (sender_at ?x1)(i := Answered Reply_timeout)\<rparr> else ?x1"
  have "exchange_step b asked (exchange_start s) ?x1"
    by (rule exchange_step.send) (simp_all add: exchange_start_def COMMAND_CHANNEL_CAPACITY_def)
  then have one: "exchange_reachable b asked (exchange_start s) ?x1"
    by (rule exchange_reachable.step [OF exchange_reachable.start])
  have two: "exchange_reachable b asked (exchange_start s) ?x2"
  proof (cases gives_up)
    case True
    have "exchange_step b asked ?x1 (?x1\<lparr>sender_at := (sender_at ?x1)(i := Answered Reply_timeout)\<rparr>)"
      by (rule exchange_step.reply_times_out) simp
    with one True show ?thesis
      by (simp add: exchange_reachable.step)
  next
    case False
    with one show ?thesis by simp
  qed
  have "worker_shard ?x2 = Some s" "mailbox ?x2 = [?m]" "journal ?x2 = []"
    by (simp_all add: exchange_start_def)
  moreover have "sender_at ?x2 i = (if gives_up then Answered Reply_timeout else Awaiting_reply)"
    by simp
  ultimately show ?thesis
    using exchange_reachable.step [OF two exchange_step.serve_message [of ?x2 s ?m "[]" b t t' r s']] assms
    by (intro exI conjI) (assumption | simp)+
qed

section \<open>Properties\<close>

text \<open>C7 (clients_see_a_sequential_shard). Whatever the connections send at the same time, and
  whoever times out: the shard is in the state that executing the served messages one after
  the other gives, each is served once and in the order in which the channel took them, every
  reply is the one computed for the sender's own command, and a message whose sending was
  reported to have failed is not executed.\<close>

theorem clients_see_a_sequential_shard:
  assumes "exchange_reachable b asked (exchange_start s0) x"
  shows "(\<exists>s. replay b (journal x) s0 = Some s \<and> worker_shard x \<in> {None, Some s}) \<and>
     (\<exists>later. accepted_order x = served x @ later) \<and> distinct (served x) \<and>
     (\<forall>i r. sender_at x i = Answered (Replied r) \<longrightarrow> (\<exists>t t'. Ran i t t' (asked i) r \<in> set (journal x))) \<and>
     (\<forall>i. sender_at x i \<in> {Answered Send_timeout, Answered Send_closed} \<longrightarrow> i \<notin> set (served x))"
proof -
  obtain s where s: "replay b (journal x) s0 = Some s" "\<forall>s'. worker_shard x = Some s' \<longrightarrow> s' = s"
    using exchange_invs(4) [OF assms] by (auto simp: replay_inv_def)
  then have "worker_shard x \<in> {None, Some s}"
    by (cases "worker_shard x") auto
  moreover obtain later where "accepted_order x = served x @ later"
    using exchange_invs(1) [OF assms] by (auto simp: order_inv_def)
  ultimately show ?thesis
    using s(1) exchange_invs(2,3) [OF assms] by (auto simp: accepted_inv_def sender_inv_def)
qed

lemma demo_get: "\<exists>s'. execute b 0 0 (Get k) (Shard_new 0 i) = Ok (RValue None, s')"
  by (simp add: execute_def cmd_get_def Shard_new_def)

theorem clients_see_a_sequential_shard_witness:
  "\<exists>(x :: exchange) s. replay \<lparr>entry_size = 80, overflow_checks = True\<rparr> (journal x) (Shard_new 0 (ShardId 7)) = Some s \<and>
     sender_at x 3 = Answered (Replied (RValue None)) \<and> served x = [3]"
proof -
  let ?b = "\<lparr>entry_size = 80, overflow_checks = True\<rparr>"
  obtain s' where "execute ?b 0 0 (Get [107]) (Shard_new 0 (ShardId 7)) = Ok (RValue None, s')"
    using demo_get by blast
  from served_anyway [where asked = "\<lambda>_. Get [107]" and i = 3 and gives_up = False, OF this]
  obtain x where x: "exchange_reachable ?b (\<lambda>_. Get [107]) (exchange_start (Shard_new 0 (ShardId 7))) x"
      "sender_at x 3 = Answered (Replied (RValue None))" "journal x = [Ran 3 0 0 (Get [107]) (RValue None)]"
    by auto
  from clients_see_a_sequential_shard [OF x(1)] obtain s where
    "replay ?b (journal x) (Shard_new 0 (ShardId 7)) = Some s" by blast
  moreover have "served x = [3]"
    using x(3) by (simp add: served_def)
  ultimately show ?thesis
    using x(2) by blast
qed

text \<open>C35 (timed_out_command_still_runs). A client that is told \<open>ERR shard timeout\<close> cannot know whether its
  command ran: any command that the shard can execute may be executed after its sender has
  given up, with its full effect.\<close>

theorem timed_out_command_still_runs:
  assumes "execute b t t' (asked i) s = Ok (r, s')"
  shows "\<exists>x. exchange_reachable b asked (exchange_start s) x \<and> sender_at x i = Answered Reply_timeout \<and>
     shard_reply Reply_timeout = RError (ascii ''ERR shard timeout'') \<and> worker_shard x = Some s'"
  using served_anyway [of b t t' asked i s r s' True] assms by auto

theorem timed_out_command_still_runs_witness:
  "\<exists>(x :: exchange) (s' :: shard). sender_at x 0 = Answered Reply_timeout \<and> worker_shard x = Some s' \<and>
     hm_get (data s') [107] \<noteq> None"
proof -
  obtain s' where s': "execute demo_build 0 0 (Set [107] (String [118]) None) demo_shard = Ok (ROk, s')"
      "hm_get (data s') [107] \<noteq> None"
    by (simp add: demo_simps)
  show ?thesis
    using timed_out_command_still_runs [where asked = "\<lambda>_. Set [107] (String [118]) None" and i = 0, OF s'(1)] s'(2)
    by blast
qed

end
