(* ===== verification/Network.thy ===== *)
theory Network
  imports Messages Handler_Properties
begin

text \<open>
  The connections and the 64 workers together: every request of a connection goes as one
  message, a \<open>DEL\<close> as one message per shard, to the channels of \<open>Messages\<close>; the next request of
  the connection follows when all its messages are answered. The requests are numbered so that
  those of one connection grow, and a request's number is its message's at every shard.
\<close>

section \<open>Requests and their messages\<close>

text \<open>The message to shard \<open>j\<close>: \<open>process_command\<close>, \<open>process_multi_key_del\<close>.\<close>

fun message_to :: "nat \<Rightarrow> command \<Rightarrow> command option" where
  "message_to j (Del ks) = map_option Del (hm_get (route_keys ks) (ShardId (word_of_nat j)))"
| "message_to j (Ping m) = (if j = 0 then Some (Ping m) else None)"
| "message_to j (Info i) = (if j = 0 then Some (Info i) else None)"
| "message_to j (Get k) = (if j = as_usize (route_key k) then Some (Get k) else None)"
| "message_to j (Set k v ttl) = (if j = as_usize (route_key k) then Some (Set k v ttl) else None)"
| "message_to j (Expire k n) = (if j = as_usize (route_key k) then Some (Expire k n) else None)"
| "message_to j (Ttl k) = (if j = as_usize (route_key k) then Some (Ttl k) else None)"

record network =
  exchanges :: "nat \<Rightarrow> exchange"
  issued :: "nat set"

text \<open>The futures of a request are complete, and what the connection replies then.\<close>

definition answered :: "(nat \<Rightarrow> command) \<Rightarrow> network \<Rightarrow> nat \<Rightarrow> bool" where
  "answered req s q \<longleftrightarrow> q \<in> issued s \<and>
     (\<forall>j<SHARD_COUNT. message_to j (req q) \<noteq> None \<longrightarrow> (\<exists>r. sender_at (exchanges s j) q = Answered r))"

definition shard_outcome :: "network \<Rightarrow> nat \<Rightarrow> nat \<Rightarrow> send_result" where
  "shard_outcome s q j = (case sender_at (exchanges s j) q of Answered r \<Rightarrow> r | _ \<Rightarrow> Reply_timeout)"

definition reply_to ::
    "((shard_id, key list) hashmap \<Rightarrow> (shard_id \<times> key list) list) \<Rightarrow> (nat \<Rightarrow> command) \<Rightarrow> network \<Rightarrow> nat \<Rightarrow>
     response option" where
  "reply_to iter req s q =
     (if answered req s q then
        (case (process_command iter SHARD_COUNT (\<lambda>j c env. (shard_outcome s q j, env)) (req q) ()
                 :: (_, unit) outcome) of
           Ok (r, _) \<Rightarrow> Some r
         | _ \<Rightarrow> None)
      else None)"

text \<open>A connection issues a request after the earlier ones; the shards' exchanges go on independently.\<close>

inductive network_step :: "build \<Rightarrow> (nat \<Rightarrow> command) \<Rightarrow> (nat \<Rightarrow> nat) \<Rightarrow> network \<Rightarrow> network \<Rightarrow> bool"
  for b req connection where
  issue: "q \<notin> issued s \<Longrightarrow> \<forall>p<q. connection p = connection q \<longrightarrow> answered req s p \<Longrightarrow>
     network_step b req connection s (s\<lparr>issued := insert q (issued s)\<rparr>)"
| exchange_moves: "j < SHARD_COUNT \<Longrightarrow>
     exchange_step b (\<lambda>q. the (message_to j (req q))) (exchanges s j) x \<Longrightarrow>
     \<forall>q. sender_at (exchanges s j) q = Unsent \<and> sender_at x q \<noteq> Unsent \<longrightarrow>
         q \<in> issued s \<and> message_to j (req q) \<noteq> None \<Longrightarrow>
     network_step b req connection s (s\<lparr>exchanges := (exchanges s)(j := x)\<rparr>)"

inductive_cases network_stepE: "network_step b req connection s s'"

definition network_start :: "(nat \<Rightarrow> shard) \<Rightarrow> network" where
  "network_start s0 = \<lparr>exchanges = (\<lambda>j. exchange_start (s0 j)), issued = {}\<rparr>"

inductive network_reachable ::
    "build \<Rightarrow> (nat \<Rightarrow> command) \<Rightarrow> (nat \<Rightarrow> nat) \<Rightarrow> network \<Rightarrow> network \<Rightarrow> bool"
  for b req connection n0 where
  start: "network_reachable b req connection n0 n0"
| step: "network_reachable b req connection n0 s \<Longrightarrow> network_step b req connection s s' \<Longrightarrow>
     network_reachable b req connection n0 s'"

section \<open>Every shard by itself\<close>

lemma network_exchange:
  assumes "network_reachable b req connection (network_start s0) s"
  shows "exchange_reachable b (\<lambda>q. the (message_to j (req q))) (exchange_start (s0 j)) (exchanges s j)"
  using assms
proof (induction rule: network_reachable.induct)
  case start
  then show ?case by (simp add: network_start_def exchange_reachable.start)
next
  case (step s s')
  then show ?case
    by (auto elim!: network_stepE intro: exchange_reachable.step)
qed

section \<open>The order of a connection\<close>

lemma answer_stays: "exchange_step b asked x x' \<Longrightarrow> sender_at x q = Answered r \<Longrightarrow> sender_at x' q = Answered r"
  by (auto elim!: exchange_stepE simp: unwound_def)

lemma accepted_step:
  "exchange_step b asked x x' \<Longrightarrow>
   accepted_order x' = accepted_order x \<or>
   (\<exists>q. accepted_order x' = accepted_order x @ [q] \<and> sender_at x q = Unsent \<and> sender_at x' q = Awaiting_reply)"
  by (auto elim!: exchange_stepE simp: unwound_def)

lemma answered_stays:
  "network_step b req connection s s' \<Longrightarrow> answered req s q \<Longrightarrow> answered req s' q"
  by (auto elim!: network_stepE simp: answered_def) (metis answer_stays)+

text \<open>What is accepted was issued, and before a request every earlier one was answered.\<close>

definition order_kept :: "(nat \<Rightarrow> command) \<Rightarrow> (nat \<Rightarrow> nat) \<Rightarrow> network \<Rightarrow> bool" where
  "order_kept req connection s \<longleftrightarrow>
     (\<forall>j. \<forall>q\<in>set (accepted_order (exchanges s j)). q \<in> issued s \<and> message_to j (req q) \<noteq> None) \<and>
     (\<forall>q\<in>issued s. \<forall>p<q. connection p = connection q \<longrightarrow> answered req s p) \<and>
     (\<forall>j c. sorted_wrt (<) (filter (\<lambda>q. connection q = c) (accepted_order (exchanges s j))))"

lemma order_kept_step:
  assumes "network_step b req connection s s'" and "order_kept req connection s"
    and "\<And>j. accepted_inv (exchanges s j)"
  shows "order_kept req connection s'"
proof -
  note old = assms(2) [unfolded order_kept_def]
  note stays = answered_stays [OF assms(1)]
  from assms(1) show ?thesis
  proof cases
    case (issue q)
    then have "answered req s' p" if "p < r" "connection p = connection r" "r \<in> issued s'" for p r
      using that old stays by auto
    with issue old show ?thesis
      by (auto simp: order_kept_def)
  next
    case (exchange_moves j x)
    have "\<forall>q\<in>set (accepted_order x). q \<in> issued s \<and> message_to j (req q) \<noteq> None"
      using accepted_step [OF exchange_moves(3)] exchange_moves(4) old by fastforce
    moreover have "sorted_wrt (<) (filter (\<lambda>q. connection q = c) (accepted_order x))" for c
      using accepted_step [OF exchange_moves(3)]
    proof (elim disjE exE conjE)
      fix q
      assume new: "accepted_order x = accepted_order (exchanges s j) @ [q]"
        "sender_at (exchanges s j) q = Unsent" "sender_at x q = Awaiting_reply"
      then have q: "message_to j (req q) \<noteq> None"
        using exchange_moves(4) by simp
      have "q \<notin> set (accepted_order (exchanges s j))"
        using assms(3) [of j] new(2) by (simp add: accepted_inv_def)
      moreover have "\<not> q < p" if "p \<in> set (accepted_order (exchanges s j))" "connection p = connection q" for p
      proof
        assume "q < p"
        with that old have "answered req s q"
          by metis
        with q exchange_moves(2) new(2) show False
          by (auto simp: answered_def)
      qed
      ultimately have "\<forall>p\<in>set (accepted_order (exchanges s j)). connection p = connection q \<longrightarrow> p < q"
        by (metis linorder_neqE_nat)
      with old show ?thesis
        by (auto simp: new(1) sorted_wrt_append)
    qed (use old in auto)
    ultimately show ?thesis
      using old stays exchange_moves(1) by (auto simp: order_kept_def)
  qed
qed

lemma order_kept_reachable:
  "network_reachable b req connection (network_start s0) s \<Longrightarrow> order_kept req connection s"
proof (induction rule: network_reachable.induct)
  case start
  then show ?case
    by (simp add: order_kept_def network_start_def exchange_start_def)
next
  case (step s s')
  then show ?case
    using order_kept_step exchange_invs(2) [OF network_exchange [OF step(1)]] by blast
qed

text \<open>
  C8 (connection_order_kept). The commands that a connection sends to the same shard are
  executed in the order in which it sent them, each at most once, even when it was told that
  one of them timed out and went on: the late command still comes before the next one.
\<close>

theorem connection_order_kept:
  assumes "network_reachable b req connection (network_start s0) s"
  shows "sorted_wrt (<) (filter (\<lambda>q. connection q = c) (served (exchanges s j))) \<and>
     distinct (served (exchanges s j)) \<and>
     (\<forall>q\<in>set (served (exchanges s j)). q \<in> issued s \<and> message_to j (req q) \<noteq> None)"
proof -
  note kept = order_kept_reachable [OF assms]
  note invs = exchange_invs [OF network_exchange [OF assms, of j]]
  obtain later where "accepted_order (exchanges s j) = served (exchanges s j) @ later"
    using invs(1) by (auto simp: order_inv_def)
  with kept invs(2) show ?thesis
    unfolding order_kept_def accepted_inv_def by (metis (no_types, lifting) Un_iff distinct_append
      filter_append set_append sorted_wrt_append)
qed

section \<open>DEL over several shards\<close>

lemma ask_all_pure:
  "ask_all (\<lambda>j c env. (f j, env)) groups env = (map (\<lambda>g. f (as_usize (fst g))) groups, env)"
  by (induction groups) (auto simp: Let_def)

lemma del_reply_ok: "(\<And>e. del_reply x \<noteq> RError e) \<Longrightarrow> \<exists>r. x = Replied r"
  by (cases x) auto

lemma no_errors: "snd (collect_replies rs 0 []) = [] \<Longrightarrow> RError e \<notin> set rs"
  unfolding collect_errors by (induction rs) (auto split: response.splits)

lemma counted_outcomes:
  assumes "reply_to iter req s q = Some (RInteger n)" and "req q = Del ks"
    and "(i, js) \<in> set (iter (route_keys ks))"
  shows "\<exists>r. shard_outcome s q (as_usize i) = Replied r"
proof -
  let ?xs = "map (\<lambda>g. shard_outcome s q (as_usize (fst g))) (iter (route_keys ks))"
  have "snd (collect_replies (map del_reply ?xs) 0 []) = []"
    using assms(1,2)
    by (auto simp: reply_to_def process_multi_key_del_def Let_def ask_all_pure split_beta
        split: if_splits outcome.splits)
  note none = no_errors [OF this]
  have "shard_outcome s q (as_usize i) \<in> set ?xs"
    using assms(3) by force
  with none show ?thesis
    by (intro del_reply_ok) (metis image_eqI list.set_map)
qed

text \<open>
  C11 (counted_del_ran_everywhere). When a \<open>DEL\<close> over many shards is answered with a count, every
  one of its keys was deleted by the shard it belongs to: this shard has executed exactly once
  the part of the \<open>DEL\<close> with all its keys there.
\<close>

theorem counted_del_ran_everywhere:
  assumes "network_reachable b req connection (network_start s0) s" and "iteration_ok iter"
    and "req q = Del ks" and "reply_to iter req s q = Some (RInteger n)" and "k \<in> set ks"
  shows "(\<exists>t t' r. Ran q t t' (Del (keys_of_shard (route_key k) ks)) r
            \<in> set (journal (exchanges s (as_usize (route_key k))))) \<and>
     count_list (served (exchanges s (as_usize (route_key k)))) q = 1"
proof -
  let ?j = "as_usize (route_key k)" and ?js = "keys_of_shard (route_key k) ks"
  let ?x = "exchanges s ?j"
  have "?js \<noteq> []"
    using assms(5) by (auto simp: keys_of_shard_def filter_empty_conv)
  then have get: "hm_get (route_keys ks) (route_key k) = Some ?js"
    by (simp add: route_keys_def get_groups)
  then have "(route_key k, ?js) \<in> set (route_keys ks)"
    by (simp add: hm_get_def map_of_SomeD)
  then have "(route_key k, ?js) \<in> set (iter (route_keys ks))"
    using assms(2) by (metis iteration_ok_def set_mset_mset)
  from counted_outcomes [where iter = iter, OF assms(4,3) this]
  obtain r where r: "shard_outcome s q ?j = Replied r" by blast
  have "ShardId (word_of_nat ?j) = route_key k"
    by (cases "route_key k") (simp add: as_usize_def)
  then have msg: "message_to ?j (req q) = Some (Del ?js)"
    using get assms(3) by simp
  moreover have "?j < SHARD_COUNT"
    by (rule route_less)
  ultimately have "sender_at ?x q = Answered (Replied r)"
    using r assms(4) by (auto simp: reply_to_def answered_def shard_outcome_def split: if_splits)
  moreover note invs = exchange_invs [OF network_exchange [OF assms(1), of ?j]]
  ultimately obtain t t' where ran: "Ran q t t' (Del ?js) r \<in> set (journal ?x)"
    using invs(3) msg by (fastforce simp: sender_inv_def)
  have "distinct (served ?x)"
    using invs(1,2) by (auto simp: order_inv_def accepted_inv_def)
  with served_Ran [OF ran] have "count_list (served ?x) q = 1"
    by (metis count_mset distinct_count_atmost_1)
  with ran show ?thesis by blast
qed

section \<open>DEL is not atomic\<close>

lemma answeredI:
  "q \<in> issued s \<Longrightarrow> (\<And>j. message_to j (req q) \<noteq> None \<Longrightarrow> j < SHARD_COUNT \<Longrightarrow>
     \<exists>r. sender_at (exchanges s j) q = Answered r) \<Longrightarrow> answered req s q"
  by (auto simp: answered_def)

text \<open>A request is issued; a shard with an empty channel serves a message at once.\<close>

lemma issue_one:
  assumes "network_reachable b req connection n0 s" and "q \<notin> issued s"
    and "\<forall>p<q. connection p = connection q \<longrightarrow> answered req s p"
  shows "network_reachable b req connection n0 (s\<lparr>issued := insert q (issued s)\<rparr>)"
  using assms by (blast intro: network_reachable.step network_step.issue)

definition after_one :: "nat \<Rightarrow> command \<Rightarrow> response \<Rightarrow> shard \<Rightarrow> exchange \<Rightarrow> exchange" where
  "after_one q c r sh x =
     x\<lparr>accepted_order := accepted_order x @ [q], mailbox := [], worker_shard := Some sh,
       sender_at := (sender_at x)(q := Answered (Replied r)), journal := journal x @ [Ran q 0 0 c r]\<rparr>"

lemma serve_one:
  assumes "network_reachable b req connection n0 s" and "j < SHARD_COUNT" and "q \<in> issued s"
    and "message_to j (req q) = Some c" and "sender_at (exchanges s j) q = Unsent"
    and "mailbox (exchanges s j) = []" and "worker_shard (exchanges s j) = Some sh"
    and "execute b 0 0 c sh = Ok (r, sh')"
  shows "network_reachable b req connection n0
     (s\<lparr>exchanges := (exchanges s)(j := after_one q c r sh' (exchanges s j))\<rparr>)"
proof -
  let ?m = "\<lparr>msg_command = c, reply_tx = q\<rparr>"
  let ?x = "exchanges s j"
  let ?x1 = "?x\<lparr>mailbox := [?m], sender_at := (sender_at ?x)(q := Awaiting_reply),
     accepted_order := accepted_order ?x @ [q]\<rparr>"
  let ?s1 = "s\<lparr>exchanges := (exchanges s)(j := ?x1)\<rparr>"
  let ?asked = "\<lambda>q. the (message_to j (req q))"
  have "exchange_step b ?asked ?x ?x1"
    using exchange_step.send [of ?x q b ?asked] assms(4-7) by (simp add: COMMAND_CHANNEL_CAPACITY_def)
  then have "network_step b req connection s ?s1"
    using assms(2-5) by (intro network_step.exchange_moves) auto
  with assms(1) have one: "network_reachable b req connection n0 ?s1"
    by (rule network_reachable.step)
  have "exchange_step b ?asked ?x1 (after_one q c r sh' ?x)"
    using exchange_step.serve_message [of ?x1 sh ?m "[]" b 0 0 r sh' ?asked] assms(7,8)
    by (simp add: after_one_def)
  then have "network_step b req connection ?s1 (?s1\<lparr>exchanges := (exchanges ?s1)(j := after_one q c r sh' ?x)\<rparr>)"
    using assms(2) by (intro network_step.exchange_moves) (auto simp: after_one_def)
  from network_reachable.step [OF one this] show ?thesis
    by simp
qed

text \<open>Shard 13 holds the key \<open>k\<close>, shard 42 the key \<open>l\<close>; client 0 deletes both, client 1 reads both.\<close>

definition holding :: "key \<Rightarrow> shard" where
  "holding k = (Shard_new 0 (route_key k))
     \<lparr>data := [(k, Entry_new 0 (String [118]) None)],
      metrics := (ShardMetrics_new 0)\<lparr>key_count := 1, memory_bytes := 82\<rparr>\<rparr>"

definition two_holders :: "nat \<Rightarrow> shard" where
  "two_holders j =
     (if j = 13 then holding [107] else if j = 42 then holding [108]
      else Shard_new 0 (ShardId (word_of_nat j)))"

definition two_clients :: "nat \<Rightarrow> command" where
  "two_clients q = (if q = 0 then Del [[107], [108]] else if q = 1 then Get [107] else Get [108])"

definition client_of :: "nat \<Rightarrow> nat" where
  "client_of q = (if q = 0 then 0 else 1)"

lemma holding_ok: "length k = 1 \<Longrightarrow> shard_ok demo_build (holding k)"
  by (simp add: shard_ok_def keys_ok_def memory_ok_def holding_def Shard_new_def
      ShardMetrics_new_def demo_build_def covered_def hm_get_def hm_wf_def hm_len_def
      stored_bytes_def hm.total_def hm_entries_def used_memory_def entry_size_bytes_def Entry_new_def
      MAX_KEYS_PER_SHARD_def MAX_MEMORY_PER_SHARD_def MAX_KEY_SIZE_def MAX_VALUE_SIZE_def)

lemma holding_runs:
  assumes "length k = 1"
  shows "\<exists>s'. execute demo_build 0 0 (Del [k]) (holding k) = Ok (RInteger 1, s') \<and>
           (\<exists>s''. execute demo_build 0 0 (Get k) s' = Ok (RValue None, s''))"
    and "\<exists>s'. execute demo_build 0 0 (Get k) (holding k) = Ok (RValue (Some (String [118])), s') \<and>
           (\<exists>s''. execute demo_build 0 0 (Del [k]) s' = Ok (RInteger 1, s''))"
  using assms by (simp_all add: holding_def demo_simps cmd_del_def)

lemma two_homes: "route_key [107] = ShardId 13" "route_key [108] = ShardId 42"
  by code_simp+

lemma two_groups: "route_keys [[107], [108]] = [(ShardId 13, [[107]]), (ShardId 42, [[108]])]"
  by (simp add: route_keys_def group_key_def two_homes hm_get_def hm_insert_def)

lemma two_messages:
  "message_to 13 (two_clients 0) = Some (Del [[107]])" "message_to 42 (two_clients 0) = Some (Del [[108]])"
  "message_to 13 (two_clients 1) = Some (Get [107])" "message_to 42 (two_clients 2) = Some (Get [108])"
  by (simp_all add: two_clients_def two_groups two_homes hm_get_def as_usize_def)

lemma two_targets:
  "message_to j (two_clients 0) \<noteq> None \<Longrightarrow> j < SHARD_COUNT \<Longrightarrow> j = 13 \<or> j = 42"
  "message_to j (two_clients 1) \<noteq> None \<Longrightarrow> j = 13"
  "message_to j (two_clients 2) \<noteq> None \<Longrightarrow> j = 42"
proof -
  have same: "j < SHARD_COUNT \<Longrightarrow> m < SHARD_COUNT \<Longrightarrow> word_of_nat j = (word_of_nat m :: u16) \<Longrightarrow> j = m" for m
    by (simp add: SHARD_COUNT_def word_of_nat_eq_iff take_bit_nat_eq_self)
  show "message_to j (two_clients 0) \<noteq> None \<Longrightarrow> j < SHARD_COUNT \<Longrightarrow> j = 13 \<or> j = 42"
    using same [of 13] same [of 42]
    by (auto simp: two_clients_def two_groups hm_get_def SHARD_COUNT_def split: if_splits)
qed (auto simp: two_clients_def two_homes as_usize_def split: if_splits)

lemma no_order:
  assumes "R 0 = Some (RInteger 2)" "R 1 = Some (RValue None)" "R 2 = Some (RValue (Some (String [118])))"
  shows "list_all (\<lambda>order.
         fst (spec_history (map (\<lambda>q. Run 0 (two_clients q)) order)
               [[107] \<mapsto> (String [118], None), [108] \<mapsto> (String [118], None)])
         \<noteq> map R order)
       [[0, 1, 2], [1, 0, 2], [1, 2, 0]]"
  using assms by (simp add: spec_step_def prune_def two_clients_def)

lemma two_clients_run:
  "\<exists>s. network_reachable demo_build two_clients client_of (network_start two_holders) s \<and>
     reply_to rev two_clients s 0 = Some (RInteger 2) \<and>
     reply_to rev two_clients s 1 = Some (RValue None) \<and>
     reply_to rev two_clients s 2 = Some (RValue (Some (String [118]))) \<and>
     served (exchanges s 13) = [0, 1] \<and> served (exchanges s 42) = [2, 0]"
proof -
  let ?reach = "network_reachable demo_build two_clients client_of (network_start two_holders)"
  obtain a1 a2 where a: "execute demo_build 0 0 (Del [[107]]) (holding [107]) = Ok (RInteger 1, a1)"
      "execute demo_build 0 0 (Get [107]) a1 = Ok (RValue None, a2)"
    using holding_runs(1) [of "[107]"] by auto
  obtain b1 b2 where b: "execute demo_build 0 0 (Get [108]) (holding [108]) = Ok (RValue (Some (String [118])), b1)"
      "execute demo_build 0 0 (Del [[108]]) b1 = Ok (RInteger 1, b2)"
    using holding_runs(2) [of "[108]"] by auto
  note moves = after_one_def network_start_def exchange_start_def two_holders_def SHARD_COUNT_def
  let ?upd = "\<lambda>j q c r sh s. s\<lparr>exchanges := (exchanges s)(j := after_one q c r sh (exchanges s j))\<rparr>"
  let ?s0 = "(network_start two_holders)\<lparr>issued := {0}\<rparr>"
  let ?s1 = "?upd 13 0 (Del [[107]]) (RInteger 1) a1 ?s0"
  let ?s2 = "?s1\<lparr>issued := {0, 1}\<rparr>"
  let ?s3 = "?upd 13 1 (Get [107]) (RValue None) a2 ?s2"
  let ?s4 = "?s3\<lparr>issued := {0, 1, 2}\<rparr>"
  let ?s5 = "?upd 42 2 (Get [108]) (RValue (Some (String [118]))) b1 ?s4"
  let ?s6 = "?upd 42 0 (Del [[108]]) (RInteger 1) b2 ?s5"
  have "?reach ?s0"
    using issue_one [of demo_build two_clients client_of "network_start two_holders" "network_start two_holders" 0]
    by (simp add: network_reachable.start network_start_def)
  then have "?reach ?s1"
    by (rule serve_one [where j = 13 and q = 0 and c = "Del [[107]]" and r = "RInteger 1" and sh = "holding [107]" and sh' = a1]) (simp_all only: two_messages, simp_all add: moves a)
  then have "?reach ?s2"
    using issue_one [of demo_build two_clients client_of "network_start two_holders" ?s1 1]
    by (simp add: client_of_def insert_commute)
  then have "?reach ?s3"
    by (rule serve_one [where j = 13 and q = 1 and c = "Get [107]" and r = "RValue None" and sh = a1 and sh' = a2]) (simp_all only: two_messages, simp_all add: moves a)
  moreover have "answered two_clients ?s3 1"
    by (rule answeredI) (use two_targets(2) in \<open>auto simp: after_one_def\<close>)
  ultimately have "?reach ?s4"
    using issue_one [of demo_build two_clients client_of "network_start two_holders" ?s3 2]
    by (simp add: client_of_def insert_commute less_Suc_eq numeral_2_eq_2)
  then have "?reach ?s5"
    by (rule serve_one [where j = 42 and q = 2 and c = "Get [108]" and r = "RValue (Some (String [118]))" and sh = "holding [108]" and sh' = b1]) (simp_all only: two_messages, simp_all add: moves b)
  then have reach: "?reach ?s6"
    by (rule serve_one [where j = 42 and q = 0 and c = "Del [[108]]" and r = "RInteger 1" and sh = b1 and sh' = b2]) (simp_all only: two_messages, simp_all add: moves b)
  have complete: "answered two_clients ?s6 0" "answered two_clients ?s6 1" "answered two_clients ?s6 2"
    by (rule answeredI; use two_targets in \<open>fastforce simp: after_one_def\<close>)+
  have outcomes: "shard_outcome ?s6 0 13 = Replied (RInteger 1)" "shard_outcome ?s6 0 42 = Replied (RInteger 1)"
      "shard_outcome ?s6 1 13 = Replied (RValue None)"
      "shard_outcome ?s6 2 42 = Replied (RValue (Some (String [118])))"
    by (simp_all add: shard_outcome_def after_one_def)
  have replies: "reply_to rev two_clients ?s6 0 = Some (RInteger 2)"
      "reply_to rev two_clients ?s6 1 = Some (RValue None)"
      "reply_to rev two_clients ?s6 2 = Some (RValue (Some (String [118])))"
    using complete outcomes
    by (simp_all add: reply_to_def two_clients_def process_multi_key_del_def two_groups two_homes
        send_to_shard_def as_usize_def SHARD_COUNT_def Let_def)
  have "served (exchanges ?s6 13) = [0, 1]" "served (exchanges ?s6 42) = [2, 0]"
    by (simp_all add: served_def after_one_def network_start_def exchange_start_def)
  then show ?thesis
    by (intro exI [of _ ?s6] conjI reach replies)
qed

text \<open>
  C36 (del_is_not_atomic). Two keys on different shards, one client that deletes both and one that
  reads one after the other: the reader can find the first key gone and the second still there,
  while the \<open>DEL\<close> is answered with the count two. No order of the three requests, executed one
  after the other over one store, gives these replies.
\<close>

theorem del_is_not_atomic:
  "\<exists>s. network_reachable demo_build two_clients client_of (network_start two_holders) s \<and>
     reply_to rev two_clients s 0 = Some (RInteger 2) \<and>
     reply_to rev two_clients s 1 = Some (RValue None) \<and>
     reply_to rev two_clients s 2 = Some (RValue (Some (String [118]))) \<and>
     list_all (\<lambda>order.
         fst (spec_history (map (\<lambda>q. Run 0 (two_clients q)) order)
               [[107] \<mapsto> (String [118], None), [108] \<mapsto> (String [118], None)])
         \<noteq> map (reply_to rev two_clients s) order)
       [[0, 1, 2], [1, 0, 2], [1, 2, 0]]"
  using two_clients_run no_order by blast

theorem connection_order_kept_witness:
  "\<exists>s :: network. served (exchanges s 13) = [0, 1] \<and>
     sorted_wrt (<) (filter (\<lambda>q. client_of q = 1) (served (exchanges s 13)))"
  using two_clients_run connection_order_kept by blast

theorem counted_del_ran_everywhere_witness:
  "\<exists>s :: network. reply_to rev two_clients s 0 = Some (RInteger 2) \<and> count_list (served (exchanges s 42)) 0 = 1"
proof -
  obtain s where s: "network_reachable demo_build two_clients client_of (network_start two_holders) s"
      "reply_to rev two_clients s 0 = Some (RInteger 2)"
    using two_clients_run by blast
  have "iteration_ok rev"
    by (simp add: iteration_ok_def)
  from counted_del_ran_everywhere [OF s(1) this _ s(2), of "[[107], [108]]" "[108]"] s(2) show ?thesis
    by (auto simp: two_clients_def two_homes as_usize_def)
qed

end
