(* ===== verification/Observability.thy ===== *)
theory Observability
  imports Shard Rust_Strings
begin

text \<open>
  \<open>observability\<close>: the server's counters, their aggregation over the shards, the page of
  metrics with its HTTP response, and the two health checks. Every counter of a page is
  loaded once, so one value per counter and shard stands for any interleaving of the loads.
\<close>

section \<open>Counters (\<open>metrics.rs\<close>)\<close>

record global_metrics =
  uptime_start :: instant
  connections_total :: u64
  connections_active :: usize
  commands_total :: u64
  command_errors_total :: u64

definition GlobalMetrics_new :: "instant \<Rightarrow> global_metrics" where
  "GlobalMetrics_new now =
     \<lparr>uptime_start = now, connections_total = 0, connections_active = 0, commands_total = 0,
      command_errors_total = 0\<rparr>"

definition global_uptime_seconds :: "instant \<Rightarrow> global_metrics \<Rightarrow> nat" where
  "global_uptime_seconds now g = as_secs (duration_since now (uptime_start g))"

record aggregated_metrics =
  total_commands :: u64
  total_keys :: usize
  total_memory :: usize
  total_expired :: u64

text \<open>The loop of \<open>aggregate_shard_metrics\<close>; its four additions are checked in a debug build.\<close>

fun aggregate_loop :: "bool \<Rightarrow> shard_metrics list \<Rightarrow> aggregated_metrics \<Rightarrow> aggregated_metrics run" where
  "aggregate_loop checks [] a = Ok a"
| "aggregate_loop checks (m # ms) a =
     and_then (usize_add checks (total_commands a) (commands_processed m)) (\<lambda>c.
     and_then (usize_add checks (total_keys a) (key_count m)) (\<lambda>k.
     and_then (usize_add checks (total_memory a) (memory_bytes m)) (\<lambda>b.
     and_then (usize_add checks (total_expired a) (keys_expired m)) (\<lambda>e.
       aggregate_loop checks ms
         \<lparr>total_commands = c, total_keys = k, total_memory = b, total_expired = e\<rparr>))))"

definition aggregate_shard_metrics :: "bool \<Rightarrow> shard_metrics list \<Rightarrow> aggregated_metrics run" where
  "aggregate_shard_metrics checks ms =
     aggregate_loop checks ms
       \<lparr>total_commands = 0, total_keys = 0, total_memory = 0, total_expired = 0\<rparr>"

section \<open>Health (\<open>health.rs\<close>)\<close>

definition SHARD_INITIALIZING :: byte where "SHARD_INITIALIZING = 0"
definition SHARD_READY :: byte where "SHARD_READY = 1"
definition SHARD_FAILED :: byte where "SHARD_FAILED = 2"

text \<open>The loops over the numbered shards; \<open>i\<close> is the number of the first one.\<close>

fun health_loop :: "nat \<Rightarrow> byte list \<Rightarrow> bytes" where
  "health_loop i [] = ascii ''OK''"
| "health_loop i (status # rest) =
     (if status = SHARD_FAILED then ascii ''ERR shard '' @ dec_nat i @ ascii '' failed''
      else health_loop (i + 1) rest)"

definition health_check_handler :: "byte list \<Rightarrow> bytes" where
  "health_check_handler shard_status = health_loop 0 shard_status"

fun readiness_loop :: "nat \<Rightarrow> byte list \<Rightarrow> bytes" where
  "readiness_loop i [] = ascii ''READY''"
| "readiness_loop i (status # rest) =
     (if status \<noteq> SHARD_READY then ascii ''ERR shard '' @ dec_nat i @ ascii '' not ready''
      else readiness_loop (i + 1) rest)"

definition readiness_check_handler :: "bool \<Rightarrow> byte list \<Rightarrow> bytes" where
  "readiness_check_handler snapshots_loaded shard_status =
     (if \<not> snapshots_loaded then ascii ''ERR loading snapshots'' else readiness_loop 0 shard_status)"

section \<open>The page of metrics (\<open>prometheus.rs\<close>)\<close>

text \<open>\<open>"# HELP name help\n"\<close> and \<open>"# TYPE name kind\n"\<close>; 10 is the line feed, 32 the blank.\<close>

definition help_and_type :: "string \<Rightarrow> string \<Rightarrow> string \<Rightarrow> bytes" where
  "help_and_type name help kind =
     ascii ''# HELP '' @ ascii name @ [32] @ ascii help @ [10] @
     ascii ''# TYPE '' @ ascii name @ [32] @ ascii kind @ [10]"

definition sample :: "bytes \<Rightarrow> nat \<Rightarrow> bytes" where
  "sample name n = name @ [32] @ dec_nat n @ [10]"

text \<open>\<open>name{shard="i"}\<close>; 34 is the quotation mark.\<close>

definition shard_label :: "string \<Rightarrow> nat \<Rightarrow> bytes" where
  "shard_label name i = ascii name @ ascii ''{shard='' @ [34] @ dec_nat i @ [34] @ ascii ''}''"

definition shard_samples :: "string \<Rightarrow> (shard_metrics \<Rightarrow> u64) \<Rightarrow> shard_metrics list \<Rightarrow> bytes" where
  "shard_samples name counter shards =
     concat (map (\<lambda>(i, m). sample (shard_label name i) (unat (counter m))) (enumerate 0 shards))"

definition format_prometheus_metrics :: "instant \<Rightarrow> global_metrics \<Rightarrow> shard_metrics list \<Rightarrow> bytes" where
  "format_prometheus_metrics now g shards =
     help_and_type ''rsdragonfly_uptime_seconds'' ''Server uptime in seconds'' ''gauge'' @
     sample (ascii ''rsdragonfly_uptime_seconds'') (global_uptime_seconds now g) @
     help_and_type ''rsdragonfly_connections_active'' ''Active client connections'' ''gauge'' @
     sample (ascii ''rsdragonfly_connections_active'') (unat (connections_active g)) @
     help_and_type ''rsdragonfly_connections_total'' ''Total connections accepted'' ''counter'' @
     sample (ascii ''rsdragonfly_connections_total'') (unat (connections_total g)) @
     help_and_type ''rsdragonfly_shard_commands_total'' ''Commands processed per shard'' ''counter'' @
     shard_samples ''rsdragonfly_shard_commands_total'' commands_processed shards @
     help_and_type ''rsdragonfly_shard_keys'' ''Current key count per shard'' ''gauge'' @
     shard_samples ''rsdragonfly_shard_keys'' key_count shards @
     help_and_type ''rsdragonfly_shard_memory_bytes'' ''Memory usage per shard'' ''gauge'' @
     shard_samples ''rsdragonfly_shard_memory_bytes'' memory_bytes shards @
     help_and_type ''rsdragonfly_shard_keys_expired_total'' ''Keys expired per shard'' ''counter'' @
     shard_samples ''rsdragonfly_shard_keys_expired_total'' keys_expired shards @
     help_and_type ''rsdragonfly_shard_snapshots_written_total'' ''Snapshots written per shard'' ''counter'' @
     shard_samples ''rsdragonfly_shard_snapshots_written_total'' snapshots_written shards @
     help_and_type ''rsdragonfly_shard_snapshot_write_errors_total'' ''Snapshot write errors per shard'' ''counter'' @
     shard_samples ''rsdragonfly_shard_snapshot_write_errors_total'' snapshot_write_errors shards"

text \<open>The bytes \<open>handle_metrics_request\<close> writes to the socket, whatever the client sent.\<close>

definition handle_metrics_request :: "instant \<Rightarrow> global_metrics \<Rightarrow> shard_metrics list \<Rightarrow> bytes" where
  "handle_metrics_request now g shards =
     (let metrics_text = format_prometheus_metrics now g shards
      in ascii ''HTTP/1.1 200 OK'' @ crlf @
         ascii ''Content-Type: text/plain; version=0.0.4'' @ crlf @
         ascii ''Content-Length: '' @ dec_nat (length metrics_text) @ crlf @ crlf @ metrics_text)"

section \<open>A client\<close>

text \<open>
  How a scraper reads the response: the header lines up to the empty one, then as many bytes
  as \<open>Content-Length\<close> says; in the body it skips the comments and takes of every other line
  the number after the last blank, under the name before it.
\<close>

definition this_line :: "bytes \<Rightarrow> bytes" where
  "this_line bs = takeWhile (\<lambda>c. c \<noteq> 10) bs"

definition next_lines :: "bytes \<Rightarrow> bytes" where
  "next_lines bs = tl (dropWhile (\<lambda>c. c \<noteq> 10) bs)"

lemma length_next_lines [simp]: "bs \<noteq> [] \<Longrightarrow> length (next_lines bs) < length bs"
  using length_dropWhile_le [of "\<lambda>c. c \<noteq> 10" bs]
  by (cases bs) (auto simp: next_lines_def less_Suc_eq_le intro: order_trans [OF diff_le_self])

definition read_nat :: "bytes \<Rightarrow> nat" where
  "read_nat bs = foldl (\<lambda>n b. 10 * n + (unat b - 48)) 0 bs"

definition scrape_line :: "bytes \<Rightarrow> (bytes \<times> nat) list" where
  "scrape_line l =
     (if l \<noteq> [] \<and> hd l = 35 then []
      else let digits = rev (takeWhile (\<lambda>c. c \<noteq> 32) (rev l))
           in [(take (length l - length digits - 1) l, read_nat digits)])"

function scrape :: "bytes \<Rightarrow> (bytes \<times> nat) list" where
  "scrape bs = (if bs = [] then [] else scrape_line (this_line bs) @ scrape (next_lines bs))"
  by pat_completeness auto
termination
  by (relation "measure length") auto

definition content_length :: "bytes \<Rightarrow> nat option" where
  "content_length l =
     (let name = ascii ''Content-Length: ''
      in if take (length name) l = name then Some (read_nat (butlast (drop (length name) l))) else None)"

function http_body :: "nat option \<Rightarrow> bytes \<Rightarrow> bytes option" where
  "http_body n bs =
     (if bs = [] then None
      else if this_line bs = [13] then
        (if n = Some (length (next_lines bs)) then Some (next_lines bs) else None)
      else http_body (case content_length (this_line bs) of None \<Rightarrow> n | Some m \<Rightarrow> Some m) (next_lines bs))"
  by pat_completeness auto
termination
  by (relation "measure (length o snd)") auto

declare scrape.simps [simp del] http_body.simps [simp del]

definition scrape_response :: "bytes \<Rightarrow> (bytes \<times> nat) list option" where
  "scrape_response response = map_option scrape (http_body None response)"

end
