(* ===== verification/Observability_Properties.thy ===== *)
theory Observability_Properties
  imports Observability
begin

text \<open>
  What the observability functions report: the health checks name the first shard at fault,
  the aggregated counters are the sums, and a scraper reads from the response exactly the
  values of the counters.
\<close>

section \<open>Health checks\<close>

lemma health_loop_eq:
  "health_loop i st =
     (if SHARD_FAILED \<notin> set st then ascii ''OK''
      else ascii ''ERR shard '' @ dec_nat (i + length (takeWhile (\<lambda>x. x \<noteq> SHARD_FAILED) st)) @ ascii '' failed'')"
  by (induction st arbitrary: i) (auto simp del: ascii_Cons)

lemma readiness_loop_eq:
  "readiness_loop i st =
     (if set st \<subseteq> {SHARD_READY} then ascii ''READY''
      else ascii ''ERR shard '' @ dec_nat (i + length (takeWhile (\<lambda>x. x = SHARD_READY) st)) @ ascii '' not ready'')"
  by (induction st arbitrary: i) (auto simp del: ascii_Cons)

lemma least_not:
  assumes "\<not> (\<forall>x\<in>set xs. P x)"
  shows "(LEAST i. i < length xs \<and> \<not> P (xs ! i)) = length (takeWhile P xs)"
proof (rule Least_equality)
  have "length (takeWhile P xs) < length xs"
    using assms by (metis length_takeWhile_le nat_less_le takeWhile_eq_all_conv takeWhile_eq_take take_all order_refl)
  then show "length (takeWhile P xs) < length xs \<and> \<not> P (xs ! length (takeWhile P xs))"
    using nth_length_takeWhile by blast
  show "length (takeWhile P xs) \<le> i" if "i < length xs \<and> \<not> P (xs ! i)" for i
    using that takeWhile_nth [of i P xs] nth_mem [of i "takeWhile P xs"] set_takeWhileD [of "xs ! i" P xs]
    by (metis not_le_imp_less)
qed

text \<open>The health check reports the first failed shard and says
  OK when there is none; the readiness check reports the loading of snapshots first, then the
  first shard that is not ready, and says READY exactly when all of them are.\<close>

theorem checks_name_the_first_shard:
  "health_check_handler st =
     (if SHARD_FAILED \<notin> set st then ascii ''OK''
      else ascii ''ERR shard '' @ dec_nat (LEAST i. i < length st \<and> st ! i = SHARD_FAILED) @ ascii '' failed'') \<and>
   readiness_check_handler loaded st =
     (if \<not> loaded then ascii ''ERR loading snapshots''
      else if set st \<subseteq> {SHARD_READY} then ascii ''READY''
      else ascii ''ERR shard '' @ dec_nat (LEAST i. i < length st \<and> st ! i \<noteq> SHARD_READY) @ ascii '' not ready'')"
proof -
  have "SHARD_FAILED \<in> set st \<Longrightarrow>
      (LEAST i. i < length st \<and> st ! i = SHARD_FAILED) = length (takeWhile (\<lambda>x. x \<noteq> SHARD_FAILED) st)"
    using least_not [of st "\<lambda>x. x \<noteq> SHARD_FAILED"] by simp
  moreover have "\<not> set st \<subseteq> {SHARD_READY} \<Longrightarrow>
      (LEAST i. i < length st \<and> st ! i \<noteq> SHARD_READY) = length (takeWhile (\<lambda>x. x = SHARD_READY) st)"
    using least_not [of st "\<lambda>x. x = SHARD_READY"] by auto
  ultimately show ?thesis
    by (simp add: health_check_handler_def readiness_check_handler_def health_loop_eq readiness_loop_eq
        del: ascii_Cons)
qed

section \<open>Aggregation\<close>

definition sum_counter :: "(shard_metrics \<Rightarrow> u64) \<Rightarrow> shard_metrics list \<Rightarrow> nat" where
  "sum_counter f ms = (\<Sum>m\<leftarrow>ms. unat (f m))"

lemma sum_counter_simps [simp]:
  "sum_counter f [] = 0" "sum_counter f (m # ms) = unat (f m) + sum_counter f ms"
  by (simp_all add: sum_counter_def)

definition sums_fit :: "shard_metrics list \<Rightarrow> aggregated_metrics \<Rightarrow> bool" where
  "sums_fit ms a \<longleftrightarrow>
     unat (total_commands a) + sum_counter commands_processed ms < 2 ^ 64 \<and>
     unat (total_keys a) + sum_counter key_count ms < 2 ^ 64 \<and>
     unat (total_memory a) + sum_counter memory_bytes ms < 2 ^ 64 \<and>
     unat (total_expired a) + sum_counter keys_expired ms < 2 ^ 64"

definition plus_sums :: "shard_metrics list \<Rightarrow> aggregated_metrics \<Rightarrow> aggregated_metrics" where
  "plus_sums ms a =
     \<lparr>total_commands = total_commands a + word_of_nat (sum_counter commands_processed ms),
      total_keys = total_keys a + word_of_nat (sum_counter key_count ms),
      total_memory = total_memory a + word_of_nat (sum_counter memory_bytes ms),
      total_expired = total_expired a + word_of_nat (sum_counter keys_expired ms)\<rparr>"

lemma unat_plus_less: "unat a + unat b < 2 ^ 64 \<Longrightarrow> unat (a + b) = unat a + unat b" for a b :: usize
  by (subst unat_add_lem [THEN iffD1]) auto

lemma aggregate_loop_eq:
  "aggregate_loop checks ms a =
     (if checks \<and> \<not> sums_fit ms a then Panic Arith_Overflow else Ok (plus_sums ms a))"
proof (induction ms arbitrary: a)
  case Nil
  have "sums_fit [] a"
    using unat_less_64 by (simp add: sums_fit_def)
  then show ?case
    by (cases a) (simp add: plus_sums_def)
next
  case (Cons m ms)
  let ?a = "\<lparr>total_commands = total_commands a + commands_processed m, total_keys = total_keys a + key_count m,
     total_memory = total_memory a + memory_bytes m, total_expired = total_expired a + keys_expired m\<rparr>"
  have sums: "plus_sums ms ?a = plus_sums (m # ms) a"
    by (simp add: plus_sums_def algebra_simps)
  show ?case
  proof (cases "checks \<and> (2 ^ 64 \<le> unat (total_commands a) + unat (commands_processed m) \<or>
      2 ^ 64 \<le> unat (total_keys a) + unat (key_count m) \<or>
      2 ^ 64 \<le> unat (total_memory a) + unat (memory_bytes m) \<or>
      2 ^ 64 \<le> unat (total_expired a) + unat (keys_expired m))")
    case True
    then have "\<not> sums_fit (m # ms) a"
      by (auto simp: sums_fit_def)
    with True show ?thesis
      by (auto simp: usize_add_def)
  next
    case False
    have "sums_fit ms ?a = sums_fit (m # ms) a" if "checks"
      using False that by (simp add: sums_fit_def unat_plus_less not_le add.assoc)
    with False sums Cons [of ?a] show ?thesis
      by (auto simp: usize_add_def)
  qed
qed

text \<open>Aggregation gives the sums of the four counters over the shards; when
  one of the sums exceeds 64 bits a build with overflow checks panics, any other wraps.\<close>

theorem aggregate_totals:
  "aggregate_shard_metrics checks ms =
     (if checks \<and> (\<exists>f\<in>{commands_processed, key_count, memory_bytes, keys_expired}. 2 ^ 64 \<le> (\<Sum>m\<leftarrow>ms. unat (f m)))
      then Panic Arith_Overflow
      else Ok \<lparr>total_commands = word_of_nat (\<Sum>m\<leftarrow>ms. unat (commands_processed m)),
               total_keys = word_of_nat (\<Sum>m\<leftarrow>ms. unat (key_count m)),
               total_memory = word_of_nat (\<Sum>m\<leftarrow>ms. unat (memory_bytes m)),
               total_expired = word_of_nat (\<Sum>m\<leftarrow>ms. unat (keys_expired m))\<rparr>)"
  unfolding aggregate_shard_metrics_def aggregate_loop_eq
  by (simp add: sums_fit_def plus_sums_def sum_counter_def not_less de_Morgan_conj)

section \<open>Scraping\<close>

lemma lf_lines [simp]:
  assumes "10 \<notin> set l"
  shows "this_line (l @ 10 # bs) = l" and "next_lines (l @ 10 # bs) = bs"
proof -
  have "\<forall>c\<in>set l. c \<noteq> 10"
    using assms by blast
  then show "this_line (l @ 10 # bs) = l" "next_lines (l @ 10 # bs) = bs"
    by (simp_all add: this_line_def next_lines_def takeWhile_append2 dropWhile_append2)
qed

lemma scrape_Nil [simp]: "scrape [] = []"
  by (simp add: scrape.simps)

lemma scrape_Cons: "10 \<notin> set l \<Longrightarrow> scrape (l @ 10 # bs) = scrape_line l @ scrape bs"
  by (subst scrape.simps) simp

lemma scrape_two_lines:
  "10 \<notin> set l \<Longrightarrow> 10 \<notin> set l' \<Longrightarrow> scrape (l @ 10 # l' @ 10 # bs) = scrape_line l @ scrape_line l' @ scrape bs"
  by (simp add: scrape_Cons)

lemma read_nat_dec [simp]: "read_nat (dec_nat n) = n"
proof (induction n rule: dec_nat.induct)
  case (1 n)
  have "read_nat (bs @ [digit_byte (n mod 10)]) = 10 * read_nat bs + n mod 10" for bs
    by (simp add: read_nat_def unat_digit)
  with 1 show ?case
    by (subst dec_nat.simps) (auto simp: read_nat_def)
qed

lemma dec_nat_plain [simp]: "10 \<notin> set (dec_nat n)" "32 \<notin> set (dec_nat n)" "13 \<notin> set (dec_nat n)"
  using dec_nat_digits [of 10 n] dec_nat_digits [of 32 n] dec_nat_digits [of 13 n] by auto

lemma scrape_line_sample:
  assumes "name \<noteq> []" and "hd name \<noteq> 35"
  shows "scrape_line (name @ 32 # dec_nat n) = [(name, n)]"
proof -
  have "\<forall>c\<in>set (rev (dec_nat n)). c \<noteq> 32"
    by (metis dec_nat_plain(2) set_rev)
  then have "takeWhile (\<lambda>c. c \<noteq> 32) (rev (dec_nat n) @ 32 # rev name) = rev (dec_nat n)"
    by (subst takeWhile_append2) auto
  with assms show ?thesis
    by (simp add: scrape_line_def)
qed

lemma scrape_sample:
  assumes "name \<noteq> []" and "hd name \<noteq> 35" and "10 \<notin> set name"
  shows "scrape (sample name n @ bs) = (name, n) # scrape bs"
  using scrape_Cons [of "name @ 32 # dec_nat n" bs] assms scrape_line_sample [OF assms(1,2)]
  by (simp add: sample_def)

lemma scrape_help:
  assumes "10 \<notin> set (ascii name)" and "10 \<notin> set (ascii help)" and "10 \<notin> set (ascii kind)"
  shows "scrape (help_and_type name help kind @ bs) = scrape bs"
proof -
  have "scrape ((ascii ''# HELP '' @ ascii name @ 32 # ascii help) @ 10 # (ascii ''# TYPE '' @ ascii name @ 32 # ascii kind) @ 10 # bs) =
      scrape_line (ascii ''# HELP '' @ ascii name @ 32 # ascii help) @
      scrape_line (ascii ''# TYPE '' @ ascii name @ 32 # ascii kind) @ scrape bs"
    by (rule scrape_two_lines) (use assms in simp_all)
  then show ?thesis
    by (simp add: help_and_type_def scrape_line_def)
qed

text \<open>What a page says of one counter of the shards.\<close>

definition shard_values :: "string \<Rightarrow> (shard_metrics \<Rightarrow> u64) \<Rightarrow> shard_metrics list \<Rightarrow> (bytes \<times> nat) list" where
  "shard_values name counter shards =
     map (\<lambda>(i, m). (shard_label name i, unat (counter m))) (enumerate 0 shards)"

lemma scrape_shard_samples:
  assumes "ascii name \<noteq> []" and "hd (ascii name) \<noteq> 35" and "10 \<notin> set (ascii name)"
  shows "scrape (shard_samples name counter shards @ bs) = shard_values name counter shards @ scrape bs"
proof -
  have label: "hd (shard_label name i) \<noteq> 35" "shard_label name i \<noteq> []" "10 \<notin> set (shard_label name i)" for i
    using assms by (simp_all add: shard_label_def)
  have "scrape (concat (map (\<lambda>(i, m). sample (shard_label name i) (unat (counter m))) ims) @ bs) =
      map (\<lambda>(i, m). (shard_label name i, unat (counter m))) ims @ scrape bs" for ims
    by (induction ims) (auto simp: scrape_sample label)
  then show ?thesis
    by (simp add: shard_samples_def shard_values_def)
qed

definition page_values :: "instant \<Rightarrow> global_metrics \<Rightarrow> shard_metrics list \<Rightarrow> (bytes \<times> nat) list" where
  "page_values now g shards =
     [(ascii ''rsdragonfly_uptime_seconds'', global_uptime_seconds now g),
      (ascii ''rsdragonfly_connections_active'', unat (connections_active g)),
      (ascii ''rsdragonfly_connections_total'', unat (connections_total g))] @
     shard_values ''rsdragonfly_shard_commands_total'' commands_processed shards @
     shard_values ''rsdragonfly_shard_keys'' key_count shards @
     shard_values ''rsdragonfly_shard_memory_bytes'' memory_bytes shards @
     shard_values ''rsdragonfly_shard_keys_expired_total'' keys_expired shards @
     shard_values ''rsdragonfly_shard_snapshots_written_total'' snapshots_written shards @
     shard_values ''rsdragonfly_shard_snapshot_write_errors_total'' snapshot_write_errors shards"

lemma scrape_page: "scrape (format_prometheus_metrics now g shards) = page_values now g shards"
  unfolding format_prometheus_metrics_def page_values_def
  using scrape_shard_samples [of "''rsdragonfly_shard_snapshot_write_errors_total''" snapshot_write_errors shards "[]"]
  by (simp add: scrape_help scrape_sample scrape_shard_samples del: append_assoc)

lemma http_header_line:
  "10 \<notin> set l \<Longrightarrow> l \<noteq> [13] \<Longrightarrow>
   http_body n (l @ 10 # bs) = http_body (case content_length l of None \<Rightarrow> n | Some m \<Rightarrow> Some m) bs"
  by (subst http_body.simps) simp

lemma http_blank_line: "http_body (Some (length bs)) (13 # 10 # bs) = Some bs"
  using lf_lines [of "[13]" bs] by (subst http_body.simps) simp

lemma http_ignored_line:
  "10 \<notin> set l \<Longrightarrow> l \<noteq> [13] \<Longrightarrow> content_length l = None \<Longrightarrow> http_body n (l @ 10 # bs) = http_body n bs"
  by (subst http_header_line) simp_all

lemma fixed_header:
  "ascii ''HTTP/1.1 200 OK'' @ [13] \<noteq> [13]" "ascii ''Content-Type: text/plain; version=0.0.4'' @ [13] \<noteq> [13]"
  "10 \<notin> set (ascii ''HTTP/1.1 200 OK'' @ [13])" "content_length (ascii ''HTTP/1.1 200 OK'' @ [13]) = None"
  "10 \<notin> set (ascii ''Content-Type: text/plain; version=0.0.4'' @ [13])"
  "content_length (ascii ''Content-Type: text/plain; version=0.0.4'' @ [13]) = None"
  by (simp_all add: content_length_def)

lemma http_length_line:
  "http_body n ((ascii ''Content-Length: '' @ dec_nat m @ [13]) @ 10 # bs) = http_body (Some m) bs"
  by (subst http_header_line) (simp_all add: content_length_def Let_def butlast_append)

lemma scraped_page:
  "scrape_response (handle_metrics_request now g shards) = Some (page_values now g shards)"
proof -
  let ?page = "format_prometheus_metrics now g shards"
  have "handle_metrics_request now g shards =
      (ascii ''HTTP/1.1 200 OK'' @ [13]) @ 10 # (ascii ''Content-Type: text/plain; version=0.0.4'' @ [13]) @ 10 #
      (ascii ''Content-Length: '' @ dec_nat (length ?page) @ [13]) @ 10 # 13 # 10 # ?page"
    by (simp add: handle_metrics_request_def Let_def)
  also have "http_body None \<dots> = Some ?page"
    by (simp only: http_ignored_line [OF fixed_header(3,1,4)] http_ignored_line [OF fixed_header(5,2,6)]
        http_length_line http_blank_line)
  finally show ?thesis
    by (simp add: scrape_response_def scrape_page)
qed

text \<open>C39 (metrics_page_scraped). Whatever the counters, a scraper that believes the header reads
  from the response the whole page, and from the page exactly the value of every counter, in
  order, under its name and, for the shards, the number of the shard.\<close>

theorem metrics_page_scraped:
  "scrape_response (handle_metrics_request now g shards) = Some (page_values now g shards)"
  by (rule scraped_page)

end
