(* ===== verification/Server.thy ===== *)
theory Server
  imports Worker_Properties Observability
begin

text \<open>
  \<open>server.rs\<close>: the start of the server with its writers, workers and counters, the phases of
  \<open>run\<close> and \<open>shutdown\<close>, and the whole running system as a step relation in which the
  workers and writers of all shards interleave over one snapshot directory. A worker's
  channel is open while anyone holds the senders: the server itself, the connection handler
  that \<open>run\<close> makes from a clone, or the task of a connection, which has a clone of its own.
\<close>

section \<open>Configuration\<close>

record args =
  arg_port :: u16
  arg_bind :: bytes
  arg_snapshot_dir :: bytes
  arg_log_level :: bytes
  arg_cpu_pinning :: bool

definition default_args :: args where
  "default_args =
     \<lparr>arg_port = 6379, arg_bind = ascii ''0.0.0.0'', arg_snapshot_dir = ascii ''./data'',
      arg_log_level = ascii ''info'', arg_cpu_pinning = False\<rparr>"

record config =
  port :: u16
  bind_addr :: bytes
  snapshot_dir :: bytes
  log_level :: bytes
  cpu_pinning :: bool

definition Config_from_args :: "args \<Rightarrow> config" where
  "Config_from_args a =
     \<lparr>port = arg_port a, bind_addr = arg_bind a, snapshot_dir = arg_snapshot_dir a,
      log_level = arg_log_level a, cpu_pinning = arg_cpu_pinning a\<rparr>"

section \<open>State\<close>

text \<open>\<open>Server\<close>; the vector of senders is counted, its drop is part of the system's state.\<close>

record server_state =
  server_config :: config
  senders :: nat
  server_metrics :: global_metrics
  exported_metrics :: "shard_metrics list"

text \<open>Where \<open>run\<close> is.\<close>

datatype run_phase =
    Binding                    \<comment> \<open>the listener is not bound yet\<close>
  | Accepting                  \<comment> \<open>the \<open>select!\<close> of the handler and the signal\<close>
  | Draining                   \<comment> \<open>\<open>shutdown\<close>: the drain time runs\<close>
  | Awaiting_snapshots         \<comment> \<open>\<open>shutdown\<close>: the two seconds for the final snapshots run\<close>
  | Returned

record system =
  server :: server_state
  nodes :: "nat \<Rightarrow> node"
  disk :: files
  run_at :: run_phase
  own_channels :: bool
  handler_channels :: bool
  connections :: nat

text \<open>The worker and the writer of a shard work on the shared directory.\<close>

definition on_disk :: "files \<Rightarrow> node \<Rightarrow> node" where
  "on_disk d n = n\<lparr>saver := (saver n)\<lparr>files := d\<rparr>\<rparr>"

definition nth_shard :: "nat \<Rightarrow> shard_id" where
  "nth_shard i = ShardId (word_of_nat i)"

section \<open>Start\<close>

text \<open>
  What the libraries give: whether \<open>create_dir_all\<close> succeeds, what the cleanup finds, the clock
  readings of the server's counters, the exported counters and the workers.
\<close>

record surroundings =
  dir_created :: bool
  listing :: "bytes list option"
  removable :: "bytes \<Rightarrow> bool"
  server_clock :: instant
  metrics_clock :: "nat \<Rightarrow> instant"
  worker_clock :: "nat \<Rightarrow> instant"

definition Server_new :: "args \<Rightarrow> surroundings \<Rightarrow> files \<Rightarrow> system run" where
  "Server_new a env fs =
     (if \<not> dir_created env then Panic Unwrap_Err
      else
        let fs' = cleanup_temp_files (listing env) (removable env) fs in
        Ok \<lparr>server = \<lparr>server_config = Config_from_args a, senders = SHARD_COUNT,
              server_metrics = GlobalMetrics_new (server_clock env),
              exported_metrics = map (\<lambda>i. ShardMetrics_new (metrics_clock env i)) [0..<SHARD_COUNT]\<rparr>,
            nodes = (\<lambda>i. started (worker_clock env i) (nth_shard i) fs'),
            disk = fs', run_at = Binding, own_channels = True, handler_channels = False,
            connections = 0\<rparr>)"

section \<open>The running system\<close>

text \<open>
  Steps of \<open>run\<close> and \<open>shutdown\<close>, of the connections' tasks, and of the tasks of every shard.
  \<open>handler\<close> is a local variable of \<open>run\<close>, so its clone lives until \<open>run\<close> returns. The
  channels close when the last clone is gone.
\<close>

inductive system_step :: "build \<Rightarrow> crates \<Rightarrow> system \<Rightarrow> system \<Rightarrow> bool" for b c where
  bound: "run_at s = Binding \<Longrightarrow>
     system_step b c s (s\<lparr>run_at := Accepting, handler_channels := True\<rparr>)"
| bind_fails: "run_at s = Binding \<Longrightarrow>
     system_step b c s (s\<lparr>run_at := Returned, own_channels := False\<rparr>)"
| accepted: "run_at s = Accepting \<Longrightarrow>
     system_step b c s (s\<lparr>connections := connections s + 1\<rparr>)"
| hung_up: "0 < connections s \<Longrightarrow>
     system_step b c s (s\<lparr>connections := connections s - 1\<rparr>)"
| interrupted: "run_at s = Accepting \<Longrightarrow>
     system_step b c s (s\<lparr>run_at := Draining\<rparr>)"
| drained: "run_at s = Draining \<Longrightarrow>
     system_step b c s (s\<lparr>run_at := Awaiting_snapshots, own_channels := False\<rparr>)"
| returned: "run_at s = Awaiting_snapshots \<Longrightarrow>
     system_step b c s (s\<lparr>run_at := Returned, handler_channels := False\<rparr>)"
| channels_close: "\<not> own_channels s \<Longrightarrow> \<not> handler_channels s \<Longrightarrow> connections s = 0 \<Longrightarrow>
     system_step b c s (s\<lparr>nodes := (\<lambda>i. (nodes s i)\<lparr>senders_alive := False\<rparr>)\<rparr>)"
| shard_tasks: "i < SHARD_COUNT \<Longrightarrow> worker_step b c (on_disk (disk s) (nodes s i)) n \<Longrightarrow>
     senders_alive n = senders_alive (nodes s i) \<Longrightarrow>
     system_step b c s (s\<lparr>nodes := (nodes s)(i := n), disk := files (saver n)\<rparr>)"

inductive_cases system_stepE: "system_step b c s s'"

inductive system_reachable :: "build \<Rightarrow> crates \<Rightarrow> system \<Rightarrow> system \<Rightarrow> bool" for b c s0 where
  start: "system_reachable b c s0 s0"
| step: "system_reachable b c s0 s \<Longrightarrow> system_step b c s s' \<Longrightarrow> system_reachable b c s0 s'"

text \<open>The page the metrics exporter of the running server sends at time \<open>now\<close>.\<close>

definition exporter_page :: "instant \<Rightarrow> system \<Rightarrow> bytes" where
  "exporter_page now s =
     handle_metrics_request now (server_metrics (server s)) (exported_metrics (server s))"

section \<open>The invariant of the files\<close>

lemma nth_shard_inj: "i < SHARD_COUNT \<Longrightarrow> j < SHARD_COUNT \<Longrightarrow> nth_shard i = nth_shard j \<Longrightarrow> i = j"
  by (simp add: nth_shard_def SHARD_COUNT_def word_of_nat_eq_iff take_bit_nat_eq_self)

lemma temp_name_inj: "temp_name i = temp_name j \<longleftrightarrow> i = j"
  by (simp add: temp_name_def snapshot_name_inj)

lemma on_disk_simps [simp]:
  "state (on_disk d n) = state n" "phase (on_disk d n) = phase n" "senders_alive (on_disk d n) = senders_alive n"
  "files (saver (on_disk d n)) = d" "channel (saver (on_disk d n)) = channel (saver n)"
  "at (saver (on_disk d n)) = at (saver n)" "pending (saver (on_disk d n)) = pending (saver n)"
  by (simp_all add: on_disk_def pending_def)

lemma on_disk_same [simp]: "on_disk (files (saver n)) n = n"
  by (simp add: on_disk_def)

text \<open>The invariant of a node, the files found at the start being of no account.\<close>

definition node_ok :: "build \<Rightarrow> crates \<Rightarrow> shard_id \<Rightarrow> node \<Rightarrow> bool" where
  "node_ok b c i n \<longleftrightarrow> node_inv b c i (files (saver n)) n"

lemma node_ok_weaken: "node_inv b c i fs n \<Longrightarrow> node_ok b c i n"
  by (auto simp: node_ok_def node_inv_def saver_inv_def)

text \<open>The tasks of a shard touch its two files only.\<close>

lemma writer_files:
  "writer_step w w' \<Longrightarrow> \<forall>r\<in>set (pending w). req_shard r = i \<Longrightarrow> x \<notin> {temp_name i, snapshot_name i} \<Longrightarrow>
   files w' x = files w x"
  by (auto elim!: writer_stepE simp: pending_def temp_of_def final_of_def)

lemma worker_files:
  assumes "worker_step b c n n'" and "node_ok b c i n" and "x \<notin> {temp_name i, snapshot_name i}"
  shows "files (saver n') x = files (saver n) x"
  using assms
proof (induction rule: worker_step.induct)
  case (save n w)
  then have "\<forall>r\<in>set (pending (saver n)). req_shard r = i"
    by (simp add: node_ok_def node_inv_def saver_inv_def)
  from writer_files [OF save(1) this save(3)] show ?case
    by simp
qed (auto simp: ended_def with_channel_def)

lemma node_ok_other_disk:
  assumes "node_ok b c i (on_disk d n)" and "d' (temp_name i) = d (temp_name i)"
  shows "node_ok b c i (on_disk d' n)"
proof -
  have "\<forall>r\<in>set (pending (saver n)). req_shard r = i" and p: "progress (saver (on_disk d n))"
    using assms(1) by (simp_all add: node_ok_def node_inv_def saver_inv_def)
  then have "d' (temp_of r) = d (temp_of r)" if "holds (at (saver n)) = Some r" for r
    using that assms(2) by (simp add: pending_def temp_of_def)
  with p have "progress (saver (on_disk d' n))"
    by (auto simp: progress_def split: writer_at.splits)
  with assms(1) show ?thesis
    by (simp add: node_ok_def node_inv_def saver_inv_def)
qed

definition files_inv :: "build \<Rightarrow> crates \<Rightarrow> files \<Rightarrow> system \<Rightarrow> bool" where
  "files_inv b c fs s \<longleftrightarrow>
     (\<forall>i<SHARD_COUNT. node_ok b c (nth_shard i) (on_disk (disk s) (nodes s i))) \<and>
     (\<forall>j. disk s (snapshot_name j) = fs (snapshot_name j) \<or>
          (\<exists>bs. image_of b c j bs \<and> disk s (snapshot_name j) = Some bs))"

lemma files_inv_shard_tasks:
  assumes "files_inv b c fs s" and "crates_ok c" and "i < SHARD_COUNT"
    and "worker_step b c (on_disk (disk s) (nodes s i)) n"
  shows "files_inv b c fs (s\<lparr>nodes := (nodes s)(i := n), disk := files (saver n)\<rparr>)"
proof -
  let ?n = "on_disk (disk s) (nodes s i)"
  have old: "node_ok b c (nth_shard i) ?n"
    using assms(1,3) by (simp add: files_inv_def)
  have inv: "node_inv b c (nth_shard i) (disk s) n"
    using node_inv_step [OF assms(4) _ assms(2)] old by (simp add: node_ok_def)
  have "node_ok b c (nth_shard j) (on_disk (files (saver n)) (((nodes s)(i := n)) j))" if "j < SHARD_COUNT" for j
  proof (cases "j = i")
    case True
    then show ?thesis
      using node_ok_weaken [OF inv] by simp
  next
    case False
    then have "nth_shard j \<noteq> nth_shard i"
      using nth_shard_inj that assms(3) by blast
    then have "files (saver n) (temp_name (nth_shard j)) = disk s (temp_name (nth_shard j))"
      using worker_files [OF assms(4) old] by (simp add: temp_name_inj)
    with False that assms(1) show ?thesis
      by (auto simp: files_inv_def intro: node_ok_other_disk)
  qed
  moreover have "files (saver n) (snapshot_name j) = fs (snapshot_name j) \<or>
      (\<exists>bs. image_of b c j bs \<and> files (saver n) (snapshot_name j) = Some bs)" for j
    using inv assms(1) unfolding node_inv_def saver_inv_def files_inv_def by metis
  ultimately show ?thesis
    by (simp add: files_inv_def)
qed

lemma files_inv_step:
  assumes "system_step b c s s'" and "files_inv b c fs s" and "crates_ok c"
  shows "files_inv b c fs s'"
  using assms
proof (induction rule: system_step.induct)
  case (channels_close s)
  have "node_ok b c i (on_disk d (n\<lparr>senders_alive := False\<rparr>)) = node_ok b c i (on_disk d n)" for i d n
    by (simp add: node_ok_def node_inv_def on_disk_def)
  with channels_close show ?case
    by (simp add: files_inv_def)
next
  case (shard_tasks i s n)
  then show ?case
    by (intro files_inv_shard_tasks)
qed (auto simp: files_inv_def)

lemma files_inv_start:
  assumes "Server_new a env fs = Ok s" and "entry_size b < 2 ^ 32"
  shows "files_inv b c fs s"
proof -
  let ?fs = "cleanup_temp_files (listing env) (removable env) fs"
  have s: "disk s = ?fs" "nodes s = (\<lambda>i. started (worker_clock env i) (nth_shard i) ?fs)"
    using assms(1) by (auto simp: Server_new_def Let_def split: if_splits)
  have "?fs (snapshot_name j) = fs (snapshot_name j)" for j
  proof (cases "listing env")
    case None
    then show ?thesis by (simp add: cleanup_temp_files_def)
  next
    case (Some names)
    moreover have "extension (snapshot_name j) \<noteq> Some (ascii ''tmp'')"
      by (simp add: extension_snapshot)
    ultimately show ?thesis
      by (simp add: cleanup_result del: ascii_Cons)
  qed
  moreover have "on_disk ?fs (started t i ?fs) = started t i ?fs" for t i
    by (simp add: on_disk_def started_def)
  ultimately show ?thesis
    using node_inv_started [OF assms(2)] node_ok_weaken by (simp add: files_inv_def s) blast
qed

section \<open>The invariant of the phases\<close>

definition phases_inv :: "system \<Rightarrow> bool" where
  "phases_inv s \<longleftrightarrow>
     (run_at s = Binding \<longrightarrow> own_channels s) \<and>
     (run_at s \<in> {Accepting, Draining, Awaiting_snapshots} \<longrightarrow> handler_channels s) \<and>
     (run_at s \<noteq> Returned \<longrightarrow>
        (\<forall>i. senders_alive (nodes s i) \<and> phase (nodes s i) \<notin> {Closing, Down}))"

lemma open_channel_step:
  "worker_step b c n n' \<Longrightarrow> senders_alive n \<Longrightarrow> phase n \<notin> {Closing, Down} \<Longrightarrow> phase n' \<notin> {Closing, Down}"
  by (auto elim!: worker_stepE simp: ended_def with_channel_def)

lemma phases_inv_step: "system_step b c s s' \<Longrightarrow> phases_inv s \<Longrightarrow> phases_inv s'"
proof (induction rule: system_step.induct)
  case (channels_close s)
  then show ?case
    by (cases "run_at s") (auto simp: phases_inv_def)
next
  case (shard_tasks i s n)
  then have "phase n \<notin> {Closing, Down}" if "run_at s \<noteq> Returned"
    using open_channel_step [OF shard_tasks(2)] that by (simp add: phases_inv_def)
  with shard_tasks show ?case
    by (auto simp: phases_inv_def)
qed (auto simp: phases_inv_def)

lemma phases_inv_start: "Server_new a env fs = Ok s \<Longrightarrow> phases_inv s"
  by (auto simp: Server_new_def Let_def phases_inv_def started_def split: if_splits)

lemma server_never_changes: "system_step b c s s' \<Longrightarrow> server s' = server s"
  by (auto elim: system_stepE)

text \<open>Reachable states keep the invariants.\<close>

lemma reachable_invs:
  "system_reachable b c s0 s \<Longrightarrow> crates_ok c \<Longrightarrow> files_inv b c fs s0 \<Longrightarrow> files_inv b c fs s"
  "system_reachable b c s0 s \<Longrightarrow> phases_inv s0 \<Longrightarrow> phases_inv s"
  "system_reachable b c s0 s \<Longrightarrow> server s = server s0"
  by (induction rule: system_reachable.induct)
     (auto intro: files_inv_step phases_inv_step simp: server_never_changes)

end
