(* ===== verification/Server_Properties.thy ===== *)
theory Server_Properties
  imports Server Observability_Properties
begin

text \<open>
  The properties of the running server over all interleavings of its tasks: the snapshot
  files of all shards stay intact, the graceful shutdown does not reach the workers, and the
  metrics exporter never sees the counters of the shards.
\<close>

section \<open>A running server\<close>

lemma shard_values_numbers: "map snd (shard_values name counter ms) = map (\<lambda>m. unat (counter m)) ms"
proof -
  have "map snd (shard_values name counter ms) = map (\<lambda>m. unat (counter m)) (map snd (enumerate 0 ms))"
    unfolding shard_values_def map_map by (intro map_cong) auto
  then show ?thesis by simp
qed

definition demo_env :: surroundings where
  "demo_env = \<lparr>dir_created = True, listing = None, removable = (\<lambda>_. True), server_clock = 0,
     metrics_clock = (\<lambda>_. 0), worker_clock = (\<lambda>_. 0)\<rparr>"

lemma demo_server_starts: "\<exists>s. Server_new default_args demo_env (\<lambda>_. None) = Ok s \<and> run_at s = Binding"
  by (simp add: Server_new_def demo_env_def Let_def)

lemma demo_shutdown:
  "run_at s = Binding \<Longrightarrow> \<exists>s'. system_reachable b c s s' \<and> run_at s' = Awaiting_snapshots \<and> \<not> own_channels s'"
proof -
  assume s: "run_at s = Binding"
  let ?s1 = "s\<lparr>run_at := Accepting, handler_channels := True\<rparr>"
  let ?s2 = "?s1\<lparr>run_at := Draining\<rparr>"
  let ?s3 = "?s2\<lparr>run_at := Awaiting_snapshots, own_channels := False\<rparr>"
  have "system_reachable b c s ?s1"
    by (rule system_reachable.step [OF system_reachable.start system_step.bound [OF s]])
  then have "system_reachable b c s ?s2"
    by (rule system_reachable.step) (rule system_step.interrupted, simp)
  then have "system_reachable b c s ?s3"
    by (rule system_reachable.step) (rule system_step.drained, simp)
  moreover have "run_at ?s3 = Awaiting_snapshots" "\<not> own_channels ?s3"
    by simp_all
  ultimately show ?thesis
    by blast
qed

section \<open>Properties\<close>

text \<open>C4 (server_snapshots_intact). With the tasks of the 64 shards interleaved in any order over one
  directory, any system call failing and the shutdown at any moment, the snapshot file of
  every shard is the one found at the start or a complete image of a good state of this shard;
  the shards never write each other's files.\<close>

theorem server_snapshots_intact:
  assumes "Server_new a env fs = Ok s0" and "system_reachable b c s0 s"
    and "entry_size b < 2 ^ 32" and "crates_ok c"
  shows "disk s (snapshot_name i) = fs (snapshot_name i) \<or>
     (\<exists>sh now_s clk order bs. shard_ok b sh \<and> sid sh = i \<and> mset order = hm_entries (data sh) \<and>
        serialize_shard c now_s clk order sh = Ok bs \<and> disk s (snapshot_name i) = Some bs)"
proof -
  have "files_inv b c fs s"
    using reachable_invs(1) [OF assms(2,4) files_inv_start [OF assms(1,3)]] .
  then show ?thesis
    unfolding files_inv_def image_of_def by blast
qed

theorem server_snapshots_intact_witness:
  "\<exists>s :: system. run_at s = Awaiting_snapshots \<and>
     (disk s (snapshot_name (ShardId 7)) = None \<or>
      (\<exists>sh bs. shard_ok demo_build sh \<and> sid sh = ShardId 7 \<and> disk s (snapshot_name (ShardId 7)) = Some bs))"
proof -
  obtain s0 where s0: "Server_new default_args demo_env (\<lambda>_. None) = Ok s0" "run_at s0 = Binding"
    using demo_server_starts by blast
  obtain s where s: "system_reachable demo_build demo_crates s0 s" "run_at s = Awaiting_snapshots"
    using demo_shutdown [OF s0(2)] by blast
  have "entry_size demo_build < 2 ^ 32"
    by (simp add: demo_build_def)
  from server_snapshots_intact [OF s0(1) s(1) this demo_crates_ok(1), of "ShardId 7"] s(2)
  show ?thesis by blast
qed

text \<open>C37 (shutdown_waits_in_vain). Until \<open>run\<close> returns no worker sees its channel closed, whatever
  phase the shutdown is in: the handler keeps its clone of the senders during the two seconds
  for the final snapshots, so none of the workers begins its final snapshot in them.\<close>

theorem shutdown_waits_in_vain:
  assumes "Server_new a env fs = Ok s0" and "system_reachable b c s0 s" and "run_at s \<noteq> Returned"
  shows "senders_alive (nodes s i) \<and> phase (nodes s i) \<notin> {Closing, Down}"
  using reachable_invs(2) [OF assms(2) phases_inv_start [OF assms(1)]] assms(3)
  by (simp add: phases_inv_def)

theorem shutdown_waits_in_vain_witness:
  "\<exists>s :: system. run_at s = Awaiting_snapshots \<and> \<not> own_channels s \<and> senders_alive (nodes s 7) \<and> phase (nodes s 7) \<noteq> Closing"
proof -
  obtain s0 where s0: "Server_new default_args demo_env (\<lambda>_. None) = Ok s0" "run_at s0 = Binding"
    using demo_server_starts by blast
  obtain s where s: "system_reachable demo_build demo_crates s0 s" "run_at s = Awaiting_snapshots" "\<not> own_channels s"
    using demo_shutdown [OF s0(2)] by blast
  from s(2) have "run_at s \<noteq> Returned"
    by simp
  from shutdown_waits_in_vain [OF s0(1) s(1) this, of 7] s(2,3) show ?thesis
    by blast
qed

text \<open>C38 (exporter_never_sees_the_shards). Whatever the server has done, the page of its metrics
  exporter holds the uptime and, for the connections and for every counter of every shard, zero:
  the counters it was given are not those the shards and connections count in.\<close>

theorem exporter_never_sees_the_shards:
  assumes "Server_new a env fs = Ok s0" and "system_reachable b c s0 s"
  shows "\<exists>zs. scrape_response (exporter_page now s) =
       Some ((ascii ''rsdragonfly_uptime_seconds'', as_secs (duration_since now (server_clock env))) # zs) \<and>
     length zs = 2 + 6 * SHARD_COUNT \<and> snd ` set zs = {0}"
proof -
  have "server s = server s0"
    by (rule reachable_invs(3) [OF assms(2)])
  then have sv: "server_metrics (server s) = GlobalMetrics_new (server_clock env)"
    "exported_metrics (server s) = map (\<lambda>i. ShardMetrics_new (metrics_clock env i)) [0..<SHARD_COUNT]"
    using assms(1) by (auto simp: Server_new_def Let_def split: if_splits)
  have zero: "snd ` set (shard_values name counter (exported_metrics (server s))) = {0}"
    if "\<And>t. counter (ShardMetrics_new t) = 0" for name counter
  proof -
    have "map snd (shard_values name counter (exported_metrics (server s))) = replicate SHARD_COUNT 0"
      by (simp add: shard_values_numbers sv comp_def that map_replicate_const)
    then show ?thesis
      by (simp add: SHARD_COUNT_def flip: set_map)
  qed
  have len: "length (shard_values name counter (exported_metrics (server s))) = SHARD_COUNT" for name counter
    by (simp add: shard_values_def sv)
  let ?z = "\<lambda>name counter. shard_values name counter (exported_metrics (server s))"
  let ?zs = "[(ascii ''rsdragonfly_connections_active'', 0), (ascii ''rsdragonfly_connections_total'', 0)] @
     ?z ''rsdragonfly_shard_commands_total'' commands_processed @ ?z ''rsdragonfly_shard_keys'' key_count @
     ?z ''rsdragonfly_shard_memory_bytes'' memory_bytes @ ?z ''rsdragonfly_shard_keys_expired_total'' keys_expired @
     ?z ''rsdragonfly_shard_snapshots_written_total'' snapshots_written @
     ?z ''rsdragonfly_shard_snapshot_write_errors_total'' snapshot_write_errors"
  have "scrape_response (exporter_page now s) =
      Some ((ascii ''rsdragonfly_uptime_seconds'', as_secs (duration_since now (server_clock env))) # ?zs)"
    unfolding exporter_page_def scraped_page page_values_def
    by (simp add: sv GlobalMetrics_new_def global_uptime_seconds_def)
  moreover have "length ?zs = 2 + 6 * SHARD_COUNT"
    by (simp add: len)
  moreover have "snd ` set ?zs = {0}"
    using zero [of commands_processed] zero [of key_count] zero [of memory_bytes] zero [of keys_expired]
      zero [of snapshots_written] zero [of snapshot_write_errors]
    by (simp add: image_Un ShardMetrics_new_def)
  ultimately show ?thesis
    by blast
qed

theorem exporter_never_sees_the_shards_witness:
  "\<exists>(s :: system) zs. run_at s = Awaiting_snapshots \<and>
     scrape_response (exporter_page (from_secs 5) s) = Some ((ascii ''rsdragonfly_uptime_seconds'', 5) # zs) \<and>
     snd ` set zs = {0}"
proof -
  obtain s0 where s0: "Server_new default_args demo_env (\<lambda>_. None) = Ok s0" "run_at s0 = Binding"
    using demo_server_starts by blast
  obtain s where s: "system_reachable demo_build demo_crates s0 s" "run_at s = Awaiting_snapshots"
    using demo_shutdown [OF s0(2)] by blast
  have "as_secs (duration_since (from_secs 5) (server_clock demo_env)) = 5"
    by (simp add: demo_env_def duration_since_def as_secs_def from_secs_def)
  with exporter_never_sees_the_shards [OF s0(1) s(1), of "from_secs 5"] s(2) show ?thesis
    by metis
qed

end
