(* ===== verification/Progress.thy ===== *)
theory Progress
  imports Worker_Properties Messages
begin

text \<open>
  That the tasks get on: the writer's task comes to rest and saves what it was given, the
  worker serves every message its channel has taken, and once its senders are gone it drains
  the channel and ends. Well-foundedness needs no assumption; where a task chooses among
  several things that are ready, the runs are infinite sequences of steps, and fairness is stated.
\<close>

section \<open>Fair loops\<close>

text \<open>
  A loop among whose steps some, its turns, bring it nearer to a goal: the other steps take
  nothing back. \<open>inv\<close> is what is known of the states. An endless run in which turns come again
  and again until the goal is met meets it.
\<close>

locale fair_loop =
  fixes step :: "'s \<Rightarrow> 's \<Rightarrow> bool"
    and inv :: "'s \<Rightarrow> bool"
    and goal :: "'s \<Rightarrow> bool"
    and turn :: "'s \<Rightarrow> 's \<Rightarrow> bool"
    and work :: "'s \<Rightarrow> nat"
  assumes inv_step: "step s s' \<Longrightarrow> inv s \<Longrightarrow> inv s'"
    and work_step: "step s s' \<Longrightarrow> inv s \<Longrightarrow> \<not> goal s \<Longrightarrow> \<not> goal s' \<Longrightarrow> work s' \<le> work s"
    and work_turn: "step s s' \<Longrightarrow> inv s \<Longrightarrow> \<not> goal s \<Longrightarrow> \<not> goal s' \<Longrightarrow> turn s s' \<Longrightarrow> work s' < work s"
begin

lemma run_inv: "\<forall>n. step (x n) (x (Suc n)) \<Longrightarrow> inv (x m) \<Longrightarrow> m \<le> n \<Longrightarrow> inv (x n)"
  by (rotate_tac 2, induction rule: dec_induct) (auto intro: inv_step)

lemma eventually_goal:
  assumes run: "\<forall>n. step (x n) (x (Suc n))" and "inv (x n)"
    and fair: "\<forall>k. \<not> goal (x k) \<longrightarrow> (\<exists>m\<ge>k. turn (x m) (x (Suc m)))"
  shows "\<exists>m\<ge>n. goal (x m)"
  using assms(2)
proof (induction "work (x n)" arbitrary: n rule: less_induct)
  case less
  show ?case
  proof (rule ccontr)
    assume "\<not> (\<exists>m\<ge>n. goal (x m))"
    then have never: "\<not> goal (x m)" if "n \<le> m" for m
      using that by blast
    note known = run_inv [OF run less.prems]
    have "work (x m) \<le> work (x n)" if "n \<le> m" for m
      using that
    proof (induction rule: dec_induct)
      case (step k)
      then show ?case
        using work_step [of "x k" "x (Suc k)"] run known never by (meson le_SucI order_trans)
    qed simp
    moreover obtain m where m: "n \<le> m" "turn (x m) (x (Suc m))"
      using fair never by blast
    moreover have "work (x (Suc m)) < work (x m)"
      using m work_turn run known never by (meson le_SucI)
    ultimately have "work (x (Suc m)) < work (x n)" "inv (x (Suc m))"
      using known by (auto intro: order_less_le_trans)
    with less.hyps never m(1) show False
      by (meson Suc_leD order_trans)
  qed
qed

end

section \<open>The writer's task\<close>

text \<open>The steps that are left at a program point, and in all.\<close>

fun steps_at :: "writer_at \<Rightarrow> nat" where
  "steps_at (Creating r) = length (req_data r) + 5"
| "steps_at (Writing r ys) = length ys + 4"
| "steps_at (Syncing r) = 3"
| "steps_at (Renaming r) = 2"
| "steps_at Waiting = 1"
| "steps_at Finished = 0"

definition writer_work :: "writer \<Rightarrow> nat" where
  "writer_work w = (\<Sum>r\<leftarrow>queued (channel w). length (req_data r) + 5) + steps_at (at w)"

lemma writer_work_less: "writer_step w w' \<Longrightarrow> writer_work w' < writer_work w"
proof (induction rule: writer_step.induct)
  case (call_fails w r ys)
  then show ?case by (auto simp: writer_work_def)
qed (simp_all add: writer_work_def)

lemma writer_stuck:
  "(\<nexists>w'. writer_step w w') \<longleftrightarrow>
   at w = Finished \<or> at w = Waiting \<and> queued (channel w) = [] \<and> sender_alive (channel w)"
proof (cases "at w")
  case Waiting
  then show ?thesis
    by (cases "queued (channel w)") (auto elim!: writer_stepE intro: writer_step.receive writer_step.disconnected)
next
  case Finished
  then show ?thesis by (auto elim!: writer_stepE)
qed (auto intro: writer_step.call_fails)

text \<open>A run of \<open>n\<close> steps.\<close>

lemma writer_run_bounded: "(writer_step ^^ n) w w' \<Longrightarrow> n + writer_work w' \<le> writer_work w"
proof (induction n arbitrary: w')
  case (Suc n)
  then obtain v where "(writer_step ^^ n) w v" "writer_step v w'"
    by auto
  with Suc.IH writer_work_less show ?case
    by fastforce
qed simp

text \<open>A step of which the system call, if it makes one, succeeds.\<close>

definition call_succeeds :: "writer \<Rightarrow> writer \<Rightarrow> bool" where
  "call_succeeds w w' \<longleftrightarrow>
     writer_step w w' \<and>
     (case at w of
        Creating r \<Rightarrow> at w' \<noteq> Waiting
      | Writing r ys \<Rightarrow> at w' \<noteq> Waiting
      | Syncing r \<Rightarrow> at w' \<noteq> Waiting
      | Renaming r \<Rightarrow> files w' (temp_of r) = None
      | _ \<Rightarrow> True)"

text \<open>What the task has still to save, or has saved last, for shard \<open>i\<close>.\<close>

definition due_image :: "shard_id \<Rightarrow> writer \<Rightarrow> bytes option" where
  "due_image i w =
     (case rev (filter (\<lambda>r. req_shard r = i) (pending w)) of
        [] \<Rightarrow> files w (snapshot_name i)
      | r # _ \<Rightarrow> Some (req_data r))"

lemma call_succeeds_keeps:
  assumes "call_succeeds w w'" and "progress w"
  shows "due_image i w' = due_image i w \<and> progress w'"
proof -
  have step: "writer_step w w'"
    using assms(1) by (simp add: call_succeeds_def)
  from step assms have "due_image i w' = due_image i w"
  proof (induction rule: writer_step.induct)
    case (call_fails w r ys)
    then show ?case
      by (auto simp: call_succeeds_def progress_def)
  qed (auto simp: due_image_def pending_def progress_def temp_of_def final_of_def snapshot_name_inj
      split: list.splits)
  with progress_step [OF step assms(2)] show ?thesis by simp
qed

lemma runs_keep:
  "call_succeeds\<^sup>*\<^sup>* w w' \<Longrightarrow> progress w \<Longrightarrow> due_image i w' = due_image i w \<and> progress w'"
  by (induction rule: rtranclp_induct) (use call_succeeds_keeps in auto)

lemma call_succeeds_enabled:
  assumes "writer_step w v" and "progress w"
  shows "\<exists>w'. call_succeeds w w'"
proof (cases "at w")
  case Waiting
  with assms(1) show ?thesis by (auto simp: call_succeeds_def)
next
  case (Creating r)
  then show ?thesis
    using writer_step.create_file [of w r] by (force simp: call_succeeds_def)
next
  case (Writing r ys)
  then obtain zs where "files w (temp_of r) = Some zs"
    using assms(2) by (auto simp: progress_def)
  with Writing show ?thesis
    using writer_step.write_some [of w r ys "[]" zs] writer_step.write_done [of w r]
    by (cases "ys = []") (force simp: call_succeeds_def)+
next
  case (Syncing r)
  then show ?thesis
    using writer_step.sync_file [of w r] by (force simp: call_succeeds_def)
next
  case (Renaming r)
  with assms(2) have "files w (temp_of r) = Some (req_data r)"
    by (simp add: progress_def)
  with Renaming show ?thesis
    using writer_step.rename_file [of w r "req_data r"] by (force simp: call_succeeds_def temp_of_def final_of_def)
next
  case Finished
  with assms(1) show ?thesis by (auto elim: writer_stepE)
qed

lemma finished_empty:
  "writer_step w w' \<Longrightarrow> at w = Finished \<longrightarrow> queued (channel w) = [] \<Longrightarrow>
   at w' = Finished \<longrightarrow> queued (channel w') = []"
  by (induction rule: writer_step.induct) auto

text \<open>From every state the task can go on to a state of rest with every call succeeding.\<close>

lemma writer_reaches_rest:
  "progress w \<Longrightarrow> \<exists>w'. call_succeeds\<^sup>*\<^sup>* w w' \<and> (\<nexists>v. writer_step w' v)"
proof (induction "writer_work w" arbitrary: w rule: less_induct)
  case less
  show ?case
  proof (cases "\<exists>v. writer_step w v")
    case True
    then obtain v where v: "call_succeeds w v"
      using call_succeeds_enabled less.prems by blast
    then have "writer_work v < writer_work w" "progress v"
      using writer_work_less call_succeeds_keeps [OF v less.prems] by (auto simp: call_succeeds_def)
    with less.hyps v show ?thesis
      by (meson converse_rtranclp_into_rtranclp)
  qed blast
qed

lemma rest_saved:
  assumes "call_succeeds\<^sup>*\<^sup>* w w'" and "\<nexists>v. writer_step w' v" and "progress w" and "at w \<noteq> Finished"
  shows "files w' (snapshot_name i) = due_image i w"
proof -
  from assms(1,4) have "at w' = Finished \<longrightarrow> queued (channel w') = []"
    by (induction rule: rtranclp_induct) (auto simp: call_succeeds_def dest: finished_empty)
  with assms(2) have "pending w' = []"
    unfolding writer_stuck by (auto simp: pending_def)
  then have "due_image i w' = files w' (snapshot_name i)"
    by (simp add: due_image_def)
  with runs_keep [OF assms(1,3), of i] show ?thesis by simp
qed

text \<open>
  C17 (writer_comes_to_rest). However its system calls end, the writer's task makes only as many
  steps as its queued images have bytes, and five for every image; then it rests, and it rests
  only when it has ended or waits at an empty channel whose sender lives.
\<close>

theorem writer_comes_to_rest:
  "{n. \<exists>w'. (writer_step ^^ n) w w'} \<subseteq> {..writer_work w} \<and>
   wfp (\<lambda>w' w. writer_step w w') \<and>
   ((\<nexists>w'. writer_step w w') \<longleftrightarrow>
      at w = Finished \<or> at w = Waiting \<and> queued (channel w) = [] \<and> sender_alive (channel w))"
proof -
  have "wfp (\<lambda>w' w. writer_step w w')"
    using writer_work_less by (intro wfp_if_convertible_to_nat [of _ writer_work]) auto
  then show ?thesis
    using writer_run_bounded writer_stuck by (fastforce dest: add_leD1)
qed

text \<open>
  C10 (image_reaches_the_file). An image that the writer's task holds or has queued reaches the
  snapshot file: whichever way the task goes on, when the calls succeed and it comes to rest,
  the file of each shard holds the last of the shard's images, and it can always go on to rest.
\<close>

theorem image_reaches_the_file:
  assumes "progress w" and "at w \<noteq> Finished"
    and "pending w = earlier @ r # later" and "\<forall>r'\<in>set later. req_shard r' \<noteq> req_shard r"
  shows "(\<exists>w'. call_succeeds\<^sup>*\<^sup>* w w' \<and> (\<nexists>v. writer_step w' v)) \<and>
     (\<forall>w'. call_succeeds\<^sup>*\<^sup>* w w' \<and> (\<nexists>v. writer_step w' v) \<longrightarrow> files w' (final_of r) = Some (req_data r))"
proof -
  have "filter (\<lambda>r'. req_shard r' = req_shard r) later = []"
    using assms(4) by (simp add: filter_empty_conv)
  then have "due_image (req_shard r) w = Some (req_data r)"
    by (simp add: due_image_def assms(3))
  with writer_reaches_rest [OF assms(1)] rest_saved [OF _ _ assms(1,2), of _ "req_shard r"] show ?thesis
    by (simp add: final_of_def)
qed

definition demo_saver :: writer where
  "demo_saver =
     \<lparr>channel = \<lparr>queued = [\<lparr>req_shard = ShardId 7, req_data = [3]\<rparr>], sender_alive = True, receiver_alive = True\<rparr>,
      files = (\<lambda>_. None), at = Creating \<lparr>req_shard = ShardId 7, req_data = [1, 2]\<rparr>\<rparr>"

theorem image_reaches_the_file_witness:
  "\<exists>w'. call_succeeds\<^sup>*\<^sup>* demo_saver w' \<and> files w' (snapshot_name (ShardId 7)) = Some [3]"
  using image_reaches_the_file [of demo_saver "[\<lparr>req_shard = ShardId 7, req_data = [1, 2]\<rparr>]"
      "\<lparr>req_shard = ShardId 7, req_data = [3]\<rparr>" "[]"]
  by (auto simp: demo_saver_def progress_def pending_def final_of_def)

section \<open>Messages are served\<close>

text \<open>An endless run of the connections and the worker.\<close>

definition exchange_run :: "build \<Rightarrow> (nat \<Rightarrow> command) \<Rightarrow> shard \<Rightarrow> (nat \<Rightarrow> exchange) \<Rightarrow> bool" where
  "exchange_run b asked s0 x \<longleftrightarrow>
     x 0 = exchange_start s0 \<and> (\<forall>n. exchange_step b asked (x n) (x (Suc n)))"

lemma exchange_run_reachable: "exchange_run b asked s0 x \<Longrightarrow> exchange_reachable b asked (exchange_start s0) (x n)"
proof (induction n)
  case 0
  then show ?case by (simp add: exchange_run_def exchange_reachable.start)
next
  case (Suc n)
  then show ?case
    unfolding exchange_run_def by (metis exchange_reachable.step)
qed

text \<open>
  Fairness of the \<open>select!\<close> of the worker: as long as messages wait it takes one sooner or later,
  or it is unwound.
\<close>

definition takes_message :: "exchange \<Rightarrow> exchange \<Rightarrow> bool" where
  "takes_message x x' \<longleftrightarrow> worker_shard x' = None \<or> (\<exists>m. mailbox x = m # mailbox x')"

definition fair_worker :: "(nat \<Rightarrow> exchange) \<Rightarrow> bool" where
  "fair_worker x \<longleftrightarrow>
     (\<forall>n. worker_shard (x n) \<noteq> None \<and> mailbox (x n) \<noteq> [] \<longrightarrow>
        (\<exists>m\<ge>n. takes_message (x m) (x (Suc m))))"

text \<open>The messages before message \<open>i\<close>.\<close>

definition ahead :: "nat \<Rightarrow> exchange \<Rightarrow> nat" where
  "ahead i x = length (takeWhile (\<lambda>m. reply_tx m \<noteq> i) (mailbox x))"

definition served_or_lost :: "nat \<Rightarrow> exchange \<Rightarrow> bool" where
  "served_or_lost i x \<longleftrightarrow> i \<in> set (served x) \<or> worker_shard x = None"

lemma served_grows: "exchange_step b asked x x' \<Longrightarrow> set (served x) \<subseteq> set (served x')"
  by (auto elim!: exchange_stepE simp: served_def unwound_def)

lemma accepted_grows: "exchange_step b asked x x' \<Longrightarrow> set (accepted_order x) \<subseteq> set (accepted_order x')"
  by (auto elim!: exchange_stepE simp: unwound_def)

lemma waits_in_mailbox:
  "order_inv x \<Longrightarrow> i \<in> set (accepted_order x) \<Longrightarrow> \<not> served_or_lost i x \<Longrightarrow> \<exists>m\<in>set (mailbox x). reply_tx m = i"
  by (auto simp: order_inv_def served_or_lost_def)

lemma ahead_step:
  assumes "exchange_step b asked x x'" and "\<exists>m\<in>set (mailbox x). reply_tx m = i" and "\<not> served_or_lost i x'"
  shows "ahead i x' \<le> ahead i x \<and> (takes_message x x' \<longrightarrow> ahead i x' < ahead i x)"
  using assms
proof (induction rule: exchange_step.induct)
  case (send x j)
  then have "takeWhile (\<lambda>m. reply_tx m \<noteq> i) (mailbox x @ [m]) = takeWhile (\<lambda>m. reply_tx m \<noteq> i) (mailbox x)" for m
    by (auto intro: takeWhile_append1)
  with send show ?case
    by (auto simp: ahead_def takes_message_def)
next
  case (serve_message x s m ms t t' r s')
  then have "reply_tx m \<noteq> i"
    by (auto simp: served_or_lost_def served_def)
  with serve_message show ?case
    by (auto simp: ahead_def takes_message_def)
qed (auto simp: ahead_def takes_message_def served_or_lost_def unwound_def)

interpretation serving: fair_loop "exchange_step b asked"
  "\<lambda>x. order_inv x \<and> i \<in> set (accepted_order x)" "served_or_lost i" takes_message "ahead i"
  for b asked i
proof (unfold_locales, goal_cases)
  case (1 x x')
  then show ?case
    using order_inv_step accepted_grows by blast
next
  case (2 x x')
  then show ?case
    using ahead_step waits_in_mailbox by blast
next
  case (3 x x')
  then show ?case
    using ahead_step waits_in_mailbox by blast
qed

lemma fair_worker_settles:
  assumes run: "exchange_run b asked s0 x" and fair: "fair_worker x"
    and taken: "i \<in> set (accepted_order (x n))"
  shows "\<exists>m\<ge>n. served_or_lost i (x m)"
proof (rule ccontr)
  assume "\<not> (\<exists>m\<ge>n. served_or_lost i (x m))"
  then have never: "\<not> served_or_lost i (x (n + k))" for k
    by (metis le_add1)
  let ?y = "\<lambda>k. x (n + k)"
  have steps: "\<forall>k. exchange_step b asked (?y k) (?y (Suc k))"
    using run by (simp add: exchange_run_def)
  have start: "order_inv (?y 0) \<and> i \<in> set (accepted_order (?y 0))"
    using taken exchange_invs(1) [OF exchange_run_reachable [OF run]] by simp
  have "\<exists>m\<ge>k. takes_message (?y m) (?y (Suc m))" for k
  proof -
    have "order_inv (?y k) \<and> i \<in> set (accepted_order (?y k))"
      by (rule serving.run_inv [OF steps start]) simp
    then have "mailbox (?y k) \<noteq> []" "worker_shard (?y k) \<noteq> None"
      using waits_in_mailbox never by (fastforce, auto simp: served_or_lost_def)
    then obtain m where "n + k \<le> m" "takes_message (x m) (x (Suc m))"
      using fair unfolding fair_worker_def by blast
    then show ?thesis
      by (intro exI [of _ "m - n"]) simp
  qed
  then have "\<exists>m\<ge>0. served_or_lost i (?y m)"
    by (intro serving.eventually_goal [OF steps start]) blast
  with never show False by blast
qed

lemma lost_mailbox:
  "exchange_reachable b asked (exchange_start s0) x \<Longrightarrow> worker_shard x = None \<Longrightarrow> mailbox x = []"
  by (induction rule: exchange_reachable.induct)
     (auto elim!: exchange_stepE simp: exchange_start_def unwound_def)

lemma served_or_lost_answered:
  assumes "exchange_reachable b asked (exchange_start s0) x" and "i \<in> set (accepted_order x)"
    and "served_or_lost i x"
  shows "\<exists>r. sender_at x i = Answered r"
proof -
  note invs = exchange_invs [OF assms(1)]
  have "i \<notin> reply_tx ` set (mailbox x)"
    using assms(3) invs(1,2) lost_mailbox [OF assms(1)]
    by (fastforce simp: served_or_lost_def order_inv_def accepted_inv_def)
  then have "sender_at x i \<noteq> Awaiting_reply"
    using invs(3) by (auto simp: sender_inv_def)
  moreover have "sender_at x i \<noteq> Unsent"
    using invs(2) assms(2) by (auto simp: accepted_inv_def)
  ultimately show ?thesis
    by (cases "sender_at x i") auto
qed

text \<open>
  C9 (accepted_messages_answered). In every endless run in which the worker takes a message
  again and again while there are some, each message that the channel took is executed or the
  worker's task is unwound, and its sender has its answer then, although no timer needs to fire.
\<close>

theorem accepted_messages_answered:
  assumes "exchange_run b asked s0 x" and "fair_worker x" and "i \<in> set (accepted_order (x n))"
  shows "\<exists>m\<ge>n. (i \<in> set (served (x m)) \<or> worker_shard (x m) = None) \<and> (\<exists>r. sender_at (x m) i = Answered r)"
proof -
  obtain m where m: "n \<le> m" "served_or_lost i (x m)"
    using fair_worker_settles [OF assms] by blast
  have "i \<in> set (accepted_order (x m))"
    using \<open>n \<le> m\<close> assms(1,3) accepted_grows unfolding exchange_run_def
    by (induction rule: dec_induct) blast+
  with served_or_lost_answered [OF exchange_run_reachable [OF assms(1)] _ m(2)] m show ?thesis
    by (auto simp: served_or_lost_def)
qed

text \<open>One message, then senders that give up one after the other for ever.\<close>

definition demo_exchange :: "shard \<Rightarrow> response \<Rightarrow> nat \<Rightarrow> exchange" where
  "demo_exchange s' r n =
     (if n = 0 then exchange_start (Shard_new 0 (ShardId 7))
      else
        \<lparr>mailbox = (if n = 1 then [\<lparr>msg_command = Get [107], reply_tx = 0\<rparr>] else []),
         worker_shard = Some (if n = 1 then Shard_new 0 (ShardId 7) else s'),
         sender_at = (\<lambda>i. if i = 0 then (if n = 1 then Awaiting_reply else Answered (Replied r))
                          else if i + 2 \<le> n then Answered Send_timeout else Unsent),
         journal = (if n = 1 then [] else [Ran 0 0 0 (Get [107]) r]), accepted_order = [0]\<rparr>)"

lemma demo_exchange_run:
  assumes "execute demo_build 0 0 (Get [107]) (Shard_new 0 (ShardId 7)) = Ok (r, s')"
  shows "exchange_run demo_build (\<lambda>_. Get [107]) (Shard_new 0 (ShardId 7)) (demo_exchange s' r)"
proof -
  have "exchange_step demo_build (\<lambda>_. Get [107]) (demo_exchange s' r n) (demo_exchange s' r (Suc n))" for n
  proof -
    consider "n = 0" | "n = 1" | k where "n = Suc (Suc k)"
      by (metis One_nat_def not0_implies_Suc)
    then show ?thesis
    proof cases
      case 1
      have "demo_exchange s' r (Suc n) =
          (let x = demo_exchange s' r n in
           x\<lparr>mailbox := mailbox x @ [\<lparr>msg_command = Get [107], reply_tx = 0\<rparr>],
             sender_at := (sender_at x)(0 := Awaiting_reply), accepted_order := accepted_order x @ [0]\<rparr>)"
        using 1 by (auto simp: demo_exchange_def exchange_start_def Let_def)
      then show ?thesis
        using exchange_step.send [of "demo_exchange s' r n" 0 demo_build "\<lambda>_. Get [107]"] 1
        by (simp add: Let_def demo_exchange_def exchange_start_def COMMAND_CHANNEL_CAPACITY_def)
    next
      case 2
      have "demo_exchange s' r (Suc n) =
          (let x = demo_exchange s' r n in
           x\<lparr>mailbox := [], worker_shard := Some s', sender_at := (sender_at x)(0 := Answered (Replied r)),
             journal := journal x @ [Ran 0 0 0 (Get [107]) r]\<rparr>)"
        using 2 by (auto simp: demo_exchange_def Let_def)
      then show ?thesis
        using exchange_step.serve_message [of "demo_exchange s' r n" "Shard_new 0 (ShardId 7)"
            "\<lparr>msg_command = Get [107], reply_tx = 0\<rparr>" "[]" demo_build 0 0 r s' "\<lambda>_. Get [107]"] 2 assms
        by (simp add: Let_def demo_exchange_def)
    next
      case 3
      have "demo_exchange s' r (Suc n) =
          (let x = demo_exchange s' r n in x\<lparr>sender_at := (sender_at x)(Suc k := Answered Send_timeout)\<rparr>)"
        using 3 by (auto simp: demo_exchange_def Let_def)
      then show ?thesis
        using exchange_step.send_times_out [of "demo_exchange s' r n" "Suc k" demo_build "\<lambda>_. Get [107]"] 3
        by (simp add: Let_def demo_exchange_def)
    qed
  qed
  then show ?thesis
    by (simp add: exchange_run_def) (simp add: demo_exchange_def)
qed

theorem accepted_messages_answered_witness:
  "\<exists>(x :: nat \<Rightarrow> exchange) m. 0 \<in> set (accepted_order (x 1)) \<and> sender_at (x 1) 0 = Awaiting_reply \<and>
     (0 \<in> set (served (x m)) \<or> worker_shard (x m) = None) \<and> (\<exists>r. sender_at (x m) 0 = Answered r)"
proof -
  obtain r s' where run: "execute demo_build 0 0 (Get [107]) (Shard_new 0 (ShardId 7)) = Ok (r, s')"
    using demo_get [of demo_build "[107]" "ShardId 7"] by blast
  let ?x = "demo_exchange s' r"
  have "fair_worker ?x"
    unfolding fair_worker_def
  proof (intro allI impI)
    fix n
    assume "worker_shard (?x n) \<noteq> None \<and> mailbox (?x n) \<noteq> []"
    then have "n = 1"
      by (auto simp: demo_exchange_def exchange_start_def split: if_splits)
    then have "takes_message (?x n) (?x (Suc n))"
      by (simp add: takes_message_def demo_exchange_def)
    then show "\<exists>m\<ge>n. takes_message (?x m) (?x (Suc m))"
      by blast
  qed
  moreover have "0 \<in> set (accepted_order (?x 1))" "sender_at (?x 1) 0 = Awaiting_reply"
    by (simp_all add: demo_exchange_def)
  ultimately show ?thesis
    using accepted_messages_answered [OF demo_exchange_run [OF run], of 0 1] by blast
qed

section \<open>A closed channel drains\<close>

text \<open>An endless run of a worker and its writer; the worker's turns are fair.\<close>

definition takes_turn :: "node \<Rightarrow> node \<Rightarrow> bool" where
  "takes_turn n n' \<longleftrightarrow> phase n' \<noteq> phase n \<or> (\<exists>cmd. inbox n = cmd # inbox n')"

definition node_run :: "build \<Rightarrow> crates \<Rightarrow> (nat \<Rightarrow> node) \<Rightarrow> bool" where
  "node_run b c x \<longleftrightarrow> (\<forall>k. worker_step b c (x k) (x (Suc k)))"

definition fair_turns :: "(nat \<Rightarrow> node) \<Rightarrow> bool" where
  "fair_turns x \<longleftrightarrow>
     (\<forall>k. phase (x k) \<in> {Serving, Closing} \<longrightarrow> (\<exists>m\<ge>k. takes_turn (x m) (x (Suc m))))"

text \<open>The turns left when no more commands can arrive.\<close>

definition turns_left :: "node \<Rightarrow> nat" where
  "turns_left n = length (inbox n) + (case phase n of Serving \<Rightarrow> 2 | Closing \<Rightarrow> 1 | _ \<Rightarrow> 0)"

definition draining :: "nat \<Rightarrow> node \<Rightarrow> bool" where
  "draining k n \<longleftrightarrow>
     \<not> senders_alive n \<and> (phase n \<in> {Closing, Down} \<longrightarrow> inbox n = []) \<and>
     (phase n \<in> {Serving, Closing, Down} \<longrightarrow> length (replies n) + length (inbox n) = k)"

lemma draining_step: "worker_step b c n n' \<Longrightarrow> draining k n \<Longrightarrow> draining k n'"
  by (induction rule: worker_step.induct) (auto simp: draining_def ended_def with_channel_def)

lemma turns_left_step:
  "worker_step b c n n' \<Longrightarrow> draining k n \<Longrightarrow> turns_left n' \<le> turns_left n \<and>
     (phase n \<in> {Serving, Closing} \<and> takes_turn n n' \<longrightarrow> turns_left n' < turns_left n)"
  by (induction rule: worker_step.induct)
     (auto simp: draining_def turns_left_def takes_turn_def ended_def with_channel_def split: phase.splits)

interpretation draining: fair_loop "worker_step b c" "draining k"
  "\<lambda>n. phase n \<notin> {Serving, Closing}" takes_turn turns_left for b c k
proof (unfold_locales, goal_cases)
  case (1 n n')
  then show ?case by (rule draining_step)
next
  case (2 n n')
  then show ?case using turns_left_step by blast
next
  case (3 n n')
  then show ?case using turns_left_step by blast
qed

text \<open>While the worker runs, both ends of the snapshot channel are there.\<close>

definition channel_open :: "node \<Rightarrow> bool" where
  "channel_open n \<longleftrightarrow>
     (phase n \<in> {Serving, Closing} \<longrightarrow>
        sender_alive (channel (saver n)) \<and> receiver_alive (channel (saver n)))"

lemma trigger_channel:
  "trigger_snapshot c now_s clk order s ch = Ok ch' \<Longrightarrow>
   sender_alive ch' = sender_alive ch \<and> receiver_alive ch' = receiver_alive ch"
  by (auto simp: trigger_snapshot_def and_then_Ok_iff try_send_def split: if_splits)

lemma writer_channel:
  "writer_step w w' \<Longrightarrow> sender_alive (channel w) \<and> receiver_alive (channel w) \<Longrightarrow>
   sender_alive (channel w') \<and> receiver_alive (channel w')"
  by (induction rule: writer_step.induct) auto

lemma channel_open_step: "worker_step b c n n' \<Longrightarrow> channel_open n \<Longrightarrow> channel_open n'"
  by (induction rule: worker_step.induct)
     (auto simp: channel_open_def ended_def with_channel_def dest: trigger_channel writer_channel)

lemma channel_open_reachable: "reachable b c (started now i fs) n \<Longrightarrow> channel_open n"
proof (induction rule: reachable.induct)
  case start
  then show ?case by (simp add: channel_open_def started_def)
qed (rule channel_open_step)

text \<open>The last step of the task: the final snapshot is offered to the channel.\<close>

definition final_trigger :: "crates \<Rightarrow> node \<Rightarrow> node \<Rightarrow> bool" where
  "final_trigger c n n' \<longleftrightarrow>
     phase n = Closing \<and> phase n' = Down \<and> state n' = state n \<and>
     (\<exists>now_s clk order bs.
        mset order = hm_entries (data (state n)) \<and> serialize_shard c now_s clk order (state n) = Ok bs \<and>
        queued (channel (saver n')) =
          (if queued (channel (saver n)) = [] then [\<lparr>req_shard = sid (state n), req_data = bs\<rparr>]
           else queued (channel (saver n))))"

lemma last_step:
  assumes "worker_step b c n n'" and "phase n \<in> {Serving, Closing}" and "phase n' \<notin> {Serving, Closing}"
    and "channel_open n"
  shows "final_trigger c n n' \<or> (\<exists>p. phase n' = Unwound p)"
  using assms
proof (induction rule: worker_step.induct)
  case (final_snapshot n order now_s clk ch)
  then obtain bs where "serialize_shard c now_s clk order (state n) = Ok bs"
      "ch = snd (try_send \<lparr>req_shard = sid (state n), req_data = bs\<rparr> (channel (saver n)))"
    by (auto simp: trigger_snapshot_def and_then_Ok_iff)
  with final_snapshot show ?case
    by (auto simp: final_trigger_def ended_def with_channel_def try_send_def channel_open_def
        SNAPSHOT_CHANNEL_CAPACITY_def Suc_le_eq)
qed (auto simp: ended_def with_channel_def)

lemma run_reachable:
  assumes "node_run b c x" and "reachable b c n0 (x 0)"
  shows "reachable b c n0 (x k)"
  using assms by (induction k) (auto simp: node_run_def intro: reachable.step)

text \<open>The moment a worker stops running.\<close>

lemma stops_at:
  assumes "phase (x 0) = Serving"
  shows "phase (x m) \<notin> {Serving, Closing} \<Longrightarrow>
    \<exists>k. phase (x k) \<in> {Serving, Closing} \<and> phase (x (Suc k)) \<notin> {Serving, Closing}"
proof (induction m)
  case 0
  with assms show ?case by simp
next
  case (Suc m)
  then show ?case by (cases "phase (x m) \<in> {Serving, Closing}") blast+
qed

text \<open>
  C16 (closed_channel_drains). Once all senders are gone a worker whose turns are fair executes
  every command that is still in its channel, then takes a snapshot of the shard as these
  commands left it and ends; the image is queued for the writer unless an earlier one is still
  queued. The alternative is that a deadline the clock cannot represent unwinds the task.
  Ticks may come in between, and the writer do whatever it does.
\<close>

theorem closed_channel_drains:
  assumes "reachable b c (started now i fs) (x 0)" and "entry_size b < 2 ^ 32" and "crates_ok c"
    and "node_run b c x" and "fair_turns x" and "\<not> senders_alive (x 0)" and "phase (x 0) = Serving"
  shows "(\<exists>m. phase (x m) = Unwound Instant_Overflow) \<or>
     (\<exists>m now_s clk order bs.
        phase (x m) = Closing \<and> phase (x (Suc m)) = Down \<and> state (x (Suc m)) = state (x m) \<and>
        length (replies (x (Suc m))) = length (replies (x 0)) + length (inbox (x 0)) \<and>
        mset order = hm_entries (data (state (x m))) \<and> serialize_shard c now_s clk order (state (x m)) = Ok bs \<and>
        queued (channel (saver (x (Suc m)))) =
          (if queued (channel (saver (x m))) = [] then [\<lparr>req_shard = i, req_data = bs\<rparr>]
           else queued (channel (saver (x m)))))"
proof -
  let ?k = "length (replies (x 0)) + length (inbox (x 0))"
  have steps: "\<forall>m. worker_step b c (x m) (x (Suc m))"
    using assms(4) by (simp add: node_run_def)
  have start: "draining ?k (x 0)"
    using assms(6,7) by (simp add: draining_def)
  have "\<exists>m\<ge>0. phase (x m) \<notin> {Serving, Closing}"
    by (rule draining.eventually_goal [OF steps start]) (use assms(5) in \<open>unfold fair_turns_def, blast\<close>)
  then obtain m where m: "phase (x m) \<in> {Serving, Closing}" "phase (x (Suc m)) \<notin> {Serving, Closing}"
    using stops_at [of x, OF assms(7)] by blast
  note reached = run_reachable [OF assms(4,1)]
  have inv: "node_inv b c i fs (x k)" for k
    by (rule node_inv_reachable [OF reached assms(2,3)])
  have "draining ?k (x (Suc m))"
    by (rule draining.run_inv [OF steps start]) simp
  then have drained: "phase (x (Suc m)) = Down \<Longrightarrow> length (replies (x (Suc m))) = ?k"
    by (auto simp: draining_def)
  have "final_trigger c (x m) (x (Suc m)) \<or> (\<exists>p. phase (x (Suc m)) = Unwound p)"
    using last_step [OF _ m] steps channel_open_reachable [OF reached] by blast
  then show ?thesis
  proof
    assume "\<exists>p. phase (x (Suc m)) = Unwound p"
    with inv [of "Suc m"] have "phase (x (Suc m)) = Unwound Instant_Overflow"
      by (auto simp: node_inv_def)
    then show ?thesis by blast
  next
    assume "final_trigger c (x m) (x (Suc m))"
    moreover have "sid (state (x m)) = i"
      using inv [of m] by (simp add: node_inv_def shard_inv_def)
    ultimately show ?thesis
      using drained unfolding final_trigger_def by blast
  qed
qed

text \<open>A command in the channel, then the end, then idle steps of the environment.\<close>

definition demo_drain :: "shard \<Rightarrow> response \<Rightarrow> snapshot_channel \<Rightarrow> nat \<Rightarrow> node" where
  "demo_drain s' r ch k =
     (let n0 = demo_node\<lparr>senders_alive := False, inbox := [Get demo_key]\<rparr>;
          n1 = n0\<lparr>inbox := [], state := s', replies := [r]\<rparr>;
          n2 = n1\<lparr>phase := Closing\<rparr>
      in if k = 0 then n0 else if k = 1 then n1 else if k = 2 then n2 else ended Down (with_channel ch n2))"

lemma demo_drain_run:
  assumes "execute demo_build 0 0 (Get demo_key) demo_shard = Ok (r, s')"
    and "hm_entries (data s') = {#}"
    and "trigger_snapshot demo_crates now_s clk [] s' (channel (saver demo_node)) = Ok ch"
  shows "node_run demo_build demo_crates (demo_drain s' r ch)"
proof -
  let ?x = "demo_drain s' r ch"
  let ?step = "worker_step demo_build demo_crates"
  have start: "state demo_node = demo_shard" "replies demo_node = []" "phase demo_node = Serving"
    by (simp_all add: demo_node_def started_def demo_shard_def)
  have "?step (?x k) (?x (Suc k))" for k
  proof -
    consider "k = 0" | "k = 1" | "k = 2" | "2 < k"
      by linarith
    then show ?thesis
    proof cases
      case 1
      then show ?thesis
        using worker_step.serve [of "?x 0" "Get demo_key" "[]" demo_build 0 0 r s' demo_crates] assms(1) start
        by (simp add: demo_drain_def Let_def)
    next
      case 2
      then show ?thesis
        using worker_step.closed [of "?x 1" demo_build demo_crates] start
        by (simp add: demo_drain_def Let_def)
    next
      case 3
      then show ?thesis
        using worker_step.final_snapshot [of "?x 2" "[]" demo_crates now_s clk ch demo_build] assms(2,3)
        by (simp add: demo_drain_def Let_def)
    next
      case 4
      then have "(?x k)\<lparr>senders_alive := False\<rparr> = ?x (Suc k)"
        by (simp add: demo_drain_def Let_def ended_def with_channel_def)
      then show ?thesis
        using worker_step.senders_gone [of demo_build demo_crates "?x k"] by simp
    qed
  qed
  then show ?thesis
    by (simp add: node_run_def)
qed

lemma demo_drain_start:
  "reachable demo_build demo_crates (started 0 (ShardId 7) (\<lambda>_. None)) (demo_drain s' r ch 0)"
proof -
  have "demo_drain s' r ch 0 = demo_node\<lparr>inbox := [Get demo_key], senders_alive := False\<rparr>"
    by (simp add: demo_drain_def Let_def)
  moreover have "reachable demo_build demo_crates demo_node (demo_node\<lparr>inbox := [Get demo_key], senders_alive := False\<rparr>)"
    by (rule reachable.step [OF demo_reached worker_step.senders_gone])
  ultimately show ?thesis
    unfolding demo_node_def by simp
qed

text \<open>The phases of this run: it is not unwound, so the final image is queued.\<close>

theorem closed_channel_drains_witness:
  "\<exists>(x :: nat \<Rightarrow> node) m now_s clk order bs. inbox (x 0) = [Get demo_key] \<and> \<not> senders_alive (x 0) \<and>
     phase (x (Suc m)) = Down \<and> length (replies (x (Suc m))) = 1 \<and>
     serialize_shard demo_crates now_s clk order (state (x m)) = Ok bs \<and>
     queued (channel (saver (x (Suc m)))) = [\<lparr>req_shard = ShardId 7, req_data = bs\<rparr>]"
proof -
  obtain r s' where run: "execute demo_build 0 0 (Get demo_key) demo_shard = Ok (r, s')"
      "sid s' = sid demo_shard" "data s' = data demo_shard"
    by (simp add: demo_simps execute_def cmd_get_def)
  have "serialize_shard demo_crates (from_secs 60) (\<lambda>_. (0, from_secs 60)) [] s' =
      serialize_shard demo_crates (from_secs 60) (\<lambda>_. (0, from_secs 60)) [] demo_shard"
    unfolding serialize_shard_def estimate_snapshot_size_def run(2,3) ..
  with demo_serialized obtain ch where "trigger_snapshot demo_crates (from_secs 60) (\<lambda>_. (0, from_secs 60)) [] s'
      (channel (saver demo_node)) = Ok ch"
    by (auto simp: trigger_snapshot_def)
  moreover have "hm_entries (data s') = {#}"
    using run(3) by (simp add: demo_shard_def Shard_new_def hm_entries_def)
  ultimately have run': "node_run demo_build demo_crates (demo_drain s' r ch)"
    using demo_drain_run [OF run(1)] by blast
  let ?x = "demo_drain s' r ch"
  have start: "inbox (?x 0) = [Get demo_key]" "\<not> senders_alive (?x 0)" "phase (?x 0) = Serving" "replies (?x 0) = []"
    by (simp_all add: demo_drain_def Let_def demo_node_def started_def)
  have "takes_turn (?x k) (?x (Suc k))" if "phase (?x k) \<in> {Serving, Closing}" for k
    using that
    by (auto simp: takes_turn_def demo_drain_def Let_def demo_node_def started_def ended_def split: if_splits)
  then have fair: "fair_turns ?x"
    unfolding fair_turns_def by blast
  have phases: "phase (?x k) \<noteq> Unwound p" "phase (?x k) = Closing \<longleftrightarrow> k = 2" "queued (channel (saver (?x 2))) = []" for k p
    by (auto simp: demo_drain_def Let_def demo_node_def started_def ended_def)
  have small: "entry_size demo_build < 2 ^ 32"
    by (simp add: demo_build_def)
  note drained = closed_channel_drains [OF demo_drain_start small demo_crates_ok(1) run' fair start(2,3)]
  then obtain m now_s clk order bs where m: "phase (?x m) = Closing" "phase (?x (Suc m)) = Down"
      "length (replies (?x (Suc m))) = 1" "serialize_shard demo_crates now_s clk order (state (?x m)) = Ok bs"
      "queued (channel (saver (?x (Suc m)))) =
        (if queued (channel (saver (?x m))) = [] then [\<lparr>req_shard = ShardId 7, req_data = bs\<rparr>]
         else queued (channel (saver (?x m))))"
    using phases(1) start by force
  from m(1) have "m = 2"
    by (simp only: phases(2))
  with m phases(3) start show ?thesis
    by (metis (no_types))
qed

end
