(* ===== verification/Stale_Items.thy ===== *)
theory Stale_Items
  imports Worker Shard_Properties
begin

text \<open>
  Items of the TTL queue that no entry needs any more: every \<open>EXPIRE\<close> adds one, nothing counts
  them, and a round of expiration pops all that are due, although its budget is twenty keys.
\<close>

text \<open>An item is stale when its key is gone or has another deadline.\<close>

definition stale_item :: "(key, entry) hashmap \<Rightarrow> expiry \<Rightarrow> bool" where
  "stale_item d y \<longleftrightarrow>
     (\<forall>e. hm_get d (expiry_key y) = Some e \<longrightarrow> entry_expiry e \<noteq> Some (expiry_time y))"

lemma expire_loop_stale:
  "\<forall>y\<in>#mset q. expiry_time y \<le> now \<longrightarrow> stale_item d y \<Longrightarrow>
   \<exists>q'. expire_loop now d q n = Ok (d, q', n) \<and> mset q' = filter_mset (\<lambda>y. now < expiry_time y) (mset q)"
proof (induction "size (mset q)" arbitrary: q rule: less_induct)
  case less
  show ?case
  proof (cases rule: expire_loop_cases [of now d q n])
    case stop
    then show ?thesis
      by (metis filter_mset_True filter_mset_cong)
  next
    case (stale x q')
    have q: "mset q = add_mset x (mset q')"
      using ttl.content_pop [OF stale(1)] by simp
    with less.hyps [OF ttl.pop_smaller [OF stale(1)]] less.prems stale(2,4) show ?thesis
      by auto
  next
    case (expire x q' e)
    moreover have "x \<in># mset q"
      using ttl.content_pop [OF expire(1)] by simp
    ultimately show ?thesis
      using less.prems by (auto simp: stale_item_def)
  qed
qed

lemma expire_keys_stale:
  assumes "\<forall>y\<in>#mset (ttl_queue s). expiry_time y \<le> now \<longrightarrow> stale_item (data s) y"
  shows "\<exists>q'. expire_keys now s = Ok (s\<lparr>ttl_queue := q'\<rparr>) \<and>
     mset q' = filter_mset (\<lambda>y. now < expiry_time y) (mset (ttl_queue s))"
  using expire_loop_stale [OF assms, of 0] by (auto simp: expire_keys_def)

section \<open>A client fills the queue\<close>

lemma execute_expire:
  assumes "hm_wf (data s)" and "hm_get (data s) k = Some e" and "t + from_secs n < instant_limit"
  shows "\<exists>s' e'. execute b t t (Expire k n) s = Ok (RInteger 1, s') \<and> hm_wf (data s') \<and>
     hm_get (data s') k = Some e' \<and> entry_expiry e' = Some (t + from_secs n) \<and>
     hm_len (data s') = hm_len (data s) \<and>
     ttl_queue s' = heap_push (Expiry (t + from_secs n) k) (ttl_queue s) \<and>
     memory_bytes (metrics s') = memory_bytes (metrics s)"
  using assms by (simp add: execute_def cmd_expire_def instant_add_def record_command_def)

lemma repeated_expire:
  assumes "hm_wf (data s)" and "hm_get (data s) k = Some e" and "t + from_secs n < instant_limit"
  shows "\<exists>rs s' e'. history (\<lambda>t. execute b t t) expire_keys (replicate m (Run t (Expire k n))) s = Ok (rs, s') \<and>
     hm_wf (data s') \<and> hm_get (data s') k = Some e' \<and> hm_len (data s') = hm_len (data s) \<and>
     mset (ttl_queue s') = mset (ttl_queue s) + replicate_mset m (Expiry (t + from_secs n) k) \<and>
     memory_bytes (metrics s') = memory_bytes (metrics s)"
  using assms(1,2)
proof (induction m arbitrary: s e)
  case (Suc m)
  from execute_expire [OF Suc.prems assms(3), of b] obtain s1 e1 where
    "execute b t t (Expire k n) s = Ok (RInteger 1, s1)" "hm_wf (data s1)" "hm_get (data s1) k = Some e1"
    "hm_len (data s1) = hm_len (data s)" "memory_bytes (metrics s1) = memory_bytes (metrics s)"
    "ttl_queue s1 = heap_push (Expiry (t + from_secs n) k) (ttl_queue s)"
    by blast
  moreover from Suc.IH [OF this(2,3)] obtain rs s' e' where
    "history (\<lambda>t. execute b t t) expire_keys (replicate m (Run t (Expire k n))) s1 = Ok (rs, s')"
    "hm_wf (data s')" "hm_get (data s') k = Some e'" "hm_len (data s') = hm_len (data s1)"
    "mset (ttl_queue s') = mset (ttl_queue s1) + replicate_mset m (Expiry (t + from_secs n) k)"
    "memory_bytes (metrics s') = memory_bytes (metrics s1)"
    by blast
  ultimately show ?case
    by (simp add: heap_push_def)
qed simp

lemma filter_replicate_mset:
  "filter_mset P (replicate_mset m x) = (if P x then replicate_mset m x else {#})"
  by (induction m) simp_all

text \<open>
  C21 (stale_items_unbounded). One key is enough to make the queue as long as a client likes,
  with the counter of memory unchanged: after \<open>m\<close> commands \<open>EXPIRE key 1\<close> and one with a later
  deadline the queue holds \<open>m + 1\<close> items, and the first round after a second pops \<open>m\<close> of them
  at once, whatever \<open>m\<close> is, and removes no key.
\<close>

theorem stale_items_unbounded:
  assumes "shard_ok b s" and "hm_get (data s) k = Some e" and "ttl_queue s = []"
    and "t + from_secs n < instant_limit" and "t + from_secs 1 \<le> now" and "now < t + from_secs n"
  shows "\<exists>rs s1 s2. history (\<lambda>t. execute b t t) expire_keys
       (replicate m (Run t (Expire k 1)) @ [Run t (Expire k n)]) s = Ok (rs, s1) \<and>
     length (ttl_queue s1) = m + 1 \<and> hm_len (data s1) = hm_len (data s) \<and>
     memory_bytes (metrics s1) = memory_bytes (metrics s) \<and>
     expire_keys now s1 = Ok s2 \<and> length (ttl_queue s2) = 1 \<and> data s2 = data s1"
proof -
  have "t + from_secs 1 < instant_limit"
    using assms(4-6) by simp
  from repeated_expire [OF shard_ok_wf [OF assms(1)] assms(2) this, of b m] obtain rs s0 e0 where
    s0: "history (\<lambda>t. execute b t t) expire_keys (replicate m (Run t (Expire k 1))) s = Ok (rs, s0)"
    "hm_wf (data s0)" "hm_get (data s0) k = Some e0" "hm_len (data s0) = hm_len (data s)"
    "mset (ttl_queue s0) = replicate_mset m (Expiry (t + from_secs 1) k)"
    "memory_bytes (metrics s0) = memory_bytes (metrics s)"
    using assms(3) by auto
  from execute_expire [OF s0(2,3) assms(4), of b] obtain s1 e1 where
    s1: "execute b t t (Expire k n) s0 = Ok (RInteger 1, s1)" "hm_get (data s1) k = Some e1"
    "entry_expiry e1 = Some (t + from_secs n)" "hm_len (data s1) = hm_len (data s0)"
    "ttl_queue s1 = heap_push (Expiry (t + from_secs n) k) (ttl_queue s0)"
    "memory_bytes (metrics s1) = memory_bytes (metrics s0)"
    by blast
  have q: "mset (ttl_queue s1) = add_mset (Expiry (t + from_secs n) k) (replicate_mset m (Expiry (t + from_secs 1) k))"
    using s1(5) s0(5) by (simp add: heap_push_def)
  have "\<forall>y\<in>#mset (ttl_queue s1). expiry_time y \<le> now \<longrightarrow> stale_item (data s1) y"
    unfolding q using s1(2,3) assms(6) assms(5) by (auto simp: stale_item_def)
  from expire_keys_stale [OF this] obtain q' where q': "expire_keys now s1 = Ok (s1\<lparr>ttl_queue := q'\<rparr>)"
    "mset q' = filter_mset (\<lambda>y. now < expiry_time y) (mset (ttl_queue s1))"
    by blast
  have "mset q' = {#Expiry (t + from_secs n) k#}"
    using q'(2) assms(5,6) unfolding q by (simp add: filter_replicate_mset)
  then have "length q' = 1"
    by (metis size_mset size_single)
  moreover have "length (ttl_queue s1) = m + 1"
    using q by (metis Suc_eq_plus1 size_add_mset size_mset size_replicate_mset)
  moreover have "history (\<lambda>t. execute b t t) expire_keys [Run t (Expire k n)] s0 = Ok ([RInteger 1], s1)"
    using s1(1) by simp
  ultimately show ?thesis
    using history_append [OF s0(1)] q'(1) s0(4,6) s1(4,6) by fastforce
qed

theorem stale_items_unbounded_witness:
  "\<exists>(s :: shard) (s1 :: shard) (s2 :: shard). hm_get (data s) demo_key \<noteq> None \<and> hm_len (data s1) = hm_len (data s) \<and>
     length (ttl_queue s1) = 1000001 \<and> expire_keys (from_secs 2) s1 = Ok s2 \<and> length (ttl_queue s2) = 1"
proof -
  obtain s where s: "execute demo_build 0 0 (Set demo_key (String []) None) demo_shard = Ok (ROk, s)"
      "hm_get (data s) demo_key = Some (Entry_new 0 (String []) None)" "ttl_queue s = []"
    by (simp add: demo_simps)
  have "shard_ok demo_build s"
    by (rule execute_keeps_ok [OF demo_shard_ok s(1)])
  moreover have "0 + from_secs 10 < instant_limit" "0 + from_secs 1 \<le> from_secs 2" "from_secs 2 < 0 + from_secs 10"
    by (simp_all add: from_secs_def nanos_def instant_limit_def)
  ultimately obtain rs s1 s2 where "hm_len (data s1) = hm_len (data s)" "length (ttl_queue s1) = 1000000 + 1"
      "expire_keys (from_secs 2) s1 = Ok s2" "length (ttl_queue s2) = 1"
    using stale_items_unbounded [OF _ s(2,3)] by blast
  moreover from this(2) have "length (ttl_queue s1) = 1000001"
    by simp
  moreover have "hm_get (data s) demo_key \<noteq> None"
    using s(2) by simp
  ultimately show ?thesis
    by blast
qed

end
