(* ===== verification/Entry_Point.thy ===== *)
theory Entry_Point
  imports Server Handler Rust_Strings
begin

text \<open>
  The edges of the process: \<open>main.rs\<close> with the status it ends with, the accept loops
  (\<open>frontend/handler.rs\<close>, \<open>frontend/acceptor.rs\<close>, \<open>observability/prometheus.rs\<close>), the names of threads
  (\<open>common/threads.rs\<close>) and the structured log lines (\<open>observability/logging.rs\<close>). What the
  operating system and \<open>serde_json\<close> do is an argument.
\<close>

section \<open>Accept loops\<close>

datatype 's accept_result = Connected 's | Accept_error

record connection_handler =
  shard_channels :: nat

definition ConnectionHandler_new :: "nat \<Rightarrow> connection_handler" where
  "ConnectionHandler_new channels = \<lparr>shard_channels = channels\<rparr>"

text \<open>
  \<open>run\<close> never returns: for the results of \<open>accept\<close> so far the tasks it has spawned, each with its
  socket and a clone of the senders. A failed \<open>accept\<close> is logged and the loop goes on at once.
\<close>

fun handler_run :: "connection_handler \<Rightarrow> 's accept_result list \<Rightarrow> ('s \<times> nat) list" where
  "handler_run h [] = []"
| "handler_run h (Connected socket # rs) =
     (let channels = shard_channels h in (socket, channels) # handler_run h rs)"
| "handler_run h (Accept_error # rs) = handler_run h rs"

definition socket_address :: "bytes \<Rightarrow> u16 \<Rightarrow> bytes" where
  "socket_address host p = host @ ascii '':'' @ dec_nat (unat p)"

text \<open>\<open>bind\<close> says for which addresses \<open>TcpListener::bind\<close> succeeds.\<close>

definition acceptor_thread ::
    "(bytes \<Rightarrow> bool) \<Rightarrow> bytes \<Rightarrow> u16 \<Rightarrow> connection_handler \<Rightarrow> 's accept_result list \<Rightarrow> (('s \<times> nat) list, unit) outcome" where
  "acceptor_thread bind host p handler rs =
     (let addr = socket_address host p in
      if bind addr then Ok (handler_run handler rs) else Err ())"

text \<open>
  The exporter's loop; a socket stands for the time of its request. Each spawned task writes one
  response, whatever becomes of it.
\<close>

fun exporter_loop :: "global_metrics \<Rightarrow> shard_metrics list \<Rightarrow> instant accept_result list \<Rightarrow> bytes list" where
  "exporter_loop g ms [] = []"
| "exporter_loop g ms (Connected now # rs) = handle_metrics_request now g ms # exporter_loop g ms rs"
| "exporter_loop g ms (Accept_error # rs) = exporter_loop g ms rs"

definition run_metrics_exporter ::
    "(bytes \<Rightarrow> bool) \<Rightarrow> u16 \<Rightarrow> global_metrics \<Rightarrow> shard_metrics list \<Rightarrow> instant accept_result list \<Rightarrow>
     (bytes list, unit) outcome" where
  "run_metrics_exporter bind p g ms rs =
     (let addr = socket_address (ascii ''0.0.0.0'') p in
      if bind addr then Ok (exporter_loop g ms rs) else Err ())"

text \<open>The exporter of the running server; when its port is taken this is logged and the server goes on.\<close>

definition metrics_port :: u16 where
  "metrics_port = 9090"

definition server_exporter :: "(bytes \<Rightarrow> bool) \<Rightarrow> system \<Rightarrow> instant accept_result list \<Rightarrow> bytes list" where
  "server_exporter bind s rs =
     (case run_metrics_exporter bind metrics_port (server_metrics (server s)) (exported_metrics (server s)) rs of
        Ok pages \<Rightarrow> pages
      | _ \<Rightarrow> [])"

section \<open>The entry point\<close>

text \<open>
  How \<open>Server::run\<close> ends, when it does: its one \<open>?\<close> is at the bind; the handler's loop never ends
  by itself, and whatever \<open>ctrl_c\<close> returns starts the shutdown.
\<close>

definition run_result :: "(bytes \<Rightarrow> bool) \<Rightarrow> config \<Rightarrow> (unit, unit) outcome" where
  "run_result bind c = (if bind (socket_address (bind_addr c) (port c)) then Ok () else Err ())"

text \<open>The status of the process; a panic of \<open>main\<close> gives 101.\<close>

definition main :: "(bytes \<Rightarrow> bool) \<Rightarrow> surroundings \<Rightarrow> files \<Rightarrow> args \<Rightarrow> nat" where
  "main bind env fs a =
     (case Server_new a env fs of
        Ok s \<Rightarrow> (case run_result bind (server_config (server s)) of Ok u \<Rightarrow> 0 | _ \<Rightarrow> 1)
      | Err e \<Rightarrow> 1
      | Panic p \<Rightarrow> 101)"

section \<open>Threads\<close>

definition FRONTEND_THREADS :: nat where
  "FRONTEND_THREADS = 4"

definition DRAIN_TIMEOUT_SECS :: nat where
  "DRAIN_TIMEOUT_SECS = 10"

definition SNAPSHOT_TIMEOUT_SECS :: nat where
  "SNAPSHOT_TIMEOUT_SECS = 30"

datatype thread_type =
    Acceptor
  | Connection_Handler usize
  | Shard_Worker shard_id
  | Snapshot_Writer shard_id
  | Metrics_Exporter

fun thread_name :: "thread_type \<Rightarrow> bytes" where
  "thread_name Acceptor = ascii ''acceptor''"
| "thread_name (Connection_Handler i) = ascii ''conn-handler-'' @ dec_nat (unat i)"
| "thread_name (Shard_Worker i) = ascii ''shard-'' @ dec_nat (unat (shard_index i))"
| "thread_name (Snapshot_Writer i) = ascii ''snapshot-'' @ dec_nat (unat (shard_index i))"
| "thread_name Metrics_Exporter = ascii ''metrics''"

text \<open>\<open>spawn\<close> is \<open>Builder::spawn\<close> with the name: the handle, or nothing on an error.\<close>

definition spawn_thread :: "(bytes \<Rightarrow> (unit \<Rightarrow> 't) \<Rightarrow> 'h option) \<Rightarrow> thread_type \<Rightarrow> (unit \<Rightarrow> 't) \<Rightarrow> 'h run" where
  "spawn_thread spawn t f = (case spawn (thread_name t) f of Some h \<Rightarrow> Ok h | None \<Rightarrow> Panic Unwrap_Err)"

section \<open>Log lines\<close>

datatype log_level = Log_debug | Log_info | Log_error

text \<open>The values of \<open>json!\<close>; \<open>'f\<close> stands for \<open>f64\<close>.\<close>

datatype 'f json = J_string bytes | J_number nat | J_float 'f

type_synonym 'f log_line = "log_level \<times> (bytes \<times> 'f json) list"

definition log_command_executed :: "shard_id \<Rightarrow> bytes \<Rightarrow> u64 \<Rightarrow> bytes \<Rightarrow> 'f log_line" where
  "log_command_executed i command latency_us result =
     (Log_debug,
      [(ascii ''event'', J_string (ascii ''command_executed'')),
       (ascii ''shard_id'', J_number (unat (shard_index i))),
       (ascii ''command'', J_string command),
       (ascii ''latency_us'', J_number (unat latency_us)),
       (ascii ''result'', J_string result)])"

definition log_snapshot_written :: "shard_id \<Rightarrow> usize \<Rightarrow> usize \<Rightarrow> 'f \<Rightarrow> 'f log_line" where
  "log_snapshot_written i keys size_bytes duration_ms =
     (Log_info,
      [(ascii ''event'', J_string (ascii ''snapshot_written'')),
       (ascii ''shard_id'', J_number (unat (shard_index i))),
       (ascii ''key_count'', J_number (unat keys)),
       (ascii ''size_bytes'', J_number (unat size_bytes)),
       (ascii ''duration_ms'', J_float duration_ms)])"

definition log_snapshot_load_failed :: "shard_id \<Rightarrow> bytes \<Rightarrow> bytes \<Rightarrow> 'f log_line" where
  "log_snapshot_load_failed i error path =
     (Log_error,
      [(ascii ''event'', J_string (ascii ''snapshot_load_failed'')),
       (ascii ''shard_id'', J_number (unat (shard_index i))),
       (ascii ''error'', J_string error),
       (ascii ''path'', J_string path)])"

definition log_shard_panic :: "shard_id \<Rightarrow> bytes \<Rightarrow> 'f log_line" where
  "log_shard_panic i error =
     (Log_error,
      [(ascii ''event'', J_string (ascii ''shard_panic'')),
       (ascii ''shard_id'', J_number (unat (shard_index i))),
       (ascii ''error'', J_string error)])"

text \<open>What \<open>log\<close> prints of a line; \<open>to_json\<close> is the text of the object.\<close>

definition printed :: "((bytes \<times> 'f json) list \<Rightarrow> bytes) \<Rightarrow> 'f log_line \<Rightarrow> bytes" where
  "printed to_json line = to_json (snd line)"

section \<open>Properties\<close>

text \<open>The loops serve every connection in turn and survive every failed \<open>accept\<close>.\<close>

lemma handler_run_spawns: "handler_run h rs = map (\<lambda>s. (s, shard_channels h)) [s. Connected s \<leftarrow> rs]"
  by (induction h rs rule: handler_run.induct) (simp_all add: Let_def)

lemma exporter_loop_pages:
  "exporter_loop g ms rs = map (\<lambda>now. handle_metrics_request now g ms) [now. Connected now \<leftarrow> rs]"
  by (induction g ms rs rule: exporter_loop.induct) simp_all

lemma server_exporter_pages:
  "page \<in> set (server_exporter bind s rs) \<Longrightarrow> \<exists>now. page = exporter_page now s"
  by (auto simp: server_exporter_def run_metrics_exporter_def Let_def exporter_loop_pages exporter_page_def
      split: if_splits accept_result.splits)

text \<open>The process ends well exactly when the directory could be made and the address be bound.\<close>

lemma main_status:
  "main bind env fs a =
     (if \<not> dir_created env then 101
      else if bind (socket_address (arg_bind a) (arg_port a)) then 0 else 1)"
  by (simp add: main_def Server_new_def Let_def run_result_def Config_from_args_def)

lemma default_address: "socket_address (arg_bind default_args) (arg_port default_args) = ascii ''0.0.0.0:6379''"
  by (simp add: socket_address_def default_args_def dec_nat.simps digit_byte_def)

text \<open>The name of a thread tells its role and its number.\<close>

definition digits_value :: "bytes \<Rightarrow> nat" where
  "digits_value bs = foldl (\<lambda>v b. 10 * v + (unat b - 48)) 0 bs"

lemma digits_value_dec: "digits_value (dec_nat n) = n"
proof (induction n rule: dec_nat.induct)
  case (1 n)
  have "unat (digit_byte (n mod 10)) - 48 = n mod 10"
    by (simp add: unat_digit)
  with 1 show ?case
    by (subst dec_nat.simps) (auto simp: digits_value_def)
qed

lemma dec_nat_inj: "dec_nat m = dec_nat n \<longleftrightarrow> m = n"
  by (metis digits_value_dec)

lemma thread_name_inj: "thread_name t = thread_name t' \<longleftrightarrow> t = t'"
  by (cases t; cases t') (auto simp: dec_nat_inj shard_id.expand dest: unsigned_word_eqI)

text \<open>Every line names its event and its shard, and no field twice.\<close>

lemma log_lines_fields:
  "\<forall>line\<in>{log_command_executed i c u r, log_snapshot_written i n m d, log_snapshot_load_failed i e p,
           log_shard_panic i e}.
     distinct (map fst (snd line)) \<and>
     map fst (take 2 (snd line)) = [ascii ''event'', ascii ''shard_id''] \<and>
     snd (snd line ! 1) = J_number (unat (shard_index i))"
  by (simp add: log_command_executed_def log_snapshot_written_def log_snapshot_load_failed_def log_shard_panic_def)

end
