(* ===== verification/Unit_Tests.thy ===== *)
theory Unit_Tests
  imports Router Shard
begin

text \<open>
  The unit tests of \<open>common/hash.rs\<close>, \<open>frontend/router.rs\<close> and \<open>common/mod.rs\<close> as statements, and what
  they check for one input proved for every input. The distribution test has a theory of its own.
\<close>

section \<open>The tests\<close>

definition test_crc16_deterministic :: bool where
  "test_crc16_deterministic \<longleftrightarrow>
     (let key = ascii ''mykey''; hash1 = crc16 key; hash2 = crc16 key in hash1 = hash2)"

definition test_route_key_deterministic :: bool where
  "test_route_key_deterministic \<longleftrightarrow>
     (let key = ascii ''mykey''; shard1 = route_key key; shard2 = route_key key in shard1 = shard2)"

text \<open>\<open>grouped.values().map(|v| v.len()).sum()\<close>\<close>

definition grouped_total :: "(shard_id, key list) hashmap \<Rightarrow> nat" where
  "grouped_total grouped = (\<Sum>v\<leftarrow>map snd grouped. length v)"

definition test_route_keys_grouping :: bool where
  "test_route_keys_grouping \<longleftrightarrow>
     grouped_total (route_keys [ascii ''key1'', ascii ''key2'', ascii ''key3'']) = 3"

definition add :: "build \<Rightarrow> u64 \<Rightarrow> u64 \<Rightarrow> u64 run" where
  "add b left right =
     (if overflow_checks b \<and> 2 ^ 64 \<le> unat left + unat right then Panic Arith_Overflow else Ok (left + right))"

definition it_works :: "build \<Rightarrow> bool" where
  "it_works b \<longleftrightarrow> add b 2 2 = Ok 4"

section \<open>What they check\<close>

lemma grouped_total_entries: "grouped_total g = hm.total (\<lambda>i ks. length ks) g"
  by (simp add: grouped_total_def hm.total_def hm_entries_def comp_def sum_mset_sum_list flip: mset_map)

lemma grouped_total_group_key: "hm_wf g \<Longrightarrow> grouped_total (group_key g k) = grouped_total g + 1"
proof -
  assume wf: "hm_wf g"
  define ks where "ks = (case hm_get g (route_key k) of None \<Rightarrow> [] | Some ks \<Rightarrow> ks)"
  have "hm.weight_at (\<lambda>i ks. length ks) g (route_key k) = length ks"
    by (simp add: hm.weight_at_def ks_def split: option.split)
  then show ?thesis
    using hm.total_put [OF wf, of "\<lambda>i ks. length ks" "route_key k" "ks @ [k]"]
    by (simp add: grouped_total_entries group_key_def ks_def Let_def)
qed

lemma grouped_total_foldl: "hm_wf g \<Longrightarrow> grouped_total (foldl group_key g ks) = grouped_total g + length ks"
  by (induction ks arbitrary: g) (simp_all add: hm_wf_group grouped_total_group_key)

text \<open>Grouping loses no key and doubles none, for any keys.\<close>

lemma route_keys_total: "grouped_total (route_keys ks) = length ks"
  by (simp add: route_keys_def grouped_total_foldl) (simp add: grouped_total_def)

lemma unit_tests_pass:
  "test_crc16_deterministic \<and> test_route_key_deterministic \<and> test_route_keys_grouping \<and> it_works b"
  by (simp add: test_crc16_deterministic_def test_route_key_deterministic_def test_route_keys_grouping_def
      it_works_def add_def route_keys_total)

end
