(* ===== verification/Distribution.thy ===== *)
theory Distribution
  imports Complex_Main Router Rust_Strings
begin

text \<open>
  The distribution test of \<open>common/hash.rs\<close>: it hashes a million keys \<open>key:0\<close>, \<open>key:1\<close>, \dots,
  counts how many fall to each shard and bounds the standard deviation. The counts are
  computed here without running through the keys: the checksum is linear over exclusive or, so
  the shard of a key is the exclusive or of one contribution per decimal digit, and the
  histogram of \<open>d + 1\<close> digits is a sum of ten shifted copies of the histogram of \<open>d\<close> digits.
\<close>

section \<open>The test\<close>

definition distribution_key :: "nat \<Rightarrow> bytes" where
  "distribution_key i = ascii ''key:'' @ dec_nat i"

text \<open>One turn of the counting loop.\<close>

definition count_shard :: "nat list \<Rightarrow> nat \<Rightarrow> nat list" where
  "count_shard counts i =
     (let hash = crc16 (distribution_key i);
          shard = unat ((ucast hash :: usize) AND 63)
      in counts[shard := counts ! shard + 1])"

definition distribution_counts :: "nat \<Rightarrow> nat list" where
  "distribution_counts n = foldl count_shard (replicate 64 0) [0..<n]"

text \<open>
  The counts and the mean are integers of seven digits, so the sum of the squares and its 64th
  part are exact in \<open>f64\<close>.
\<close>

definition std_dev :: "nat list \<Rightarrow> int \<Rightarrow> real" where
  "std_dev counts mean = sqrt (real_of_int (\<Sum>c\<leftarrow>counts. (int c - mean) ^ 2) / 64)"

definition test_crc16_distribution :: bool where
  "test_crc16_distribution \<longleftrightarrow> std_dev (distribution_counts 1000000) (1000000 div 64) < 200"

section \<open>Histograms over six bits\<close>

definition xor_bits :: "bool list \<Rightarrow> bool list \<Rightarrow> bool list" where
  "xor_bits w c = map2 (\<noteq>) w c"

lemma xor_bits_Cons [simp]: "xor_bits (b # w) (c # cs) = (b \<noteq> c) # xor_bits w cs"
  by (simp add: xor_bits_def)

lemma length_xor_bits [simp]: "length (xor_bits w c) = min (length w) (length c)"
  by (simp add: xor_bits_def)

lemma xor_bits_eq_iff: "length w = length c \<Longrightarrow> length x = length c \<Longrightarrow> xor_bits w x = c \<longleftrightarrow> x = xor_bits w c"
proof (induction w c arbitrary: x rule: list_induct2)
  case (Cons b w c cs)
  then show ?case by (cases x) auto
qed (simp add: xor_bits_def)

text \<open>A perfect binary tree with a count for every list of bits.\<close>

datatype hist = Count nat | Halves hist hist

fun lookup_bits :: "hist \<Rightarrow> bool list \<Rightarrow> nat" where
  "lookup_bits (Count n) bs = n"
| "lookup_bits (Halves l r) [] = 0"
| "lookup_bits (Halves l r) (b # bs) = lookup_bits (if b then r else l) bs"

fun perfect :: "nat \<Rightarrow> hist \<Rightarrow> bool" where
  "perfect 0 (Count n) = True"
| "perfect (Suc k) (Halves l r) = (perfect k l \<and> perfect k r)"
| "perfect _ _ = False"

fun shift_bits :: "bool list \<Rightarrow> hist \<Rightarrow> hist" where
  "shift_bits (b # bs) (Halves l r) =
     (if b then Halves (shift_bits bs r) (shift_bits bs l) else Halves (shift_bits bs l) (shift_bits bs r))"
| "shift_bits _ t = t"

fun add_hist :: "hist \<Rightarrow> hist \<Rightarrow> hist" where
  "add_hist (Count m) (Count n) = Count (m + n)"
| "add_hist (Halves l r) (Halves l' r') = Halves (add_hist l l') (add_hist r r')"
| "add_hist t _ = t"

fun zero_hist :: "nat \<Rightarrow> hist" where
  "zero_hist 0 = Count 0"
| "zero_hist (Suc k) = Halves (zero_hist k) (zero_hist k)"

fun one_at :: "bool list \<Rightarrow> hist" where
  "one_at [] = Count 1"
| "one_at (b # bs) =
     (let z = zero_hist (length bs) in if b then Halves z (one_at bs) else Halves (one_at bs) z)"

lemma perfect_zero_hist [simp]: "perfect k (zero_hist k)"
  by (induction k) simp_all

lemma lookup_zero_hist [simp]: "lookup_bits (zero_hist k) c = 0"
proof (induction k arbitrary: c)
  case (Suc k)
  then show ?case by (cases c) auto
qed simp

lemma perfect_ops [simp]:
  "perfect (length bs) (one_at bs)"
  "perfect k t \<Longrightarrow> perfect k (shift_bits bs t)"
  "perfect k t \<Longrightarrow> perfect k u \<Longrightarrow> perfect k (add_hist t u)"
proof -
  show "perfect (length bs) (one_at bs)"
    by (induction bs) (simp_all add: Let_def)
  show "perfect k t \<Longrightarrow> perfect k (shift_bits bs t)"
    by (induction bs t arbitrary: k rule: shift_bits.induct) (auto elim: perfect.elims)
  show "perfect k t \<Longrightarrow> perfect k u \<Longrightarrow> perfect k (add_hist t u)"
    by (induction t u arbitrary: k rule: add_hist.induct) (auto elim: perfect.elims)
qed

lemma lookup_one_at: "length c = length bs \<Longrightarrow> lookup_bits (one_at bs) c = (if c = bs then 1 else 0)"
  by (induction c bs rule: list_induct2) (auto simp: Let_def)

lemma lookup_shift:
  "perfect (length c) t \<Longrightarrow> length w = length c \<Longrightarrow>
   lookup_bits (shift_bits w t) c = lookup_bits t (xor_bits w c)"
proof (induction w t arbitrary: c rule: shift_bits.induct)
  case (1 b bs l r)
  then show ?case by (cases c) auto
qed (auto elim: perfect.elims)

lemma lookup_add:
  "perfect (length c) t \<Longrightarrow> perfect (length c) u \<Longrightarrow>
   lookup_bits (add_hist t u) c = lookup_bits t c + lookup_bits u c"
proof (induction t u arbitrary: c rule: add_hist.induct)
  case (2 l r l' r')
  then show ?case by (cases c) auto
qed (auto elim: perfect.elims)

definition sum_hist :: "hist \<Rightarrow> hist list \<Rightarrow> hist" where
  "sum_hist t us = foldl add_hist t us"

lemma sum_hist_eq:
  "perfect (length c) t \<Longrightarrow> \<forall>u\<in>set us. perfect (length c) u \<Longrightarrow>
   perfect (length c) (sum_hist t us) \<and> lookup_bits (sum_hist t us) c = lookup_bits t c + (\<Sum>u\<leftarrow>us. lookup_bits u c)"
  unfolding sum_hist_def by (induction us arbitrary: t) (auto simp: lookup_add)

section \<open>One contribution per digit\<close>

text \<open>The register after \<open>d\<close> digits of \<open>m\<close>, leading zeros included.\<close>

definition crc_digit :: "u16 \<Rightarrow> nat \<Rightarrow> u16" where
  "crc_digit a r = crc16_byte a (digit_byte r)"

fun crc_digits :: "u16 \<Rightarrow> nat \<Rightarrow> nat \<Rightarrow> u16" where
  "crc_digits a 0 m = a"
| "crc_digits a (Suc d) m = crc_digit (crc_digits a d (m div 10)) (m mod 10)"

definition crc_zeros :: "nat \<Rightarrow> u16 \<Rightarrow> u16" where
  "crc_zeros d a = ((\<lambda>a. crc16_byte a 0) ^^ d) a"

definition crc_key :: "nat \<Rightarrow> u16" where
  "crc_key i = crc16 (distribution_key i)"

lemma crc_key_digit: "10 \<le> n \<Longrightarrow> crc_key n = crc_digit (crc_key (n div 10)) (n mod 10)"
  by (simp add: crc_key_def crc_digit_def distribution_key_def dec_nat.simps [of n] crc16_def)

lemma block_digit:
  "(q * 10 ^ Suc d + m) div 10 = q * 10 ^ d + m div 10" "(q * 10 ^ Suc d + m) mod 10 = m mod (10 :: nat)"
proof -
  have eq: "q * 10 ^ Suc d + m = m + 10 * (q * 10 ^ d)"
    by simp
  show "(q * 10 ^ Suc d + m) div 10 = q * 10 ^ d + m div 10" "(q * 10 ^ Suc d + m) mod 10 = m mod 10"
    unfolding eq by (simp_all only: div_mult_self2 mod_mult_self2)
qed

lemma crc_key_digits:
  "0 < q \<Longrightarrow> m < 10 ^ d \<Longrightarrow> crc_key (q * 10 ^ d + m) = crc_digits (crc_key q) d m"
proof (induction d arbitrary: m)
  case (Suc d)
  note block_digit [of q d m]
  moreover have "10 \<le> q * 10 ^ Suc d + m"
    using Suc.prems(1) by (simp add: trans_le_add1)
  moreover have "m div 10 < 10 ^ d"
    using Suc.prems(2) by (simp add: less_mult_imp_div_less mult.commute)
  ultimately show ?case
    using Suc.IH [OF Suc.prems(1)] crc_key_digit [of "q * 10 ^ Suc d + m"] by simp
qed simp

lemma crc_digits_first:
  "r < 10 \<Longrightarrow> m < 10 ^ d \<Longrightarrow> crc_digits a (Suc d) (r * 10 ^ d + m) = crc_digits (crc_digit a r) d m"
proof (induction d arbitrary: m)
  case (Suc d)
  note block_digit [of r d m]
  moreover have "m div 10 < 10 ^ d"
    using Suc.prems(2) by (simp add: less_mult_imp_div_less mult.commute)
  ultimately show ?case
    using Suc.IH [OF Suc.prems(1), of "m div 10"] by (subst crc_digits.simps) simp
qed simp

lemma crc_digits_xor: "crc_digits (a XOR b) d m = crc_zeros d a XOR crc_digits b d m"
proof (induction d arbitrary: m)
  case (Suc d)
  have "crc16_byte (x XOR y) z = crc16_byte x 0 XOR crc16_byte y z" for x y z
    using crc16_byte_xor [of x y 0 z] by simp
  with Suc show ?case
    by (simp add: crc_zeros_def crc_digit_def)
qed (simp add: crc_zeros_def)

lemma crc_digits_zero: "crc_digits a d m = crc_zeros d a XOR crc_digits 0 d m"
  using crc_digits_xor [of a 0] by simp

section \<open>The histograms of the keys\<close>

definition low_bits :: "u16 \<Rightarrow> bool list" where
  "low_bits h = map (bit h) [5, 4, 3, 2, 1, 0]"

lemma length_low_bits [simp]: "length (low_bits h) = 6"
  by (simp add: low_bits_def)

lemma low_bits_xor: "low_bits (a XOR b) = xor_bits (low_bits a) (low_bits b)"
  by (simp add: low_bits_def bit_xor_iff xor_bits_def)

fun digits_hist :: "nat \<Rightarrow> hist" where
  "digits_hist 0 = one_at (low_bits 0)"
| "digits_hist (Suc d) =
     (let t = digits_hist d in
      sum_hist (zero_hist 6) (map (\<lambda>r. shift_bits (low_bits (crc_zeros d (crc_digit 0 r))) t) [0..<10]))"

fun keys_hist :: "nat \<Rightarrow> hist" where
  "keys_hist 0 = one_at (low_bits (crc_key 0))"
| "keys_hist (Suc d) =
     (let t = digits_hist d in
      sum_hist (keys_hist d) (map (\<lambda>q. shift_bits (low_bits (crc_zeros d (crc_key q))) t) [1..<10]))"

definition how_many :: "(nat \<Rightarrow> bool) \<Rightarrow> nat \<Rightarrow> nat" where
  "how_many P n = card {i. i < n \<and> P i}"

lemma how_many_blocks:
  assumes "0 < n"
  shows "how_many P (k * n) = (\<Sum>q<k. how_many (\<lambda>m. P (q * n + m)) n)"
proof (induction k)
  case 0
  then show ?case by (simp add: how_many_def)
next
  case (Suc k)
  have split: "{i. i < Suc k * n \<and> P i} = {i. i < k * n \<and> P i} \<union> (\<lambda>m. k * n + m) ` {m. m < n \<and> P (k * n + m)}"
  proof (intro equalityI subsetI)
    fix i
    assume i: "i \<in> {i. i < Suc k * n \<and> P i}"
    show "i \<in> {i. i < k * n \<and> P i} \<union> (\<lambda>m. k * n + m) ` {m. m < n \<and> P (k * n + m)}"
    proof (cases "i < k * n")
      case True
      with i show ?thesis by simp
    next
      case False
      with i have "i = k * n + (i - k * n)" "i - k * n < n"
        by auto
      with i show ?thesis by (metis (mono_tags, lifting) UnI2 image_eqI mem_Collect_eq)
    qed
  qed auto
  have "how_many P (Suc k * n) = how_many P (k * n) + how_many (\<lambda>m. P (k * n + m)) n"
    unfolding how_many_def split
    by (subst card_Un_disjoint) (auto simp: card_image)
  with Suc show ?case by simp
qed

lemma digits_hist_eq:
  "perfect 6 (digits_hist d) \<and>
   (length c = 6 \<longrightarrow> lookup_bits (digits_hist d) c = how_many (\<lambda>m. low_bits (crc_digits 0 d m) = c) (10 ^ d))"
proof (induction d arbitrary: c)
  case 0
  have "perfect 6 (one_at (low_bits 0))"
    using perfect_ops(1) [of "low_bits 0"] by simp
  then show ?case
    by (auto simp: how_many_def lookup_one_at)
next
  case (Suc d)
  let ?w = "\<lambda>r. low_bits (crc_zeros d (crc_digit 0 r))"
  let ?us = "map (\<lambda>r. shift_bits (?w r) (digits_hist d)) [0..<10]"
  have us: "\<forall>u\<in>set ?us. perfect 6 u"
    using Suc by simp
  have "lookup_bits (digits_hist (Suc d)) c = how_many (\<lambda>m. low_bits (crc_digits 0 (Suc d) m) = c) (10 ^ Suc d)"
    if c: "length c = 6"
  proof -
    have one: "lookup_bits (shift_bits (?w r) (digits_hist d)) c =
        how_many (\<lambda>m. low_bits (crc_digits 0 (Suc d) (r * 10 ^ d + m)) = c) (10 ^ d)" if "r < 10" for r
    proof -
      have "low_bits (crc_digits 0 (Suc d) (r * 10 ^ d + m)) = c \<longleftrightarrow>
          low_bits (crc_digits 0 d m) = xor_bits (?w r) c" if "m < 10 ^ d" for m
        unfolding crc_digits_first [OF \<open>r < 10\<close> that]
        by (subst crc_digits_zero) (simp add: low_bits_xor xor_bits_eq_iff c)
      then have "how_many (\<lambda>m. low_bits (crc_digits 0 (Suc d) (r * 10 ^ d + m)) = c) (10 ^ d) =
          how_many (\<lambda>m. low_bits (crc_digits 0 d m) = xor_bits (?w r) c) (10 ^ d)"
        unfolding how_many_def by (intro arg_cong [where f = card] Collect_cong) auto
      with Suc c show ?thesis
        by (simp add: lookup_shift)
    qed
    have "lookup_bits (digits_hist (Suc d)) c = (\<Sum>r\<leftarrow>[0..<10]. lookup_bits (shift_bits (?w r) (digits_hist d)) c)"
      using sum_hist_eq [of c "zero_hist 6" ?us] us c by (simp add: Let_def comp_def)
    also have "\<dots> = (\<Sum>r<10. how_many (\<lambda>m. low_bits (crc_digits 0 (Suc d) (r * 10 ^ d + m)) = c) (10 ^ d))"
      using one by (simp add: sum_list_distinct_conv_sum_set atLeast0LessThan)
    finally show ?thesis
      using how_many_blocks [of "10 ^ d" "\<lambda>m. low_bits (crc_digits 0 (Suc d) m) = c" 10] by simp
  qed
  moreover have "perfect 6 (digits_hist (Suc d))"
    using sum_hist_eq [of "replicate 6 False" "zero_hist 6" ?us] us by (simp add: Let_def)
  ultimately show ?case by blast
qed

lemma keys_hist_eq:
  "perfect 6 (keys_hist d) \<and>
   (length c = 6 \<longrightarrow> lookup_bits (keys_hist d) c = how_many (\<lambda>i. low_bits (crc_key i) = c) (10 ^ d))"
proof (induction d)
  case 0
  have "perfect 6 (one_at (low_bits (crc_key 0)))"
    using perfect_ops(1) [of "low_bits (crc_key 0)"] by simp
  moreover have "{i. i < 1 \<and> low_bits (crc_key i) = c} = (if low_bits (crc_key 0) = c then {0} else {})"
    by auto
  ultimately show ?case
    by (auto simp: how_many_def lookup_one_at)
next
  case (Suc d)
  let ?w = "\<lambda>q. low_bits (crc_zeros d (crc_key q))"
  let ?us = "map (\<lambda>q. shift_bits (?w q) (digits_hist d)) [1..<10]"
  let ?P = "\<lambda>i. low_bits (crc_key i) = c"
  have us: "\<forall>u\<in>set ?us. perfect 6 u"
    using digits_hist_eq [of d] by simp
  have "lookup_bits (keys_hist (Suc d)) c = how_many ?P (10 ^ Suc d)" if c: "length c = 6"
  proof -
    have one: "lookup_bits (shift_bits (?w q) (digits_hist d)) c = how_many (\<lambda>m. ?P (q * 10 ^ d + m)) (10 ^ d)"
      if "0 < q" for q
    proof -
      have "?P (q * 10 ^ d + m) \<longleftrightarrow> low_bits (crc_digits 0 d m) = xor_bits (?w q) c" if "m < 10 ^ d" for m
        unfolding crc_key_digits [OF \<open>0 < q\<close> that]
        by (subst crc_digits_zero) (simp add: low_bits_xor xor_bits_eq_iff c)
      then have "how_many (\<lambda>m. ?P (q * 10 ^ d + m)) (10 ^ d) =
          how_many (\<lambda>m. low_bits (crc_digits 0 d m) = xor_bits (?w q) c) (10 ^ d)"
        unfolding how_many_def by (intro arg_cong [where f = card] Collect_cong) auto
      with digits_hist_eq [of d] c show ?thesis
        by (simp add: lookup_shift)
    qed
    have "lookup_bits (keys_hist (Suc d)) c =
        lookup_bits (keys_hist d) c + (\<Sum>q\<leftarrow>[1..<10]. lookup_bits (shift_bits (?w q) (digits_hist d)) c)"
      using sum_hist_eq [of c "keys_hist d" ?us] us c Suc by (simp add: Let_def comp_def del: upt_Suc)
    also have "\<dots> = how_many ?P (10 ^ d) + (\<Sum>q\<in>{1..<10}. how_many (\<lambda>m. ?P (q * 10 ^ d + m)) (10 ^ d))"
      using one Suc c by (simp add: sum_list_distinct_conv_sum_set del: upt_Suc)
    also have "\<dots> = (\<Sum>q<10. how_many (\<lambda>m. ?P (q * 10 ^ d + m)) (10 ^ d))"
      by (simp add: sum.atLeast_Suc_lessThan [of 0 10] flip: atLeast0LessThan)
    finally show ?thesis
      using how_many_blocks [of "10 ^ d" ?P 10] by simp
  qed
  moreover have "perfect 6 (keys_hist (Suc d))"
    using sum_hist_eq [of "replicate 6 False" "keys_hist d" ?us] us Suc by (simp add: Let_def del: upt_Suc)
  ultimately show ?case by blast
qed

section \<open>The counts of the test\<close>

definition bucket :: "nat \<Rightarrow> nat" where
  "bucket i = unat (crc_key i) mod 64"

lemma count_shard_eq: "count_shard counts i = counts[bucket i := counts ! bucket i + 1]"
proof -
  have "unat ((ucast h :: usize) AND 63) = unat h mod 64" for h :: u16
  proof -
    have m: "(63 :: usize) = mask 6"
      by (simp add: mask_eq_exp_minus_1)
    have "unat h < 2 ^ 16"
      using unsigned_less [of h] by simp
    then have "unat (ucast h :: usize) = unat h"
      by (simp add: unsigned_ucast_eq take_bit_nat_eq_self)
    then show ?thesis
      unfolding m take_bit_eq_mask [symmetric] unsigned_take_bit_eq by (simp add: take_bit_eq_mod)
  qed
  then show ?thesis
    by (simp add: count_shard_def Let_def bucket_def crc_key_def)
qed

lemma distribution_counts_eq:
  "length (distribution_counts n) = 64 \<and>
   (\<forall>k<64. distribution_counts n ! k = how_many (\<lambda>i. bucket i = k) n)"
proof (induction n)
  case 0
  then show ?case by (simp add: distribution_counts_def how_many_def)
next
  case (Suc n)
  have "{i. i < Suc n \<and> P i} = (if P n then insert n {i. i < n \<and> P i} else {i. i < n \<and> P i})" for P
    by (auto simp: less_Suc_eq)
  then have "how_many P (Suc n) = how_many P n + (if P n then 1 else 0)" for P
    by (simp add: how_many_def)
  moreover have "distribution_counts (Suc n) = count_shard (distribution_counts n) n"
    by (simp add: distribution_counts_def)
  moreover have "bucket n < 64"
    by (simp add: bucket_def)
  ultimately show ?case
    using Suc by (auto simp: count_shard_eq nth_list_update)
qed

text \<open>The six bits of a shard's number.\<close>

definition index_bits :: "nat \<Rightarrow> bool list" where
  "index_bits k = map (bit k) [5, 4, 3, 2, 1, 0]"

lemma length_index_bits: "length (index_bits k) = 6"
  by (simp add: index_bits_def)

lemma low_bits_bucket: "k < 64 \<Longrightarrow> low_bits (crc_key i) = index_bits k \<longleftrightarrow> bucket i = k"
proof -
  assume k: "k < 64"
  have "bit (bucket i) n \<longleftrightarrow> n < 6 \<and> bit (crc_key i) n" for n
    unfolding bucket_def by (simp add: bit_unsigned_iff bit_take_bit_iff flip: take_bit_eq_mod [of 6, simplified])
  moreover have "bit k n \<longleftrightarrow> n < 6 \<and> bit k n" for n
    using k bit_take_bit_iff [of 6 k n] by (simp add: take_bit_nat_eq_self)
  ultimately have "bucket i = k \<longleftrightarrow> (\<forall>n<6. bit (crc_key i) n = bit k n)"
    by (metis bit_eq_iff)
  then show ?thesis
    by (simp add: low_bits_def index_bits_def numeral_eq_Suc All_less_Suc)
qed

lemma counts_by_histogram:
  "distribution_counts (10 ^ d) = map (\<lambda>k. lookup_bits (keys_hist d) (index_bits k)) [0..<64]"
proof (rule nth_equalityI)
  show "length (distribution_counts (10 ^ d)) = length (map (\<lambda>k. lookup_bits (keys_hist d) (index_bits k)) [0..<64])"
    using distribution_counts_eq [of "10 ^ d"] by simp
  fix k
  assume "k < length (distribution_counts (10 ^ d))"
  then have "k < 64"
    using distribution_counts_eq [of "10 ^ d"] by simp
  then show "distribution_counts (10 ^ d) ! k = map (\<lambda>k. lookup_bits (keys_hist d) (index_bits k)) [0..<64] ! k"
    using distribution_counts_eq [of "10 ^ d"] keys_hist_eq [of d "index_bits k"]
    by (simp add: low_bits_bucket length_index_bits del: upt_Suc)
qed

text \<open>The counts from left to right are those of the shards in order.\<close>

fun leaves :: "hist \<Rightarrow> nat list" where
  "leaves (Count n) = [n]"
| "leaves (Halves l r) = leaves l @ leaves r"

lemma high_half:
  fixes i :: nat
  assumes "i < 2 ^ k"
  shows "map (bit i) (rev [0..<Suc k]) = False # map (bit i) (rev [0..<k])"
    and "map (bit (i + 2 ^ k)) (rev [0..<Suc k]) = True # map (bit i) (rev [0..<k])"
proof -
  have "take_bit k i = i"
    using assms by (simp add: take_bit_nat_eq_self)
  then have low: "\<not> bit i k"
    by (metis bit_take_bit_iff less_irrefl)
  then show "map (bit i) (rev [0..<Suc k]) = False # map (bit i) (rev [0..<k])"
    by simp
  have "i + 2 ^ k = i OR 2 ^ k"
    using low by (subst disjunctive_add) (auto simp: bit_simps)
  then show "map (bit (i + 2 ^ k)) (rev [0..<Suc k]) = True # map (bit i) (rev [0..<k])"
    by (auto simp: bit_simps)
qed

lemma leaves_eq:
  "perfect k t \<Longrightarrow> leaves t = map (\<lambda>i. lookup_bits t (map (bit i) (rev [0..<k]))) [0..<2 ^ k]"
proof (induction k t rule: perfect.induct)
  case (2 k l r)
  let ?at = "\<lambda>k t i. lookup_bits t (map (bit i) (rev [0..<k]))"
  have "[0..<2 ^ Suc k] = [0..<2 ^ k] @ map (\<lambda>i. i + 2 ^ k) [0..<2 ^ k]"
    using upt_add_eq_append [of 0 "2 ^ k" "2 ^ k"] map_add_upt [of "2 ^ k" "2 ^ k"]
    by (simp only: power_Suc mult_2 add_0 le0)
  then have "map (?at (Suc k) (Halves l r)) [0..<2 ^ Suc k] =
      map (?at (Suc k) (Halves l r)) [0..<2 ^ k] @
      map (\<lambda>i. ?at (Suc k) (Halves l r) (i + 2 ^ k)) [0..<2 ^ k]"
    by (simp only: map_append map_map comp_def)
  also have "map (?at (Suc k) (Halves l r)) [0..<2 ^ k] = map (?at k l) [0..<2 ^ k]"
    by (rule map_cong) (simp_all only: high_half set_upt atLeastLessThan_iff lookup_bits.simps if_False)
  also have "map (\<lambda>i. ?at (Suc k) (Halves l r) (i + 2 ^ k)) [0..<2 ^ k] = map (?at k r) [0..<2 ^ k]"
    by (rule map_cong) (simp_all only: high_half set_upt atLeastLessThan_iff lookup_bits.simps if_True)
  finally show ?case
    using 2 by simp
qed auto

lemma counts_are_leaves: "distribution_counts (10 ^ d) = leaves (keys_hist d)"
proof -
  have bits: "index_bits k = map (bit k) (rev [0..<6])" for k
    by (simp add: index_bits_def eval_nat_numeral)
  show ?thesis
    using counts_by_histogram [of d] leaves_eq [of 6 "keys_hist d"] keys_hist_eq [of d]
    by (simp only: bits) simp
qed

end
