(* ===== verification/Distribution_Counts.thy ===== *)
theory Distribution_Counts
  imports Distribution
begin

text \<open>
  The counts of the distribution test for its million keys, one decimal digit after another:
  the registers of the digits, the histograms they give, and the verdict of the test.
\<close>

section \<open>The registers\<close>

lemma crc16_byte_steps:
  "crc16_byte c b =
     crc16_bit (crc16_bit (crc16_bit (crc16_bit (crc16_bit (crc16_bit (crc16_bit (crc16_bit
       (c XOR push_bit 8 (ucast b)))))))))"
  by (simp add: crc16_byte_def numeral_eq_Suc)

lemmas crc_eval = crc16_byte_steps crc16_bit_def

text \<open>The registers of the ten digits and of the ten one-digit keys, then with zeros behind them.\<close>

definition digit_words :: "nat \<Rightarrow> u16 list" where
  "digit_words d = map (\<lambda>r. crc_zeros d (crc_digit 0 r)) [0..<10]"

definition key_words :: "nat \<Rightarrow> u16 list" where
  "key_words d = map (\<lambda>q. crc_zeros d (crc_key q)) [1..<10]"

lemma words_next:
  assumes "0 < d"
  shows "digit_words d = map (\<lambda>a. crc16_byte a 0) (digit_words (d - 1))"
    and "key_words d = map (\<lambda>a. crc16_byte a 0) (key_words (d - 1))"
proof -
  have "crc_zeros d a = crc16_byte (crc_zeros (d - 1) a) 0" for a
    using assms by (cases d) (simp_all add: crc_zeros_def)
  then show "digit_words d = map (\<lambda>a. crc16_byte a 0) (digit_words (d - 1))"
    "key_words d = map (\<lambda>a. crc16_byte a 0) (key_words (d - 1))"
    by (simp_all add: digit_words_def key_words_def)
qed

lemma preds: "6 - 1 = (5 :: nat)" "1 - 1 = (0 :: nat)" "2 - 1 = (1 :: nat)" "3 - 1 = (2 :: nat)" "4 - 1 = (3 :: nat)" "5 - 1 = (4 :: nat)"
  by simp_all

lemma words_0:
  "digit_words 0 = [13907, 9842, 5649, 1584, 30423, 26358, 22165, 18100, 46939, 42874]"
  "key_words 0 = [39425, 43618, 47683, 51876, 55941, 60134, 64199, 2856, 6921]"
  by (simp_all add: digit_words_def key_words_def crc_zeros_def crc_digit_def crc_key_def
      distribution_key_def crc16_def dec_nat.simps digit_byte_def upt_conv_Cons crc_eval)

lemma words_1:
  "digit_words 1 = [1429, 13988, 25591, 20678, 51537, 64096, 44851, 39938, 35900, 48909]"
  "key_words 1 = [9203, 30368, 17809, 56326, 61239, 47716, 35157, 39275, 43610]"
  unfolding words_next [of 1, OF zero_less_one] preds words_0 list.map
  by (simp_all add: crc_eval)

lemma words_2:
  "digit_words 2 = [50597, 62101, 43973, 40181, 6501, 11861, 30469, 16437, 27652, 23348]"
  "key_words 2 = [59137, 48721, 35169, 3313, 15297, 25233, 21921, 31120, 20128]"
  unfolding words_next [of 2, OF zero_less_numeral] preds words_1 list.map
  by (simp_all add: crc_eval)

lemma words_3:
  "digit_words 3 = [11497, 23133, 49537, 46901, 58904, 37036, 2928, 32196, 43306, 57246]"
  "key_words 3 = [36041, 5909, 24993, 12428, 17976, 56804, 43856, 32702, 2314]"
  unfolding words_next [of 3, OF zero_less_numeral] preds words_2 list.map
  by (simp_all add: crc_eval)

lemma words_4:
  "digit_words 4 = [3310, 42687, 18541, 57916, 34280, 12217, 49515, 27450, 3779, 42130]"
  "key_words 4 = [39172, 30678, 56711, 47699, 4098, 65232, 21633, 12664, 39721]"
  unfolding words_next [of 4, OF zero_less_numeral] preds words_3 list.map
  by (simp_all add: crc_eval)

lemma words_5:
  "digit_words 5 = [12172, 27180, 42188, 57708, 10541, 27789, 41581, 59341, 8910, 26478]"
  "key_words 5 = [5776, 55408, 40400, 21905, 4145, 57041, 39793, 24178, 7122]"
  unfolding words_next [of 5, OF zero_less_numeral] preds words_4 list.map
  by (simp_all add: crc_eval)

section \<open>One row of the histograms\<close>

definition add_rows :: "bool list list \<Rightarrow> hist \<Rightarrow> hist \<Rightarrow> hist" where
  "add_rows bss u t = foldl (\<lambda>u bs. add_hist u (shift_bits bs t)) u bss"

lemma foldl_map: "foldl f u (map g xs) = foldl (\<lambda>u x. f u (g x)) u xs"
  by (induction xs arbitrary: u) simp_all

lemma next_hists:
  assumes "0 < d"
  shows "digits_hist d = add_rows (map low_bits (digit_words (d - 1))) (zero_hist 6) (digits_hist (d - 1))"
    and "keys_hist d = add_rows (map low_bits (key_words (d - 1))) (keys_hist (d - 1)) (digits_hist (d - 1))"
  using assms by (cases d; simp add: add_rows_def digit_words_def key_words_def sum_hist_def Let_def
    foldl_map comp_def del: upt_Suc)+

lemma add_rows_simps:
  "add_rows [] u t = u"
  "add_rows (bs # bss) u t = add_rows bss (add_hist u (shift_bits bs t)) t"
  by (simp_all add: add_rows_def)

text \<open>The tree of sixty-four counts.\<close>

fun halves :: "hist list \<Rightarrow> hist list" where
  "halves (l # r # ts) = Halves l r # halves ts"
| "halves ts = ts"

definition hist_of :: "nat list \<Rightarrow> hist" where
  "hist_of ns = hd (halves (halves (halves (halves (halves (halves (map Count ns)))))))"

lemma zero_hist_6:
  "zero_hist 6 = hist_of
     [0, 0, 0, 0, 0, 0, 0, 0, 0, 0, 0, 0, 0, 0, 0, 0,
      0, 0, 0, 0, 0, 0, 0, 0, 0, 0, 0, 0, 0, 0, 0, 0,
      0, 0, 0, 0, 0, 0, 0, 0, 0, 0, 0, 0, 0, 0, 0, 0,
      0, 0, 0, 0, 0, 0, 0, 0, 0, 0, 0, 0, 0, 0, 0, 0]"
  by (simp add: eval_nat_numeral hist_of_def)

lemma first_hists:
  "digits_hist 0 = hist_of
     [1, 0, 0, 0, 0, 0, 0, 0, 0, 0, 0, 0, 0, 0, 0, 0,
      0, 0, 0, 0, 0, 0, 0, 0, 0, 0, 0, 0, 0, 0, 0, 0,
      0, 0, 0, 0, 0, 0, 0, 0, 0, 0, 0, 0, 0, 0, 0, 0,
      0, 0, 0, 0, 0, 0, 0, 0, 0, 0, 0, 0, 0, 0, 0, 0]"
  "keys_hist 0 = hist_of
     [0, 0, 0, 0, 0, 0, 0, 0, 0, 0, 0, 0, 0, 0, 0, 0,
      0, 0, 0, 0, 0, 0, 0, 0, 0, 0, 0, 0, 0, 0, 0, 0,
      1, 0, 0, 0, 0, 0, 0, 0, 0, 0, 0, 0, 0, 0, 0, 0,
      0, 0, 0, 0, 0, 0, 0, 0, 0, 0, 0, 0, 0, 0, 0, 0]" (is ?K)
proof -
  have "crc_key 0 = 35360"
    by (simp add: crc_key_def distribution_key_def crc16_def dec_nat.simps digit_byte_def crc_eval)
  then have "low_bits (crc_key 0) = [True, False, False, False, False, False]"
    by (simp add: low_bits_def)
  then show ?K
    by (simp add: hist_of_def eval_nat_numeral)
qed (simp add: low_bits_def hist_of_def eval_nat_numeral)

lemmas hist_eval = zero_hist_6 hist_of_def list.map halves.simps list.sel add_hist.simps shift_bits.simps add_rows_simps if_True if_False
  add_num_simps numeral_plus_numeral add_0_left add_0_right one_add_one numeral_plus_one one_plus_numeral

lemma row_1:
  "digits_hist 1 = hist_of
     [0, 0, 0, 0, 0, 0, 0, 0, 0, 0, 0, 0, 0, 0, 0, 0,
      0, 1, 0, 1, 0, 1, 0, 1, 0, 0, 0, 1, 0, 0, 0, 0,
      0, 0, 0, 0, 0, 0, 0, 0, 0, 0, 0, 0, 0, 0, 0, 0,
      1, 0, 1, 0, 1, 0, 1, 0, 0, 0, 1, 0, 0, 0, 0, 0]"
  "keys_hist 1 = hist_of
     [0, 1, 0, 1, 0, 1, 0, 1, 0, 1, 0, 0, 0, 0, 0, 0,
      0, 0, 0, 0, 0, 0, 0, 0, 0, 0, 0, 0, 0, 0, 0, 0,
      1, 0, 1, 0, 1, 0, 1, 0, 1, 0, 0, 0, 0, 0, 0, 0,
      0, 0, 0, 0, 0, 0, 0, 0, 0, 0, 0, 0, 0, 0, 0, 0]"
  unfolding next_hists [of 1, OF zero_less_one] preds words_0 list.map first_hists
  by (simp_all add: low_bits_def) (simp_all only: hist_eval flip: One_nat_def)

lemma row_2:
  "digits_hist 2 = hist_of
     [2, 2, 2, 2, 2, 2, 3, 2, 1, 1, 2, 0, 1, 1, 2, 0,
      2, 2, 2, 2, 2, 2, 3, 2, 1, 1, 2, 0, 1, 1, 2, 0,
      2, 2, 2, 2, 2, 2, 2, 3, 1, 1, 0, 2, 1, 1, 0, 2,
      2, 2, 2, 2, 2, 2, 2, 3, 1, 1, 0, 2, 1, 1, 0, 2]"
  "keys_hist 2 = hist_of
     [2, 4, 2, 3, 2, 3, 2, 3, 0, 3, 1, 1, 0, 2, 1, 1,
      2, 2, 2, 1, 2, 1, 2, 1, 0, 1, 1, 1, 0, 2, 1, 1,
      4, 2, 3, 2, 3, 2, 3, 2, 3, 0, 1, 1, 2, 0, 1, 1,
      2, 2, 1, 2, 1, 2, 1, 2, 1, 0, 1, 1, 2, 0, 1, 1]"
  unfolding next_hists [of 2, OF zero_less_numeral] preds words_1 list.map row_1
  by (simp_all add: low_bits_def) (simp_all only: hist_eval flip: One_nat_def)

lemma row_3:
  "digits_hist 3 = hist_of
     [20, 20, 25, 25, 20, 20, 20, 20, 10, 10, 10, 10, 10, 10, 10, 10,
      20, 20, 25, 25, 20, 20, 20, 20, 10, 10, 10, 10, 10, 10, 10, 10,
      20, 20, 25, 25, 20, 20, 20, 20, 10, 10, 10, 10, 10, 10, 10, 10,
      20, 20, 25, 25, 20, 20, 20, 20, 10, 10, 10, 10, 10, 10, 10, 10]"
  "keys_hist 3 = hist_of
     [20, 22, 20, 21, 20, 21, 24, 26, 9, 12, 9, 11, 9, 11, 9, 11,
      20, 20, 20, 19, 20, 19, 24, 24, 9, 10, 9, 11, 9, 11, 9, 11,
      22, 20, 21, 20, 21, 20, 26, 24, 12, 9, 11, 9, 11, 9, 11, 9,
      20, 20, 19, 20, 19, 20, 24, 24, 10, 9, 11, 9, 11, 9, 11, 9]"
  unfolding next_hists [of 3, OF zero_less_numeral] preds words_2 list.map row_2
  by (simp_all add: low_bits_def) (simp_all only: hist_eval flip: One_nat_def)

lemma row_4:
  "digits_hist 4 = hist_of
     [140, 140, 150, 150, 140, 140, 150, 150, 165, 165, 170, 170, 165, 165, 170, 170,
      140, 140, 150, 150, 140, 140, 150, 150, 165, 165, 170, 170, 165, 165, 170, 170,
      140, 140, 150, 150, 140, 140, 150, 150, 165, 165, 170, 170, 165, 165, 170, 170,
      140, 140, 150, 150, 140, 140, 150, 150, 165, 165, 170, 170, 165, 165, 170, 170]"
  "keys_hist 4 = hist_of
     [150, 152, 160, 161, 150, 151, 164, 166, 154, 157, 159, 161, 154, 156, 154, 156,
      150, 150, 160, 159, 150, 149, 164, 164, 154, 155, 159, 161, 154, 156, 154, 156,
      152, 150, 161, 160, 151, 150, 166, 164, 157, 154, 161, 159, 156, 154, 156, 154,
      150, 150, 159, 160, 149, 150, 164, 164, 155, 154, 161, 159, 156, 154, 156, 154]"
  unfolding next_hists [of 4, OF zero_less_numeral] preds words_3 list.map row_3
  by (simp_all add: low_bits_def) (simp_all only: hist_eval flip: One_nat_def)

lemma row_5:
  "digits_hist 5 = hist_of
     [1640, 1640, 1620, 1620, 1640, 1640, 1620, 1620, 1500, 1500, 1490, 1490, 1500, 1500, 1490, 1490,
      1640, 1640, 1620, 1620, 1640, 1640, 1620, 1620, 1500, 1500, 1490, 1490, 1500, 1500, 1490, 1490,
      1640, 1640, 1620, 1620, 1640, 1640, 1620, 1620, 1500, 1500, 1490, 1490, 1500, 1500, 1490, 1490,
      1640, 1640, 1620, 1620, 1640, 1640, 1620, 1620, 1500, 1500, 1490, 1490, 1500, 1500, 1490, 1490]"
  "keys_hist 5 = hist_of
     [1500, 1502, 1510, 1511, 1500, 1501, 1514, 1516, 1609, 1612, 1629, 1631, 1609, 1611, 1624, 1626,
      1500, 1500, 1510, 1509, 1500, 1499, 1514, 1514, 1609, 1610, 1629, 1631, 1609, 1611, 1624, 1626,
      1502, 1500, 1511, 1510, 1501, 1500, 1516, 1514, 1612, 1609, 1631, 1629, 1611, 1609, 1626, 1624,
      1500, 1500, 1509, 1510, 1499, 1500, 1514, 1514, 1610, 1609, 1631, 1629, 1611, 1609, 1626, 1624]"
  unfolding next_hists [of 5, OF zero_less_numeral] preds words_4 list.map row_4
  by (simp_all add: low_bits_def) (simp_all only: hist_eval flip: One_nat_def)

lemma row_6:
  "keys_hist 6 = hist_of
     [16220, 16222, 16130, 16131, 16220, 16221, 16134, 16136, 15089, 15092, 15059, 15061, 15089, 15091, 15054, 15056,
      16220, 16220, 16130, 16129, 16220, 16219, 16134, 16134, 15089, 15090, 15059, 15061, 15089, 15091, 15054, 15056,
      16222, 16220, 16131, 16130, 16221, 16220, 16136, 16134, 15092, 15089, 15061, 15059, 15091, 15089, 15056, 15054,
      16220, 16220, 16129, 16130, 16219, 16220, 16134, 16134, 15090, 15089, 15061, 15059, 15091, 15089, 15056, 15054]"
  unfolding next_hists [of 6, OF zero_less_numeral] preds words_5 list.map row_5
  by (simp_all add: low_bits_def) (simp_all only: hist_eval flip: One_nat_def)

section \<open>The verdict\<close>

lemma million_counts:
  "distribution_counts 1000000 =
     [16220, 16222, 16130, 16131, 16220, 16221, 16134, 16136, 15089, 15092, 15059, 15061, 15089, 15091, 15054, 15056,
      16220, 16220, 16130, 16129, 16220, 16219, 16134, 16134, 15089, 15090, 15059, 15061, 15089, 15091, 15054, 15056,
      16222, 16220, 16131, 16130, 16221, 16220, 16136, 16134, 15092, 15089, 15061, 15059, 15091, 15089, 15056, 15054,
      16220, 16220, 16129, 16130, 16219, 16220, 16134, 16134, 15090, 15089, 15061, 15059, 15091, 15089, 15056, 15054]"
proof -
  have "(10 :: nat) ^ 6 = 1000000"
    by simp
  then show ?thesis
    using counts_are_leaves [of 6] unfolding row_6 hist_of_def
    by (simp only: list.map halves.simps list.sel leaves.simps append.simps)
qed

text \<open>
  C24 (distribution_test_fails). The test of the checksum's distribution fails: of the keys
  \<open>key:0\<close> to \<open>key:999999\<close> every shard gets between 15054 and 16222, but the standard deviation of
  the 64 counts is above 552, and the test asserts that it is below 200.
\<close>

theorem distribution_test_fails:
  "\<not> test_crc16_distribution \<and>
   552 < std_dev (distribution_counts 1000000) (1000000 div 64) \<and>
   std_dev (distribution_counts 1000000) (1000000 div 64) < 553 \<and>
   set (distribution_counts 1000000) \<subseteq> {15054..16222}"
proof -
  have dev: "std_dev (distribution_counts 1000000) (1000000 div 64) = sqrt (19518740 / 64)"
    unfolding std_dev_def million_counts by simp
  have low: "552 < std_dev (distribution_counts 1000000) (1000000 div 64)"
    unfolding dev by (rule real_less_rsqrt) simp
  moreover have "std_dev (distribution_counts 1000000) (1000000 div 64) < 553"
    unfolding dev by (rule real_less_lsqrt) simp_all
  moreover have "set (distribution_counts 1000000) \<subseteq> {15054..16222}"
    unfolding million_counts by simp
  moreover have "\<not> test_crc16_distribution"
    unfolding test_crc16_distribution_def using low by simp
  ultimately show ?thesis by simp
qed

end
