(* ===== verification/Spec2Isabelle.thy ===== *)
theory Spec2Isabelle
  imports Shard_Properties Snapshot_Properties Worker_Properties Resp_Codec Handler_Properties Connection Replies
    Messages Network Observability_Properties Server_Properties Progress Stale_Items Entry_Point Unit_Tests
    Distribution_Counts
begin

text \<open>
  Verification of RsDragonflyDB, an in-memory key-value server that speaks the Redis protocol.
  Paths below are relative to \<open>src/src\<close>.

  \<^bold>\<open>The program.\<close> A connection's task (\<open>frontend/handler.rs\<close>) feeds what it reads to a parser
  (\<open>protocol/parser.rs\<close>), turns each request value into a command (\<open>protocol/command.rs\<close>) and
  sends it over a channel to the shard that a checksum of the key names (\<open>frontend/router.rs\<close>,
  \<open>common/hash.rs\<close>); a \<open>DEL\<close> is split over the shards of its keys. Each of 64 workers
  (\<open>shard/worker.rs\<close>) owns a shard (\<open>shard/shard.rs\<close>): a map of entries, a heap of deadlines and
  counters. Between commands it removes due keys (\<open>shard/expiration.rs\<close>) and every minute it
  serialises the shard (\<open>shard/snapshot/serialize.rs\<close>, \<open>shard/persistence/format.rs\<close>) and offers the
  image to its writer's task (\<open>shard/persistence/writer.rs\<close>), which replaces the snapshot file
  by writing a temporary one and renaming it. Replies return as responses that the
  connection's writing task serialises (\<open>protocol/serializer.rs\<close>). \<open>server.rs\<close> starts all this,
  accepts connections and shuts down; \<open>observability\<close> reports counters and health.

  \<^bold>\<open>The model.\<close>

  \<^item> \<open>Prelude\<close>: bytes and words, the type \<open>outcome\<close> of fallible code (a value, an error that is
    returned, or a panic), checked and wrapping \<open>usize\<close> arithmetic, little-endian numbers.
    \<open>Rust_Strings\<close>, \<open>Rust_Collections\<close>: the parts of Rust's library the source uses, UTF-8
    decoding, decimal numbers, hash maps as association lists with distinct keys, binary
    heaps. \<open>Interfaces\<close>: their contracts as locales, each interpreted beside the definitions that keep it.
  \<^item> \<open>Common\<close> (\<open>common/\<close>): limits, shard identifiers, values, instants and their conversion to
    timestamps. \<open>Hash\<close>, \<open>Router\<close>: checksum and routing.
  \<^item> \<open>Resp\<close>, \<open>Serializer\<close>, \<open>Parser\<close>, with the properties in \<open>Resp_Codec\<close>: the wire format.
    \<open>Command\<close>: the seven commands, from and to request values.
  \<^item> \<open>Entry\<close>, \<open>Shard\<close>, \<open>Expiration\<close>: entries, the state of a shard, every command and the removal of
    due keys. A command takes its clock readings as arguments and returns the response with
    the new state, or the panic that unwinds the task. \<open>Shard_Invariants\<close> holds the invariant
    and the accounting of memory, \<open>Store_Spec\<close> the abstract store of values with deadlines and
    the locale \<open>store_machine\<close> of its implementations, \<open>Shard_Refinement\<close> the interpretation on the
    shard, \<open>Shard_Properties\<close> the rest.
  \<^item> \<open>Snapshot_Format\<close>, \<open>Snapshot\<close>, \<open>Snapshot_Properties\<close>: images, their checksums, loading.
  \<^item> \<open>Persistence\<close>, \<open>Worker\<close>, \<open>Worker_Properties\<close>: the writer and the worker as step relations over
    channels, files and program points, in which every system call may fail.
  \<^item> \<open>Handler\<close>: the loops of a connection, over any results of its reads, and the dispatch of
    commands; what the shards do is an argument. \<open>Connection\<close>: the reading and the writing task of
    a connection as a step relation over the channel of responses and the socket; the loops
    are what the reading task does. \<open>Cluster\<close> puts the 64 shards there and interprets
    \<open>store_machine\<close> on the whole server. \<open>Multi_Key\<close>: the executor meant for \<open>DEL\<close>.
    \<open>Handler_Properties\<close>: the properties of these two. \<open>Replies\<close>: what the client reads.
    \<open>Messages\<close>: many connections and one worker, with the channel between them and the
    timeouts of the senders, as a step relation. \<open>Network\<close>: all connections and all workers
    together, a connection issuing its requests one after the other and a \<open>DEL\<close> sending one
    message to each shard it concerns.
  \<^item> \<open>Progress\<close>: that the tasks get on. Its locale \<open>fair_loop\<close> (an invariant, a goal, and turns that
    bring it nearer while other steps take nothing back) is interpreted on the worker serving
    messages and on the worker draining a closed channel. \<open>Stale_Items\<close>: what \<open>EXPIRE\<close> leaves in
    the queue of deadlines.
  \<^item> \<open>Observability\<close>, \<open>Observability_Properties\<close>: counters, health checks, the page of metrics.
  \<^item> \<open>Server\<close>, \<open>Server_Properties\<close>: start, phases of \<open>run\<close> and \<open>shutdown\<close>, and the running system, in
    which the tasks of all shards interleave over one directory. \<open>Entry_Point\<close>: \<open>main.rs\<close> and its
    status, the accept loops, thread names and log lines.
  \<^item> \<open>Unit_Tests\<close>, \<open>Distribution\<close>, \<open>Distribution_Counts\<close>: the repository's unit tests as statements. The
    distribution test counts a million keys; the counts come from histograms of decimal digits,
    since the checksum is linear over exclusive or.

  \<^bold>\<open>What is shown.\<close> Refinement: a shard, and the server of 64 shards, answer a history of
  commands and expirations as one store with deadlines does, when the history is admissible (no
  refused \<open>SET\<close>, representable deadlines, no \<open>DEL\<close> or \<open>EXPIRE\<close> on an expired key not collected
  yet); the conditions are needed, as the theorems about stale keys and large deadlines show. A
  connection's two tasks refine its loops.
  Invariants: every command keeps the shard's invariant and the memory accounting; every
  interleaving of a worker with its writer keeps the shard good; the snapshot files of all
  shards are whole at every moment; many connections at one shard see it execute their
  commands one after the other, and each connection's in the order it sent them. Termination
  and liveness: the writer's task makes boundedly many steps and its images reach the file when
  the calls succeed; a worker with fair turns answers every message it accepted, and once the
  senders are gone drains its channel and takes its final snapshot, or is unwound; pipelined
  requests are answered in order and the tasks of their connection come to rest. The checksum
  is the remainder by the standard's polynomial. Round trips: values, requests, entries and
  the page of metrics are read back as written. Errors: refusals of \<open>SET\<close>, rejected images, failed
  shards in a \<open>DEL\<close>, cut and oversized requests. Several theorems prove defects: expired keys
  fill the memory counter, images with a checksum are never loaded, the shutdown waits for
  final snapshots that cannot begin, the last state is lost when an earlier image is still
  queued, a connection whose client closes it never ends unless a write fails, the exporter
  sees no shard, one key can fill the queue of deadlines, and the repository's distribution
  test fails. That a \<open>DEL\<close> over shards is not atomic, which the repository documents, is shown by
  a run.

  \<^bold>\<open>Arguments of the model.\<close> The crates \<open>byteorder\<close> and \<open>crc\<close> (a record with their documented
  laws), the Unicode tables of \<open>char\<close>, \<open>size_of\<close> of two types and the checking of overflow (the
  build), clock readings, the order in which a map is iterated (any permutation), the
  listing of a directory and the results of system calls, what \<open>read\<close> returns, and how a send
  and a wait end, with their timeouts. Channels of \<open>tokio\<close> are lists with a capacity.

  \<^bold>\<open>Bounds.\<close> No fuel is used: the parser, the request loop, the expiration loop and the scraper
  are total functions with a measure. Counters are 64-bit words that wrap; lengths and sums
  of lengths are exact, since a vector holds at most \<open>isize::MAX\<close> bytes; \<open>i64\<close> and \<open>u64\<close> values of
  the protocol are integers with their range as a condition where they are read; the total of a
  \<open>DEL\<close> counts keys held in memory and is exact.

  \<^bold>\<open>Not modelled.\<close> Command-line parsing, the set-up of \<open>env_logger\<close>, the text \<open>serde_json\<close> and
  \<open>log\<close> print, and the plain log lines between other statements: third-party calls and output.
  The module lists, and the template test that each \<open>mod.rs\<close> repeats (that of \<open>common\<close> is
  modelled). The panics of \<open>duration_since\<close> on a system clock before 1970. Scheduling enters as
  nondeterminism; where something is shown to happen in the end, its fairness is a hypothesis
  on endless runs. \<open>Handler\<close>, \<open>Connection\<close> and \<open>Cluster\<close> take a send to a shard with its wait as
  one step; \<open>Messages\<close> and \<open>Network\<close> open this step up. The lengths of the timeouts are left out:
  a timer may fire at any moment.
\<close>

end
